theory Spec2Isabelle
  imports Main "HOL-Library.List_Lexorder" "HOL-Library.Char_ord" "HOL-Library.Multiset"
begin

section \<open>Sharded inverted hash index (inverted\_index.hpp)\<close>

text \<open>
  The class \<^verbatim>\<open>InvertedIndex<K, V, NUM_SHARDS>\<close> holds a fixed array of shards; each
  shard is an \<^verbatim>\<open>unordered_map<K, shared_ptr<Bucket>>\<close> and each bucket an
  \<^verbatim>\<open>unordered_set<V>\<close>. Buckets live on the heap and are reached through
  shared pointers, so the model keeps them in an explicit store indexed by address:
  a shard maps a key to the address of its bucket. A \<^verbatim>\<open>shared_ptr\<close> is never
  dangling, hence the store is a total function; \<^verbatim>\<open>make_shared<Bucket>()\<close> takes
  the next unused address. The array length plays the role of \<^verbatim>\<open>NUM_SHARDS\<close>
  and \<^verbatim>\<open>std::hash<K>\<close>, which the standard leaves to the implementation, is the
  parameter \<open>h\<close>. Locks are not modelled: every operation runs alone, and a
  function ends where the source releases the locks it took.
\<close>

record ('k, 'v) inverted_index =
  shards :: "('k \<Rightarrow> nat option) list"
  buckets :: "nat \<Rightarrow> 'v set"
  next_bucket :: nat

definition hi_init :: "nat \<Rightarrow> ('k, 'v) inverted_index" where
  "hi_init n = \<lparr> shards = replicate n (\<lambda>_. None), buckets = (\<lambda>_. {}), next_bucket = 0 \<rparr>"

definition getShard :: "('k \<Rightarrow> nat) \<Rightarrow> ('k, 'v) inverted_index \<Rightarrow> 'k \<Rightarrow> nat" where
  "getShard h s key = h key mod length (shards s)"

definition getOrCreateBucket ::
  "('k \<Rightarrow> nat) \<Rightarrow> ('k, 'v) inverted_index \<Rightarrow> 'k \<Rightarrow> nat \<times> ('k, 'v) inverted_index" where
  "getOrCreateBucket h s key =
     (let i = getShard h s key; shard = shards s ! i in
      case shard key of
        Some b \<Rightarrow> (b, s)
      | None \<Rightarrow>
          (case shard key of
             Some b \<Rightarrow> (b, s)
           | None \<Rightarrow>
               (let b = next_bucket s in
                (b, s\<lparr> shards := (shards s)[i := shard(key \<mapsto> b)],
                       buckets := (buckets s)(b := {}),
                       next_bucket := Suc b \<rparr>))))"

definition hi_insert ::
  "('k \<Rightarrow> nat) \<Rightarrow> ('k, 'v) inverted_index \<Rightarrow> 'k \<Rightarrow> 'v \<Rightarrow> bool \<times> ('k, 'v) inverted_index" where
  "hi_insert h s key val =
     (let (b, s1) = getOrCreateBucket h s key;
          inserted = (val \<notin> buckets s1 b)
      in (inserted, s1\<lparr> buckets := (buckets s1)(b := insert val (buckets s1 b)) \<rparr>))"

definition hi_search :: "('k \<Rightarrow> nat) \<Rightarrow> ('k, 'v) inverted_index \<Rightarrow> 'k \<Rightarrow> 'v set" where
  "hi_search h s key =
     (case (shards s ! getShard h s key) key of
        None \<Rightarrow> {}
      | Some b \<Rightarrow> buckets s b)"

definition hi_remove ::
  "('k \<Rightarrow> nat) \<Rightarrow> ('k, 'v) inverted_index \<Rightarrow> 'k \<Rightarrow> bool \<times> ('k, 'v) inverted_index" where
  "hi_remove h s key =
     (let i = getShard h s key; shard = shards s ! i in
      case shard key of
        None \<Rightarrow> (False, s)
      | Some b \<Rightarrow> (True, s\<lparr> shards := (shards s)[i := shard(key := None)] \<rparr>))"

definition hi_remove_value ::
  "('k \<Rightarrow> nat) \<Rightarrow> ('k, 'v) inverted_index \<Rightarrow> 'k \<Rightarrow> 'v \<Rightarrow> bool \<times> ('k, 'v) inverted_index" where
  "hi_remove_value h s key val =
     (let i = getShard h s key; shard = shards s ! i in
      case shard key of
        None \<Rightarrow> (False, s)
      | Some b \<Rightarrow>
          (let removed = (val \<in> buckets s b);
               s1 = s\<lparr> buckets := (buckets s)(b := buckets s b - {val}) \<rparr>
           in if removed \<and> buckets s1 b = {}
              then (removed, s1\<lparr> shards := (shards s1)[i := shard(key := None)] \<rparr>)
              else (removed, s1)))"

text \<open>The states the public operations can produce from a freshly constructed index.\<close>

inductive hi_reachable :: "('k \<Rightarrow> nat) \<Rightarrow> ('k, 'v) inverted_index \<Rightarrow> bool" for h where
  hi_start: "0 < n \<Longrightarrow> hi_reachable h (hi_init n)"
| hi_step_insert: "hi_reachable h s \<Longrightarrow> hi_reachable h (snd (hi_insert h s key val))"
| hi_step_remove: "hi_reachable h s \<Longrightarrow> hi_reachable h (snd (hi_remove h s key))"
| hi_step_remove_value:
    "hi_reachable h s \<Longrightarrow> hi_reachable h (snd (hi_remove_value h s key val))"

text \<open>Every bucket that a shard map refers to holds at least one value.\<close>

definition buckets_nonempty :: "('k, 'v) inverted_index \<Rightarrow> bool" where
  "buckets_nonempty s =
     (\<forall>i < length (shards s). \<forall>key b. (shards s ! i) key = Some b \<longrightarrow> buckets s b \<noteq> {})"

text \<open>
  Shape of the store: there is at least one shard, every bucket referred to has been
  allocated, and no bucket is referred to from two places.
\<close>

definition hi_wf :: "('k, 'v) inverted_index \<Rightarrow> bool" where
  "hi_wf s =
     (0 < length (shards s) \<and>
      (\<forall>i < length (shards s). \<forall>key b. (shards s ! i) key = Some b \<longrightarrow> b < next_bucket s) \<and>
      (\<forall>i < length (shards s). \<forall>j < length (shards s). \<forall>k1 k2 b.
          (shards s ! i) k1 = Some b \<longrightarrow> (shards s ! j) k2 = Some b \<longrightarrow> i = j \<and> k1 = k2))"

section \<open>Concurrent B+ tree (concurrent\_bplus\_tree.hpp)\<close>

text \<open>
  A \<^verbatim>\<open>Node\<close> of the source has the fields \<^verbatim>\<open>keys\<close>, \<^verbatim>\<open>values\<close>,
  \<^verbatim>\<open>children\<close>, \<^verbatim>\<open>next\<close> and \<^verbatim>\<open>is_leaf\<close>. A node is created by
  \<^verbatim>\<open>make_shared<Node>\<close> and then stored in exactly one \<^verbatim>\<open>children\<close> vector (or
  in \<^verbatim>\<open>root\<close>), so the \<^verbatim>\<open>children\<close> vectors form the tree of the datatype
  below. The \<^verbatim>\<open>next\<close> field is a second reference to a leaf that lives elsewhere
  in the tree; it is modelled as the address of that leaf, every node carrying the
  address it was allocated at (\<open>addr\<close>), and it is followed by looking the address up in
  the current tree. Addresses are handed out by the counter \<open>next_addr\<close>.
  A pointer into the tree held by a running operation (\<^verbatim>\<open>current\<close>,
  \<^verbatim>\<open>head\<close>, \<^verbatim>\<open>start_node\<close>) is the path of child indices from the root,
  and an update through such a pointer replaces the node at that path.
  An access outside a vector is undefined behaviour in the source; the model returns
  \<open>None\<close> there. Node locks and the tree latch are not modelled: every operation runs
  alone, so the root validation after taking the root lock always succeeds.
  The template parameter \<^verbatim>\<open>ORDER\<close> is the argument \<open>M\<close>.
\<close>

datatype ('k, 'v) node =
  Node (keys: "'k list") (vals: "'v set list") (children: "('k, 'v) node list")
       (nxt: "nat option") (is_leaf: bool) (addr: nat)

record ('k, 'v) btree =
  root :: "('k, 'v) node"
  next_addr :: nat

definition bt_init :: "('k, 'v) btree" where
  "bt_init = \<lparr> root = Node [] [] [] None True 0, next_addr = 1 \<rparr>"

definition MAX_KEYS_LEAF :: "nat \<Rightarrow> nat" where
  "MAX_KEYS_LEAF M = M"

text \<open>
  \<^verbatim>\<open>MAX_KEYS_INTERNAL\<close> is \<^verbatim>\<open>ORDER - 1\<close> computed on \<^verbatim>\<open>size_t\<close> (64 bits): for
  \<^verbatim>\<open>ORDER = 0\<close> the subtraction wraps around.
\<close>

definition MAX_KEYS_INTERNAL :: "nat \<Rightarrow> nat" where
  "MAX_KEYS_INTERNAL M = (if M = 0 then 2 ^ 64 - 1 else M - 1)"

text \<open>
  \<^verbatim>\<open>std::upper_bound\<close> and \<^verbatim>\<open>std::lower_bound\<close> on a sorted vector: the index
  of the first element greater than the key, and of the first element not less than it.
\<close>

definition upper_bound :: "('k::linorder) list \<Rightarrow> 'k \<Rightarrow> nat" where
  "upper_bound ks key = length (takeWhile (\<lambda>x. \<not> key < x) ks)"

definition lower_bound :: "('k::linorder) list \<Rightarrow> 'k \<Rightarrow> nat" where
  "lower_bound ks key = length (takeWhile (\<lambda>x. x < key) ks)"

text \<open>\<^verbatim>\<open>v.insert(v.begin() + pos, x)\<close> on a vector.\<close>

definition vector_insert :: "'a list \<Rightarrow> nat \<Rightarrow> 'a \<Rightarrow> 'a list" where
  "vector_insert xs pos x = take pos xs @ x # drop pos xs"

definition is_safe_for_insert :: "nat \<Rightarrow> ('k, 'v) node \<Rightarrow> bool" where
  "is_safe_for_insert M n =
     (if is_leaf n then length (keys n) < MAX_KEYS_LEAF M
      else length (keys n) < MAX_KEYS_INTERNAL M)"

lemma size_child: "i < length (children n) \<Longrightarrow> size (children n ! i) < size n"
proof (cases n)
  case (Node ks vs cs nx lf a)
  assume "i < length (children n)"
  then have "cs ! i \<in> set cs" using Node by simp
  then have "size (cs ! i) \<le> size_list size cs" by (rule size_list_estimation') simp
  then show ?thesis using Node by simp
qed

lemma size_child_double:
  "i < length (children n) \<Longrightarrow> Suc (2 * size (children n ! i)) < 2 * size n"
  using size_child[of i n] by simp

text \<open>The descent loop \<^verbatim>\<open>while (!current->is_leaf)\<close>, returning the leaf it stops at.\<close>

function find_leaf :: "('k::linorder, 'v) node \<Rightarrow> 'k \<Rightarrow> ('k, 'v) node option" where
  "find_leaf current key =
     (if is_leaf current then Some current
      else (let idx = upper_bound (keys current) key in
            if idx < length (children current) then find_leaf (children current ! idx) key
            else None))"
  by pat_completeness auto
termination
  by (relation "measure (\<lambda>(n, k). size n)") (auto simp: size_child)

text \<open>The same loop, returning the position of the leaf as a path from the start node.\<close>

function descend :: "('k::linorder, 'v) node \<Rightarrow> 'k \<Rightarrow> nat list option" where
  "descend current key =
     (if is_leaf current then Some []
      else (let idx = upper_bound (keys current) key in
            if idx < length (children current)
            then map_option ((#) idx) (descend (children current ! idx) key)
            else None))"
  by pat_completeness auto
termination
  by (relation "measure (\<lambda>(n, k). size n)") (auto simp: size_child)

fun node_at :: "('k, 'v) node \<Rightarrow> nat list \<Rightarrow> ('k, 'v) node option" where
  "node_at n [] = Some n"
| "node_at n (i # p) = (if i < length (children n) then node_at (children n ! i) p else None)"

fun replace_at :: "('k, 'v) node \<Rightarrow> nat list \<Rightarrow> ('k, 'v) node \<Rightarrow> ('k, 'v) node" where
  "replace_at n [] m = m"
| "replace_at n (i # p) m =
     Node (keys n) (vals n) ((children n)[i := replace_at (children n ! i) p m])
          (nxt n) (is_leaf n) (addr n)"

definition search :: "('k::linorder, 'v) btree \<Rightarrow> 'k \<Rightarrow> 'v set option" where
  "search t key =
     (case find_leaf (root t) key of
        None \<Rightarrow> None
      | Some current \<Rightarrow>
          (let idx = lower_bound (keys current) key in
           if idx = length (keys current) \<or> keys current ! idx \<noteq> key then Some {}
           else if idx < length (vals current) then Some (vals current ! idx)
           else None))"

text \<open>
  The code that puts a pair into a leaf (the same lines in \<^verbatim>\<open>optimistic_insert\<close> and
  at the start of \<^verbatim>\<open>insert_into_leaf\<close>).
\<close>

definition put_in_leaf :: "('k::linorder, 'v) node \<Rightarrow> 'k \<Rightarrow> 'v \<Rightarrow> ('k, 'v) node option" where
  "put_in_leaf leaf key val =
     (let pos = lower_bound (keys leaf) key in
      if pos < length (keys leaf) \<and> keys leaf ! pos = key then
        (if pos < length (vals leaf)
         then Some (Node (keys leaf) ((vals leaf)[pos := insert val (vals leaf ! pos)])
                         (children leaf) (nxt leaf) (is_leaf leaf) (addr leaf))
         else None)
      else
        (if pos \<le> length (vals leaf)
         then Some (Node (vector_insert (keys leaf) pos key)
                         (vector_insert (vals leaf) pos {val})
                         (children leaf) (nxt leaf) (is_leaf leaf) (addr leaf))
         else None))"

definition optimistic_insert ::
  "nat \<Rightarrow> ('k::linorder, 'v) btree \<Rightarrow> 'k \<Rightarrow> 'v \<Rightarrow> (bool \<times> ('k, 'v) btree) option" where
  "optimistic_insert M t key val =
     (case descend (root t) key of
        None \<Rightarrow> None
      | Some p \<Rightarrow>
          (case node_at (root t) p of
             None \<Rightarrow> None
           | Some current \<Rightarrow>
               if \<not> is_safe_for_insert M current then Some (False, t)
               else (case put_in_leaf current key val of
                       None \<Rightarrow> None
                     | Some leaf' \<Rightarrow> Some (True, t\<lparr> root := replace_at (root t) p leaf' \<rparr>))))"

text \<open>
  The split functions take the address for the sibling they allocate and return the
  shrunk node, the sibling and the promoted key.
\<close>

definition split_leaf ::
  "('k, 'v) node \<Rightarrow> nat \<Rightarrow> (('k, 'v) node \<times> ('k, 'v) node \<times> 'k) option" where
  "split_leaf leaf a =
     (let total = length (keys leaf);
          mid = total div 2;
          sibling = Node (drop mid (keys leaf)) (drop mid (vals leaf)) [] (nxt leaf) True a;
          leaf' = Node (take mid (keys leaf)) (take mid (vals leaf)) (children leaf)
                       (Some a) (is_leaf leaf) (addr leaf)
      in if mid \<le> length (vals leaf) \<and> keys sibling \<noteq> []
         then Some (leaf', sibling, hd (keys sibling))
         else None)"

definition split_internal ::
  "('k, 'v) node \<Rightarrow> nat \<Rightarrow> (('k, 'v) node \<times> ('k, 'v) node \<times> 'k) option" where
  "split_internal internal a =
     (let total = length (keys internal);
          mid = total div 2
      in if mid < total \<and> mid + 1 \<le> length (children internal) then
           (let promoted_key = keys internal ! mid;
                sibling = Node (drop (mid + 1) (keys internal)) []
                               (drop (mid + 1) (children internal)) None False a;
                internal' = Node (take mid (keys internal)) (vals internal)
                                 (take (mid + 1) (children internal))
                                 (nxt internal) (is_leaf internal) (addr internal)
            in Some (internal', sibling, promoted_key))
         else None)"

definition insert_into_leaf ::
  "nat \<Rightarrow> ('k::linorder, 'v) node \<Rightarrow> 'k \<Rightarrow> 'v \<Rightarrow> nat
     \<Rightarrow> (('k, 'v) node \<times> (('k, 'v) node \<times> 'k) option \<times> nat) option" where
  "insert_into_leaf M leaf key val a =
     (case put_in_leaf leaf key val of
        None \<Rightarrow> None
      | Some leaf1 \<Rightarrow>
          if length (keys leaf1) > MAX_KEYS_LEAF M then
            (case split_leaf leaf1 a of
               None \<Rightarrow> None
             | Some (leaf', sibling, promoted_key) \<Rightarrow> Some (leaf', Some (sibling, promoted_key), Suc a))
          else Some (leaf1, None, a))"

text \<open>
  \<^verbatim>\<open>insert_recursive\<close> and \<^verbatim>\<open>insert_into_internal\<close> call each other. They
  return the node after the insertion, the pair \<^verbatim>\<open>{sibling, promoted_key}\<close> (or
  \<open>None\<close> for \<^verbatim>\<open>{nullptr, K{}}\<close>) and the allocation counter.
\<close>

function insert_recursive ::
  "nat \<Rightarrow> ('k::linorder, 'v) node \<Rightarrow> 'k \<Rightarrow> 'v \<Rightarrow> nat
     \<Rightarrow> (('k, 'v) node \<times> (('k, 'v) node \<times> 'k) option \<times> nat) option"
and insert_into_internal ::
  "nat \<Rightarrow> ('k::linorder, 'v) node \<Rightarrow> 'k \<Rightarrow> 'v \<Rightarrow> nat
     \<Rightarrow> (('k, 'v) node \<times> (('k, 'v) node \<times> 'k) option \<times> nat) option" where
  "insert_recursive M node key val a =
     (if is_leaf node then insert_into_leaf M node key val a
      else insert_into_internal M node key val a)"
| "insert_into_internal M internal key val a =
     (let pos = upper_bound (keys internal) key in
      if pos < length (children internal) then
        (case insert_recursive M (children internal ! pos) key val a of
           None \<Rightarrow> None
         | Some (child', split, a') \<Rightarrow>
             (let internal1 =
                (case split of
                   None \<Rightarrow>
                     Node (keys internal) (vals internal) ((children internal)[pos := child'])
                          (nxt internal) (is_leaf internal) (addr internal)
                 | Some (child_sibling, promoted_key) \<Rightarrow>
                     Node (vector_insert (keys internal) pos promoted_key)
                          (vals internal)
                          (vector_insert ((children internal)[pos := child']) (pos + 1)
                             child_sibling)
                          (nxt internal) (is_leaf internal) (addr internal))
              in if length (keys internal1) > MAX_KEYS_INTERNAL M then
                   (case split_internal internal1 a' of
                      None \<Rightarrow> None
                    | Some (internal', sibling, promoted_key) \<Rightarrow>
                        Some (internal', Some (sibling, promoted_key), Suc a'))
                 else Some (internal1, None, a')))
      else None)"
  by pat_completeness auto
termination
  by (relation "measure (\<lambda>x. case x of
         Inl (M, n, k, v, a) \<Rightarrow> 2 * size n + 1
       | Inr (M, n, k, v, a) \<Rightarrow> 2 * size n)")
     (auto simp: size_child_double)

text \<open>
  The crabbing loop of \<^verbatim>\<open>pessimistic_insert\<close>: it walks from \<^verbatim>\<open>current\<close>
  (at path \<open>path\<close>) to the leaf and returns the last value of \<^verbatim>\<open>head\<close>, the
  deepest node on the way that was safe for insert (\<open>None\<close> for \<^verbatim>\<open>nullptr\<close>).
\<close>

function crab ::
  "nat \<Rightarrow> ('k::linorder, 'v) node \<Rightarrow> 'k \<Rightarrow> nat list \<Rightarrow> nat list option
     \<Rightarrow> nat list option option" where
  "crab M current key path head =
     (if is_leaf current then Some head
      else (let idx = upper_bound (keys current) key in
            if idx < length (children current) then
              (let child = children current ! idx;
                   head' = (if is_safe_for_insert M child then Some (path @ [idx]) else head)
               in crab M child key (path @ [idx]) head')
            else None))"
  by pat_completeness auto
termination
  by (relation "measure (\<lambda>(M, n, k, p, h). size n)") (auto simp: size_child)

definition pessimistic_insert ::
  "nat \<Rightarrow> ('k::linorder, 'v) btree \<Rightarrow> 'k \<Rightarrow> 'v \<Rightarrow> ('k, 'v) btree option" where
  "pessimistic_insert M t key val =
     (let current = root t;
          head = (if is_safe_for_insert M current then Some [] else None)
      in case crab M current key [] head of
           None \<Rightarrow> None
         | Some head' \<Rightarrow>
             (let start_path = (case head' of Some p \<Rightarrow> p | None \<Rightarrow> []) in
              case node_at (root t) start_path of
                None \<Rightarrow> None
              | Some start_node \<Rightarrow>
                  (case insert_recursive M start_node key val (next_addr t) of
                     None \<Rightarrow> None
                   | Some (start', None, a) \<Rightarrow>
                       Some (t\<lparr> root := replace_at (root t) start_path start', next_addr := a \<rparr>)
                   | Some (start', Some (sibling, promoted_key), a) \<Rightarrow>
                       if start_path = [] then
                         Some (t\<lparr> root := Node [promoted_key] [] [start', sibling] None False a,
                                 next_addr := Suc a \<rparr>)
                       else
                         (let pos = upper_bound (keys start') key in
                          if pos + 1 \<le> length (children start') then
                            Some (t\<lparr> root := replace_at (root t) start_path
                                      (Node (vector_insert (keys start') pos promoted_key)
                                            (vals start')
                                            (vector_insert (children start') (pos + 1) sibling)
                                            (nxt start') (is_leaf start') (addr start')),
                                    next_addr := a \<rparr>)
                          else None))))"

definition bt_insert ::
  "nat \<Rightarrow> ('k::linorder, 'v) btree \<Rightarrow> 'k \<Rightarrow> 'v \<Rightarrow> (bool \<times> ('k, 'v) btree) option" where
  "bt_insert M t key val =
     (case optimistic_insert M t key val of
        None \<Rightarrow> None
      | Some (True, t') \<Rightarrow> Some (True, t')
      | Some (False, t') \<Rightarrow>
          (case pessimistic_insert M t' key val of
             None \<Rightarrow> None
           | Some t'' \<Rightarrow> Some (True, t'')))"

text \<open>
  The result of \<^verbatim>\<open>range_search\<close> is a \<^verbatim>\<open>std::map\<close>: a list of pairs kept in
  ascending key order, into which \<^verbatim>\<open>emplace\<close> puts a pair unless the key is there.
\<close>

fun map_emplace :: "('k::linorder \<times> 'a) list \<Rightarrow> 'k \<Rightarrow> 'a \<Rightarrow> ('k \<times> 'a) list" where
  "map_emplace [] k v = [(k, v)]"
| "map_emplace ((k', v') # m) k v =
     (if k < k' then (k, v) # (k', v') # m
      else if k = k' then (k', v') # m
      else (k', v') # map_emplace m k v)"

text \<open>All nodes of a tree, and the node stored at an address.\<close>

fun nodes_of :: "('k, 'v) node \<Rightarrow> ('k, 'v) node list" where
  "nodes_of (Node ks vs cs nx lf a) = Node ks vs cs nx lf a # concat (map nodes_of cs)"

definition lookup_node :: "('k, 'v) node \<Rightarrow> nat \<Rightarrow> ('k, 'v) node option" where
  "lookup_node rt a = find (\<lambda>n. addr n = a) (nodes_of rt)"

text \<open>
  The \<^verbatim>\<open>for\<close> loop over the keys of one leaf; the flag returned is \<^verbatim>\<open>done\<close>.
\<close>

function scan_keys ::
  "('k::linorder, 'v) node \<Rightarrow> nat \<Rightarrow> 'k \<Rightarrow> ('k \<times> 'v set) list
     \<Rightarrow> (('k \<times> 'v set) list \<times> bool) option" where
  "scan_keys current idx end_key result =
     (if idx < length (keys current) then
        (if keys current ! idx \<ge> end_key then Some (result, True)
         else if idx < length (vals current)
              then scan_keys current (Suc idx) end_key
                     (map_emplace result (keys current ! idx) (vals current ! idx))
              else None)
      else Some (result, False))"
  by pat_completeness auto
termination
  by (relation "measure (\<lambda>(n, i, e, r). length (keys n) - i)") auto

text \<open>
  The loop \<^verbatim>\<open>while (!done)\<close> along the leaf chain. Nothing in the code bounds the
  number of leaves it visits, so non-termination is the value \<open>None\<close>.
\<close>

partial_function (option) scan_leaves ::
  "('k::linorder, 'v) node \<Rightarrow> ('k, 'v) node \<Rightarrow> 'k \<Rightarrow> 'k \<Rightarrow> ('k \<times> 'v set) list
     \<Rightarrow> ('k \<times> 'v set) list option" where
  "scan_leaves rt current start_key end_key result =
     (case scan_keys current (lower_bound (keys current) start_key) end_key result of
        None \<Rightarrow> None
      | Some (result', done) \<Rightarrow>
          if done then Some result'
          else (case nxt current of
                  None \<Rightarrow> Some result'
                | Some a \<Rightarrow>
                    (case lookup_node rt a of
                       None \<Rightarrow> None
                     | Some next_node \<Rightarrow> scan_leaves rt next_node start_key end_key result')))"

declare scan_leaves.simps [code]

definition range_search ::
  "('k::linorder, 'v) btree \<Rightarrow> 'k \<Rightarrow> 'k \<Rightarrow> ('k \<times> 'v set) list option" where
  "range_search t start_key end_key =
     (if start_key \<ge> end_key then Some []
      else (case find_leaf (root t) start_key of
              None \<Rightarrow> None
            | Some current \<Rightarrow> scan_leaves (root t) current start_key end_key []))"

text \<open>
  A client loop that inserts a list of pairs one after the other, as the load phase of
  \<^verbatim>\<open>test.cpp\<close> does.
\<close>

fun bt_insert_all ::
  "nat \<Rightarrow> ('k::linorder, 'v) btree \<Rightarrow> ('k \<times> 'v) list \<Rightarrow> ('k, 'v) btree option" where
  "bt_insert_all M t [] = Some t"
| "bt_insert_all M t ((key, val) # ops) =
     (case bt_insert M t key val of
        None \<Rightarrow> None
      | Some (b, t') \<Rightarrow> bt_insert_all M t' ops)"

text \<open>The trees that a sequence of \<open>insert\<close> calls builds from the empty tree.\<close>

inductive bt_reachable :: "nat \<Rightarrow> ('k::linorder, 'v) btree \<Rightarrow> bool" for M where
  bt_start: "bt_reachable M bt_init"
| bt_step: "bt_reachable M t \<Longrightarrow> bt_insert M t key val = Some (b, t') \<Longrightarrow> bt_reachable M t'"

subsection \<open>Contents and invariant of a tree\<close>

text \<open>The leaves of a tree from left to right, and the pairs they hold in that order.\<close>

fun leaves :: "('k, 'v) node \<Rightarrow> ('k, 'v) node list" where
  "leaves (Node ks vs cs nx lf a) =
     (if lf then [Node ks vs cs nx lf a] else concat (map leaves cs))"

definition leaf_entries :: "('k, 'v) node \<Rightarrow> ('k \<times> 'v set) list" where
  "leaf_entries l = zip (keys l) (vals l)"

definition entries :: "('k, 'v) node \<Rightarrow> ('k \<times> 'v set) list" where
  "entries n = concat (map leaf_entries (leaves n))"

text \<open>The keys stored in the leaves of a tree, and all keys including the separators.\<close>

fun leaf_keys :: "('k, 'v) node \<Rightarrow> 'k set" where
  "leaf_keys (Node ks vs cs nx lf a) = (if lf then set ks else (\<Union>c \<in> set cs. leaf_keys c))"

fun all_keys :: "('k, 'v) node \<Rightarrow> 'k set" where
  "all_keys (Node ks vs cs nx lf a) = set ks \<union> (if lf then {} else (\<Union>c \<in> set cs. all_keys c))"

text \<open>
  Separator \<open>i\<close> of an internal node lies above the keys of child \<open>i\<close> (strictly above
  those in its leaves) and not above the keys of child \<open>i + 1\<close>.
\<close>

definition seps_ok :: "('k::linorder) list \<Rightarrow> ('k, 'v) node list \<Rightarrow> bool" where
  "seps_ok ks cs =
     (\<forall>i < length ks.
        (\<forall>k \<in> leaf_keys (cs ! i). k < ks ! i) \<and>
        (\<forall>k \<in> all_keys (cs ! i). k \<le> ks ! i) \<and>
        (\<forall>k \<in> all_keys (cs ! Suc i). ks ! i \<le> k))"

fun bt_inv :: "nat \<Rightarrow> ('k::linorder, 'v) node \<Rightarrow> bool" where
  "bt_inv M (Node ks vs cs nx lf a) =
     (if lf then sorted_wrt (<) ks \<and> length vs = length ks \<and> length ks \<le> MAX_KEYS_LEAF M \<and> cs = []
      else sorted ks \<and> length cs = Suc (length ks) \<and> length ks \<le> MAX_KEYS_INTERNAL M \<and>
           (\<forall>c \<in> set cs. bt_inv M c) \<and> seps_ok ks cs)"

text \<open>
  The leaf chain: every leaf points to the leaf after it in the list, the last one to
  \<open>fin\<close>.
\<close>

fun chain_ok :: "('k, 'v) node list \<Rightarrow> nat option \<Rightarrow> bool" where
  "chain_ok [] fin = True"
| "chain_ok [l] fin = (nxt l = fin)"
| "chain_ok (l # l' # ls) fin = (nxt l = Some (addr l') \<and> chain_ok (l' # ls) fin)"

definition addrs :: "('k, 'v) node \<Rightarrow> nat list" where
  "addrs n = map addr (nodes_of n)"

definition bt_wf :: "nat \<Rightarrow> ('k::linorder, 'v) btree \<Rightarrow> bool" where
  "bt_wf M t =
     (bt_inv M (root t) \<and> chain_ok (leaves (root t)) None \<and>
      distinct (addrs (root t)) \<and> (\<forall>a \<in> set (addrs (root t)). a < next_addr t))"

text \<open>The effect of one insertion on the ordered list of pairs.\<close>

fun upsert :: "('k::linorder \<times> 'v set) list \<Rightarrow> 'k \<Rightarrow> 'v \<Rightarrow> ('k \<times> 'v set) list" where
  "upsert [] k v = [(k, {v})]"
| "upsert ((k', s) # xs) k v =
     (if k < k' then (k, {v}) # (k', s) # xs
      else if k = k' then (k', insert v s) # xs
      else (k', s) # upsert xs k v)"

text \<open>
  Two steps of \<^verbatim>\<open>insert_into_internal\<close>, named for the proofs: the node after the
  result of the recursive call has been put in, and the overflow check that follows.
\<close>

definition graft ::
  "('k, 'v) node \<Rightarrow> nat \<Rightarrow> ('k, 'v) node \<Rightarrow> (('k, 'v) node \<times> 'k) option \<Rightarrow> ('k, 'v) node" where
  "graft internal pos child' split =
     (case split of
        None \<Rightarrow>
          Node (keys internal) (vals internal) ((children internal)[pos := child'])
               (nxt internal) (is_leaf internal) (addr internal)
      | Some (child_sibling, promoted_key) \<Rightarrow>
          Node (vector_insert (keys internal) pos promoted_key)
               (vals internal)
               (vector_insert ((children internal)[pos := child']) (pos + 1) child_sibling)
               (nxt internal) (is_leaf internal) (addr internal))"

definition finish_internal ::
  "nat \<Rightarrow> ('k, 'v) node \<Rightarrow> nat
     \<Rightarrow> (('k, 'v) node \<times> (('k, 'v) node \<times> 'k) option \<times> nat) option" where
  "finish_internal M internal1 a' =
     (if length (keys internal1) > MAX_KEYS_INTERNAL M then
        (case split_internal internal1 a' of
           None \<Rightarrow> None
         | Some (internal', sibling, promoted_key) \<Rightarrow>
             Some (internal', Some (sibling, promoted_key), Suc a'))
      else Some (internal1, None, a'))"

text \<open>
  What \<^verbatim>\<open>insert_recursive\<close> guarantees about the node \<open>n'\<close> and the optional split
  \<open>sp\<close> it returns for a node \<open>n\<close> that satisfies the invariant.
\<close>

definition ins_post ::
  "nat \<Rightarrow> ('k::linorder, 'v) node \<Rightarrow> 'k \<Rightarrow> ('k, 'v) node \<Rightarrow> (('k, 'v) node \<times> 'k) option \<Rightarrow> bool"
  where
  "ins_post M n key n' sp =
     (bt_inv M n' \<and> is_leaf n' = is_leaf n \<and> addr n' = addr n \<and>
      (is_safe_for_insert M n \<longrightarrow> sp = None) \<and>
      (case sp of
         None \<Rightarrow>
           all_keys n' \<subseteq> insert key (all_keys n) \<and> leaf_keys n' \<subseteq> insert key (leaf_keys n)
       | Some (s, pk) \<Rightarrow>
           bt_inv M s \<and> is_leaf s = is_leaf n \<and>
           all_keys n' \<union> all_keys s \<subseteq> insert key (all_keys n) \<and>
           leaf_keys n' \<union> leaf_keys s \<subseteq> insert key (leaf_keys n) \<and>
           (\<forall>k \<in> leaf_keys n'. k < pk) \<and> (\<forall>k \<in> all_keys n'. k \<le> pk) \<and>
           (\<forall>k \<in> all_keys s. pk \<le> k) \<and> pk \<in> insert key (all_keys n)))"

text \<open>
  Paths that follow the descent for a key, and the insertion that starts the recursion at
  the root and splits the root when a sibling comes back; the optimistic and the
  pessimistic insertion are compared with it.
\<close>

fun on_path :: "('k::linorder, 'v) node \<Rightarrow> 'k \<Rightarrow> nat list \<Rightarrow> bool" where
  "on_path n key [] = True"
| "on_path n key (i # q) =
     (\<not> is_leaf n \<and> i = upper_bound (keys n) key \<and> i < length (children n) \<and>
      on_path (children n ! i) key q)"

definition insert_from_root ::
  "nat \<Rightarrow> ('k::linorder, 'v) btree \<Rightarrow> 'k \<Rightarrow> 'v \<Rightarrow> ('k, 'v) btree option" where
  "insert_from_root M t key val =
     (case insert_recursive M (root t) key val (next_addr t) of
        None \<Rightarrow> None
      | Some (r', None, a) \<Rightarrow> Some (t\<lparr> root := r', next_addr := a \<rparr>)
      | Some (r', Some (s, pk), a) \<Rightarrow>
          Some (t\<lparr> root := Node [pk] [] [r', s] None False a, next_addr := Suc a \<rparr>))"

section \<open>The lock-free skip list (\<^verbatim>\<open>lock_free_skip_list.hpp\<close>)\<close>

text \<open>
  The nodes live in an explicit heap: a list of nodes, the address of a node being its
  index. A \<^verbatim>\<open>Node*\<close> carries its mark in bit 0, so a pointer is a pair of an address
  (\<open>None\<close> for \<^verbatim>\<open>nullptr\<close>) and the mark. The model runs one operation after the other;
  \<^verbatim>\<open>compare_exchange_weak\<close> is taken without spurious failures, so it fails only when the
  slot does not hold the expected pointer. Reading a slot outside a node, or through a null
  or dangling pointer, has no defined behaviour in C++ and is the result \<open>None\<close> here.
\<close>

definition MAX_LEVEL :: nat where
  "MAX_LEVEL = 16"

type_synonym ptr = "nat option \<times> bool"

definition is_marked :: "ptr \<Rightarrow> bool" where
  "is_marked p = snd p"

definition get_marked_ref :: "ptr \<Rightarrow> ptr" where
  "get_marked_ref p = (fst p, True)"

definition get_unmarked_ref :: "ptr \<Rightarrow> ptr" where
  "get_unmarked_ref p = (fst p, False)"

record ('k, 'v) sl_node =
  sl_key :: 'k
  sl_values :: "'v set"
  sl_level :: nat
  sl_next :: "ptr list"

record ('k, 'v) skiplist =
  heap :: "('k, 'v) sl_node list"
  sl_head :: nat
  sl_tail :: nat

text \<open>Both overloads of \<^verbatim>\<open>create_node\<close>: the value set is empty or holds the one value.\<close>

definition create_node :: "'k \<Rightarrow> 'v set \<Rightarrow> nat \<Rightarrow> ('k, 'v) sl_node" where
  "create_node k vs lvl =
     \<lparr> sl_key = k, sl_values = vs, sl_level = lvl, sl_next = replicate lvl (None, False) \<rparr>"

definition alloc :: "('k, 'v) skiplist \<Rightarrow> ('k, 'v) sl_node \<Rightarrow> nat \<times> ('k, 'v) skiplist" where
  "alloc s n = (length (heap s), s\<lparr> heap := heap s @ [n] \<rparr>)"

definition valid :: "('k, 'v) skiplist \<Rightarrow> nat \<Rightarrow> nat \<Rightarrow> bool" where
  "valid s a lv \<longleftrightarrow> a < length (heap s) \<and> lv < length (sl_next (heap s ! a))"

definition nx :: "('k, 'v) skiplist \<Rightarrow> nat \<Rightarrow> nat \<Rightarrow> ptr" where
  "nx s a lv = sl_next (heap s ! a) ! lv"

definition load :: "('k, 'v) skiplist \<Rightarrow> nat \<Rightarrow> nat \<Rightarrow> ptr option" where
  "load s a lv = (if valid s a lv then Some (nx s a lv) else None)"

text \<open>
  \<^verbatim>\<open>store\<close> is only used on slots of the node that \<^verbatim>\<open>insert\<close> has just created, below
  its level.
\<close>

definition store :: "('k, 'v) skiplist \<Rightarrow> nat \<Rightarrow> nat \<Rightarrow> ptr \<Rightarrow> ('k, 'v) skiplist" where
  "store s a lv p =
     s\<lparr> heap := (heap s)[a := (heap s ! a)\<lparr> sl_next := (sl_next (heap s ! a))[lv := p] \<rparr>] \<rparr>"

definition cas ::
  "('k, 'v) skiplist \<Rightarrow> nat \<Rightarrow> nat \<Rightarrow> ptr \<Rightarrow> ptr \<Rightarrow> (bool \<times> ('k, 'v) skiplist) option" where
  "cas s a lv expected desired =
     (case load s a lv of
        None \<Rightarrow> None
      | Some p \<Rightarrow> if p = expected then Some (True, store s a lv desired) else Some (False, s))"

definition key_of :: "('k, 'v) skiplist \<Rightarrow> nat \<Rightarrow> 'k" where
  "key_of s a = sl_key (heap s ! a)"

definition values_of :: "('k, 'v) skiplist \<Rightarrow> nat \<Rightarrow> 'v set" where
  "values_of s a = sl_values (heap s ! a)"

definition level_of :: "('k, 'v) skiplist \<Rightarrow> nat \<Rightarrow> nat" where
  "level_of s a = sl_level (heap s ! a)"

definition set_values :: "('k, 'v) skiplist \<Rightarrow> nat \<Rightarrow> 'v set \<Rightarrow> ('k, 'v) skiplist" where
  "set_values s a vs = s\<lparr> heap := (heap s)[a := (heap s ! a)\<lparr> sl_values := vs \<rparr>] \<rparr>"

text \<open>
  The constructor: head at address 0, tail at address 1, every level of the head pointing
  to the tail. \<open>k0\<close> is the default-constructed key that both sentinels hold.
\<close>

definition sl_init :: "'k \<Rightarrow> ('k, 'v) skiplist" where
  "sl_init k0 =
     \<lparr> heap = [(create_node k0 {} MAX_LEVEL)\<lparr> sl_next := replicate MAX_LEVEL (Some 1, False) \<rparr>,
               create_node k0 {} MAX_LEVEL],
       sl_head = 0, sl_tail = 1 \<rparr>"

text \<open>
  \<^verbatim>\<open>random_level\<close>: the generator is the sequence \<open>rng\<close> of coin flips and a position in
  it; a flip is consumed before the level is compared with \<^verbatim>\<open>MAX_LEVEL\<close>.
\<close>

function random_level_loop :: "(nat \<Rightarrow> bool) \<Rightarrow> nat \<Rightarrow> nat \<Rightarrow> nat \<times> nat" where
  "random_level_loop rng pos level =
     (if rng pos \<and> level < MAX_LEVEL then random_level_loop rng (Suc pos) (Suc level)
      else (level, Suc pos))"
  by pat_completeness auto
termination
  by (relation "measure (\<lambda>(rng, pos, level). MAX_LEVEL - level)") auto

definition random_level :: "(nat \<Rightarrow> bool) \<Rightarrow> nat \<Rightarrow> nat \<times> nat" where
  "random_level rng pos = random_level_loop rng pos 1"

subsection \<open>\<^verbatim>\<open>find\<close>\<close>

text \<open>
  \<open>succ_of\<close> is the expression \<^verbatim>\<open>(curr == tail) ? tail : curr->next[level].load()\<close>.
  Every assignment to \<^verbatim>\<open>curr\<close> is followed at once by this expression, which dereferences
  \<^verbatim>\<open>curr\<close>; so \<^verbatim>\<open>curr\<close> is kept as an address, and a null pointer assigned to it is
  \<open>None\<close> already at the assignment.
\<close>

definition succ_of :: "('k, 'v) skiplist \<Rightarrow> nat \<Rightarrow> nat \<Rightarrow> ptr option" where
  "succ_of s cur level = (if cur = sl_tail s then Some (Some (sl_tail s), False) else load s cur level)"

text \<open>
  The loop \<^verbatim>\<open>while (is_marked(succ))\<close>. The second component of the result is \<open>None\<close>
  when the compare-and-swap failed and the traversal has to restart, and the final
  \<^verbatim>\<open>curr\<close> and \<^verbatim>\<open>succ\<close> otherwise.
\<close>

partial_function (option) skip_marked ::
  "('k, 'v) skiplist \<Rightarrow> nat \<Rightarrow> nat \<Rightarrow> nat \<Rightarrow> ptr
     \<Rightarrow> (('k, 'v) skiplist \<times> (nat \<times> ptr) option) option" where
  "skip_marked s level pred cur succ =
     (if is_marked succ then
        (case cas s pred level (Some cur, False) (get_unmarked_ref succ) of
           None \<Rightarrow> None
         | Some (ok, s1) \<Rightarrow>
             if \<not> ok then Some (s1, None)
             else (case load s1 pred level of
                     None \<Rightarrow> None
                   | Some p \<Rightarrow>
                       (case fst (get_unmarked_ref p) of
                          None \<Rightarrow> None
                        | Some cur1 \<Rightarrow>
                            (case succ_of s1 cur1 level of
                               None \<Rightarrow> None
                             | Some succ1 \<Rightarrow> skip_marked s1 level pred cur1 succ1))))
      else Some (s, Some (cur, succ)))"

declare skip_marked.simps [code]

text \<open>
  The inner \<^verbatim>\<open>while (true)\<close> loop of one level. The result is \<open>None\<close> in the second
  component for a restart, and the final \<^verbatim>\<open>pred\<close> and \<^verbatim>\<open>curr\<close> of the level otherwise.
\<close>

partial_function (option) walk_level ::
  "('k::linorder, 'v) skiplist \<Rightarrow> 'k \<Rightarrow> nat \<Rightarrow> nat \<Rightarrow> nat
     \<Rightarrow> (('k, 'v) skiplist \<times> (nat \<times> nat) option) option" where
  "walk_level s key level pred cur =
     (case succ_of s cur level of
        None \<Rightarrow> None
      | Some succ \<Rightarrow>
          (case skip_marked s level pred cur succ of
             None \<Rightarrow> None
           | Some (s1, r) \<Rightarrow>
               (case r of
                  None \<Rightarrow> Some (s1, None)
                | Some (cur1, succ1) \<Rightarrow>
                    if cur1 \<noteq> sl_tail s1 \<and> key_of s1 cur1 < key then
                      (case fst (get_unmarked_ref succ1) of
                         None \<Rightarrow> None
                       | Some cur2 \<Rightarrow> walk_level s1 key level cur1 cur2)
                    else Some (s1, Some (pred, cur1)))))"

declare walk_level.simps [code]

text \<open>
  The \<^verbatim>\<open>for\<close> loop over the levels, from \<open>n - 1\<close> down to 0. The arrays \<^verbatim>\<open>preds\<close> and
  \<^verbatim>\<open>succs\<close> are returned as lists, entry \<open>i\<close> being what the loop stored for level \<open>i\<close>
  (both are returned also to the callers that pass \<^verbatim>\<open>nullptr\<close> for \<^verbatim>\<open>preds\<close> and ignore it).
\<close>

fun find_levels ::
  "('k::linorder, 'v) skiplist \<Rightarrow> 'k \<Rightarrow> nat \<Rightarrow> nat
     \<Rightarrow> (('k, 'v) skiplist \<times> (nat list \<times> nat list) option) option" where
  "find_levels s key pred 0 = Some (s, Some ([], []))"
| "find_levels s key pred (Suc level) =
     (case load s pred level of
        None \<Rightarrow> None
      | Some p \<Rightarrow>
          (case fst (get_unmarked_ref p) of
             None \<Rightarrow> None
           | Some cur \<Rightarrow>
               (case walk_level s key level pred cur of
                  None \<Rightarrow> None
                | Some (s1, r) \<Rightarrow>
                    (case r of
                       None \<Rightarrow> Some (s1, None)
                     | Some (pred1, cur1) \<Rightarrow>
                         (case find_levels s1 key pred1 level of
                            None \<Rightarrow> None
                          | Some (s2, r2) \<Rightarrow>
                              (case r2 of
                                 None \<Rightarrow> Some (s2, None)
                               | Some (preds, succs) \<Rightarrow>
                                   Some (s2, Some (preds @ [pred1], succs @ [cur1]))))))))"

text \<open>The outer \<^verbatim>\<open>while (true)\<close> loop of \<^verbatim>\<open>find\<close>: a restart begins again at the head.\<close>

partial_function (option) sl_find ::
  "('k::linorder, 'v) skiplist \<Rightarrow> 'k
     \<Rightarrow> (bool \<times> nat list \<times> nat list \<times> ('k, 'v) skiplist) option" where
  "sl_find s key =
     (case find_levels s key (sl_head s) MAX_LEVEL of
        None \<Rightarrow> None
      | Some (s1, r) \<Rightarrow>
          (case r of
             None \<Rightarrow> sl_find s1 key
           | Some (preds, succs) \<Rightarrow>
               Some (succs ! 0 \<noteq> sl_tail s1 \<and> key_of s1 (succs ! 0) = key, preds, succs, s1)))"

declare sl_find.simps [code]

subsection \<open>\<^verbatim>\<open>search\<close>, \<^verbatim>\<open>insert\<close> and \<^verbatim>\<open>remove\<close>\<close>

definition sl_search ::
  "('k::linorder, 'v) skiplist \<Rightarrow> 'k \<Rightarrow> ('v set \<times> ('k, 'v) skiplist) option" where
  "sl_search s key =
     (case sl_find s key of
        None \<Rightarrow> None
      | Some (found, preds, succs, s1) \<Rightarrow>
          if found then
            (case load s1 (succs ! 0) 0 of
               None \<Rightarrow> None
             | Some p \<Rightarrow> if \<not> is_marked p then Some (values_of s1 (succs ! 0), s1)
                         else Some ({}, s1))
          else Some ({}, s1))"

text \<open>The loop of \<^verbatim>\<open>insert\<close> that links the new node into the levels above level 0.\<close>

function link_levels ::
  "('k, 'v) skiplist \<Rightarrow> nat \<Rightarrow> nat list \<Rightarrow> nat list \<Rightarrow> nat \<Rightarrow> nat \<Rightarrow> ('k, 'v) skiplist option" where
  "link_levels s new_node preds succs level new_level =
     (if level < new_level then
        (case cas (store s new_node level (Some (succs ! level), False)) (preds ! level) level
                  (Some (succs ! level), False) (Some new_node, False) of
           None \<Rightarrow> None
         | Some (ok, s1) \<Rightarrow>
             if \<not> ok then Some s1
             else link_levels s1 new_node preds succs (Suc level) new_level)
      else Some s)"
  by pat_completeness auto
termination
  by (relation "measure (\<lambda>(s, new_node, preds, succs, level, new_level). new_level - level)") auto

text \<open>
  \<^verbatim>\<open>insert\<close>, with the coin flips \<open>rng\<close> that its calls of \<^verbatim>\<open>random_level\<close> see, from
  position \<open>pos\<close> on. A node that could not be linked at level 0 is deleted again: the loop
  continues with the heap it had before the node was created.
\<close>

partial_function (option) insert_loop ::
  "('k::linorder, 'v) skiplist \<Rightarrow> (nat \<Rightarrow> bool) \<Rightarrow> nat \<Rightarrow> 'k \<Rightarrow> 'v
     \<Rightarrow> (bool \<times> ('k, 'v) skiplist) option" where
  "insert_loop s rng pos key val =
     (case sl_find s key of
        None \<Rightarrow> None
      | Some (found, preds, succs, s1) \<Rightarrow>
          if found then
            (case load s1 (succs ! 0) 0 of
               None \<Rightarrow> None
             | Some p \<Rightarrow>
                 if is_marked p then insert_loop s1 rng pos key val
                 else Some (val \<notin> values_of s1 (succs ! 0),
                            set_values s1 (succs ! 0) (insert val (values_of s1 (succs ! 0)))))
          else
            (case random_level rng pos of
               (new_level, pos1) \<Rightarrow>
                 (case alloc s1 (create_node key {val} new_level) of
                    (new_node, s2) \<Rightarrow>
                      (case cas (store s2 new_node 0 (Some (succs ! 0), False)) (preds ! 0) 0
                                (Some (succs ! 0), False) (Some new_node, False) of
                         None \<Rightarrow> None
                       | Some (ok, s3) \<Rightarrow>
                           if \<not> ok then insert_loop s1 rng pos1 key val
                           else map_option (Pair True)
                                  (link_levels s3 new_node preds succs 1 new_level)))))"

declare insert_loop.simps [code]

definition sl_insert ::
  "('k::linorder, 'v) skiplist \<Rightarrow> (nat \<Rightarrow> bool) \<Rightarrow> 'k \<Rightarrow> 'v \<Rightarrow> (bool \<times> ('k, 'v) skiplist) option" where
  "sl_insert s rng key val = insert_loop s rng 0 key val"

text \<open>
  \<^verbatim>\<open>remove\<close>: the loop \<^verbatim>\<open>while (!is_marked(succ))\<close> of one level (a failed
  compare-and-swap reloads \<^verbatim>\<open>succ\<close>), and the loop over the levels of the node.
\<close>

partial_function (option) mark_level ::
  "('k, 'v) skiplist \<Rightarrow> nat \<Rightarrow> nat \<Rightarrow> ptr \<Rightarrow> ('k, 'v) skiplist option" where
  "mark_level s node level succ =
     (if is_marked succ then Some s
      else (case cas s node level succ (get_marked_ref succ) of
              None \<Rightarrow> None
            | Some (ok, s1) \<Rightarrow>
                if ok then Some s1
                else (case load s1 node level of
                        None \<Rightarrow> None
                      | Some succ1 \<Rightarrow> mark_level s1 node level succ1)))"

declare mark_level.simps [code]

fun mark_levels :: "('k, 'v) skiplist \<Rightarrow> nat \<Rightarrow> nat \<Rightarrow> ('k, 'v) skiplist option" where
  "mark_levels s node 0 = Some s"
| "mark_levels s node (Suc level) =
     (case load s node level of
        None \<Rightarrow> None
      | Some succ \<Rightarrow>
          (case mark_level s node level succ of
             None \<Rightarrow> None
           | Some s1 \<Rightarrow> mark_levels s1 node level))"

definition sl_remove ::
  "('k::linorder, 'v) skiplist \<Rightarrow> 'k \<Rightarrow> (bool \<times> ('k, 'v) skiplist) option" where
  "sl_remove s key =
     (case sl_find s key of
        None \<Rightarrow> None
      | Some (found, preds, succs, s1) \<Rightarrow>
          if \<not> found then Some (False, s1)
          else map_option (Pair True) (mark_levels s1 (succs ! 0) (level_of s1 (succs ! 0))))"

text \<open>The lists that a sequence of operations builds from the empty list.\<close>

inductive sl_reachable :: "'k \<Rightarrow> ('k::linorder, 'v) skiplist \<Rightarrow> bool" for k0 where
  sl_start: "sl_reachable k0 (sl_init k0)"
| sl_step_insert:
    "sl_reachable k0 s \<Longrightarrow> sl_insert s rng key val = Some (b, s') \<Longrightarrow> sl_reachable k0 s'"
| sl_step_remove:
    "sl_reachable k0 s \<Longrightarrow> sl_remove s key = Some (b, s') \<Longrightarrow> sl_reachable k0 s'"
| sl_step_search:
    "sl_reachable k0 s \<Longrightarrow> sl_search s key = Some (vs, s') \<Longrightarrow> sl_reachable k0 s'"

text \<open>
  A run of operations that holds no \<^verbatim>\<open>insert\<close> of the key \<open>key\<close>: it leads from the first
  list to the second.
\<close>

inductive no_insert_of :: "'k \<Rightarrow> ('k::linorder, 'v) skiplist \<Rightarrow> ('k, 'v) skiplist \<Rightarrow> bool"
  for key s where
  run_none: "no_insert_of key s s"
| run_insert:
    "no_insert_of key s s1 \<Longrightarrow> k \<noteq> key \<Longrightarrow> sl_insert s1 rng k val = Some (b, s2)
       \<Longrightarrow> no_insert_of key s s2"
| run_remove:
    "no_insert_of key s s1 \<Longrightarrow> sl_remove s1 k = Some (b, s2) \<Longrightarrow> no_insert_of key s s2"
| run_search:
    "no_insert_of key s s1 \<Longrightarrow> sl_search s1 k = Some (vs, s2) \<Longrightarrow> no_insert_of key s s2"

subsection \<open>Level chains and the invariant of the skip list\<close>

text \<open>
  \<open>sl_path s lv a xs b\<close>: following the pointers of level \<open>lv\<close> from node \<open>a\<close> visits the
  nodes \<open>xs\<close> in this order and then arrives at \<open>b\<close>. A node is logically deleted when its
  level-0 pointer is marked.
\<close>

fun sl_path :: "('k, 'v) skiplist \<Rightarrow> nat \<Rightarrow> nat \<Rightarrow> nat list \<Rightarrow> nat \<Rightarrow> bool" where
  "sl_path s lv a [] b = (fst (nx s a lv) = Some b)"
| "sl_path s lv a (x # xs) b = (fst (nx s a lv) = Some x \<and> sl_path s lv x xs b)"

definition marked :: "('k, 'v) skiplist \<Rightarrow> nat \<Rightarrow> bool" where
  "marked s a = is_marked (nx s a 0)"

text \<open>The keys met along level 0 between head and tail, without the logically deleted nodes.\<close>

definition live_keys :: "('k, 'v) skiplist \<Rightarrow> nat list \<Rightarrow> 'k list" where
  "live_keys s xs = map (key_of s) (filter (\<lambda>a. \<not> marked s a) xs)"

text \<open>
  The traversal of one level that \<^verbatim>\<open>display\<close> and the destructor make: the nodes met
  from node \<open>a\<close> on, up to the tail.
\<close>

partial_function (option) level_nodes ::
  "('k, 'v) skiplist \<Rightarrow> nat \<Rightarrow> nat \<Rightarrow> nat list option" where
  "level_nodes s lv a =
     (case load s a lv of
        None \<Rightarrow> None
      | Some p \<Rightarrow>
          (case fst (get_unmarked_ref p) of
             None \<Rightarrow> None
           | Some b \<Rightarrow>
               if b = sl_tail s then Some []
               else Option.bind (level_nodes s lv b) (\<lambda>xs. Some (b # xs))))"

declare level_nodes.simps [code]

text \<open>
  \<open>level_chain s lv xs\<close>: the nodes between head and tail on level \<open>lv\<close> are \<open>xs\<close>; they are
  allocated nodes of sufficient level, other than the sentinels, and their keys increase
  strictly (deleted nodes included).
\<close>

definition level_chain :: "('k::linorder, 'v) skiplist \<Rightarrow> nat \<Rightarrow> nat list \<Rightarrow> bool" where
  "level_chain s lv xs \<longleftrightarrow>
     sl_path s lv (sl_head s) xs (sl_tail s)
     \<and> (\<forall>a \<in> set xs. a < length (heap s) \<and> a \<noteq> sl_head s \<and> a \<noteq> sl_tail s \<and> lv < level_of s a)
     \<and> sorted_wrt (<) (map (key_of s) xs)"

text \<open>
  The nodes: the sentinels are two allocated nodes, the head has all levels and is never
  marked, the tail points nowhere; every node has between 1 and \<^verbatim>\<open>MAX_LEVEL\<close> pointers, as
  many as its level says, and they are all marked or all unmarked.
\<close>

definition nodes_ok :: "('k, 'v) skiplist \<Rightarrow> bool" where
  "nodes_ok s \<longleftrightarrow>
     sl_head s < length (heap s) \<and> sl_tail s < length (heap s) \<and> sl_head s \<noteq> sl_tail s
     \<and> level_of s (sl_head s) = MAX_LEVEL \<and> \<not> marked s (sl_head s)
     \<and> (\<forall>lv < MAX_LEVEL. fst (nx s (sl_tail s) lv) = None)
     \<and> (\<forall>a < length (heap s).
           length (sl_next (heap s ! a)) = level_of s a
           \<and> 0 < level_of s a \<and> level_of s a \<le> MAX_LEVEL
           \<and> (\<forall>lv < level_of s a. is_marked (nx s a lv) = marked s a))"

text \<open>
  The invariant, for given chains \<open>ch lv\<close> of the levels: a node of the chain of level
  \<open>lv + 1\<close> that is not deleted is in the chain of level \<open>lv\<close> as well.
\<close>

definition sl_inv_ch :: "('k::linorder, 'v) skiplist \<Rightarrow> (nat \<Rightarrow> nat list) \<Rightarrow> bool" where
  "sl_inv_ch s ch \<longleftrightarrow>
     nodes_ok s
     \<and> (\<forall>lv < MAX_LEVEL. level_chain s lv (ch lv))
     \<and> (\<forall>lv. Suc lv < MAX_LEVEL \<longrightarrow>
           (\<forall>a \<in> set (ch (Suc lv)). \<not> marked s a \<longrightarrow> a \<in> set (ch lv)))"

definition sl_inv :: "('k::linorder, 'v) skiplist \<Rightarrow> bool" where
  "sl_inv s \<longleftrightarrow> (\<exists>ch. sl_inv_ch s ch)"

text \<open>The value set that the nodes \<open>xs\<close> hold for a key: that of its node that is not deleted.\<close>

definition content :: "('k, 'v) skiplist \<Rightarrow> nat list \<Rightarrow> 'k \<Rightarrow> 'v set" where
  "content s xs k = \<Union> (values_of s ` {a \<in> set xs. \<not> marked s a \<and> key_of s a = k})"

text \<open>What an operation that only relinks nodes leaves as it is.\<close>

definition same_nodes :: "('k, 'v) skiplist \<Rightarrow> ('k, 'v) skiplist \<Rightarrow> bool" where
  "same_nodes s s' \<longleftrightarrow>
     length (heap s') = length (heap s) \<and> sl_head s' = sl_head s \<and> sl_tail s' = sl_tail s
     \<and> (\<forall>a. key_of s' a = key_of s a \<and> level_of s' a = level_of s a
             \<and> values_of s' a = values_of s a
             \<and> length (sl_next (heap s' ! a)) = length (sl_next (heap s ! a))
             \<and> (\<forall>lv. is_marked (nx s' a lv) = is_marked (nx s a lv)))"

text \<open>
  What \<^verbatim>\<open>find\<close> establishes on level \<open>lv\<close>: the chain splits into the nodes with smaller
  keys, ending in the predecessor \<open>p\<close> (the head if there is none), and the nodes from the
  successor \<open>c\<close> on (the tail if there is none); \<open>p\<close> and \<open>c\<close> are not deleted.
\<close>

definition level_pos ::
  "('k::linorder, 'v) skiplist \<Rightarrow> (nat \<Rightarrow> nat list) \<Rightarrow> 'k \<Rightarrow> nat \<Rightarrow> nat \<Rightarrow> nat \<Rightarrow> bool" where
  "level_pos s ch key lv p c \<longleftrightarrow>
     (\<exists>A R. ch lv = A @ R \<and> p = last (sl_head s # A) \<and> c = hd (R @ [sl_tail s])
        \<and> \<not> marked s p
        \<and> (\<forall>a \<in> set A. key_of s a < key) \<and> (\<forall>a \<in> set R. key \<le> key_of s a)
        \<and> (R \<noteq> [] \<longrightarrow> \<not> marked s (hd R)))"

text \<open>
  Example lists over strings: \<open>sl_one\<close> holds the pair \<open>(''a'', ''v'')\<close> in a node of level 1
  at address 2; \<open>sl_two hn an\<close> holds in addition \<open>(''b'', ''w'')\<close> in a node of level 2 at
  address 3, the pointers of the head being \<open>hn\<close> and the pointer of the node of \<open>''a''\<close>
  being \<open>an\<close>.
\<close>

definition sl_one :: "(string, string) skiplist" where
  "sl_one =
     \<lparr> heap = [\<lparr> sl_key = '''', sl_values = {}, sl_level = 16,
                 sl_next = (Some 2, False) # replicate 15 (Some 1, False) \<rparr>,
               \<lparr> sl_key = '''', sl_values = {}, sl_level = 16,
                 sl_next = replicate 16 (None, False) \<rparr>,
               \<lparr> sl_key = ''a'', sl_values = {''v''}, sl_level = 1,
                 sl_next = [(Some 1, False)] \<rparr>],
       sl_head = 0, sl_tail = 1 \<rparr>"

definition sl_two :: "ptr list \<Rightarrow> ptr \<Rightarrow> (string, string) skiplist" where
  "sl_two hn an =
     \<lparr> heap = [\<lparr> sl_key = '''', sl_values = {}, sl_level = 16,
                 sl_next = hn @ replicate 14 (Some 1, False) \<rparr>,
               \<lparr> sl_key = '''', sl_values = {}, sl_level = 16,
                 sl_next = replicate 16 (None, False) \<rparr>,
               \<lparr> sl_key = ''a'', sl_values = {''v''}, sl_level = 1, sl_next = [an] \<rparr>,
               \<lparr> sl_key = ''b'', sl_values = {''w''}, sl_level = 2,
                 sl_next = [(Some 1, False), (Some 1, False)] \<rparr>],
       sl_head = 0, sl_tail = 1 \<rparr>"

text \<open>
  Example lists for an \<^verbatim>\<open>insert\<close> of \<open>''b''\<close> that a \<^verbatim>\<open>remove\<close> of \<open>''b''\<close> overtakes:
  \<open>sl_only_d\<close> holds the pair \<open>(''d'', ''y'')\<close> in a node of level 1 at address 2;
  \<open>sl_bd hn bn dn\<close> holds in addition \<open>(''b'', ''x'')\<close> in a node of level 2 at address 3,
  the first two pointers of the head being \<open>hn\<close>, the pointers of the node of \<open>''b''\<close> being
  \<open>bn\<close> and the pointer of the node of \<open>''d''\<close> being \<open>dn\<close>.
\<close>

definition sl_only_d :: "(string, string) skiplist" where
  "sl_only_d =
     \<lparr> heap = [\<lparr> sl_key = '''', sl_values = {}, sl_level = 16,
                 sl_next = (Some 2, False) # replicate 15 (Some 1, False) \<rparr>,
               \<lparr> sl_key = '''', sl_values = {}, sl_level = 16,
                 sl_next = replicate 16 (None, False) \<rparr>,
               \<lparr> sl_key = ''d'', sl_values = {''y''}, sl_level = 1,
                 sl_next = [(Some 1, False)] \<rparr>],
       sl_head = 0, sl_tail = 1 \<rparr>"

definition sl_bd :: "ptr list \<Rightarrow> ptr list \<Rightarrow> ptr \<Rightarrow> (string, string) skiplist" where
  "sl_bd hn bn dn =
     \<lparr> heap = [\<lparr> sl_key = '''', sl_values = {}, sl_level = 16,
                 sl_next = hn @ replicate 14 (Some 1, False) \<rparr>,
               \<lparr> sl_key = '''', sl_values = {}, sl_level = 16,
                 sl_next = replicate 16 (None, False) \<rparr>,
               \<lparr> sl_key = ''d'', sl_values = {''y''}, sl_level = 1, sl_next = [dn] \<rparr>,
               \<lparr> sl_key = ''b'', sl_values = {''x''}, sl_level = 2, sl_next = bn \<rparr>],
       sl_head = 0, sl_tail = 1 \<rparr>"

subsection \<open>Unlinking steps\<close>

text \<open>
  The one change that \<^verbatim>\<open>find\<close> makes to a list: the pointer of level \<open>lv\<close> of \<open>p\<close>, which is
  not marked and points to \<open>c\<close>, is set to the successor \<open>z\<close> of \<open>c\<close>, the pointer of level
  \<open>lv\<close> of \<open>c\<close> being marked. \<open>unlinked\<close> is one such step anywhere in the list.
\<close>

definition unlink_step ::
  "('k, 'v) skiplist \<Rightarrow> nat \<Rightarrow> nat \<Rightarrow> nat \<Rightarrow> nat \<Rightarrow> ('k, 'v) skiplist \<Rightarrow> bool" where
  "unlink_step t p lv c z t1 \<longleftrightarrow>
     valid t p lv \<and> nx t p lv = (Some c, False) \<and> c \<noteq> sl_tail t
     \<and> valid t c lv \<and> nx t c lv = (Some z, True)
     \<and> t1 = store t p lv (Some z, False)"

definition unlinked :: "('k, 'v) skiplist \<Rightarrow> ('k, 'v) skiplist \<Rightarrow> bool" where
  "unlinked t t1 \<longleftrightarrow> (\<exists>p lv c z. unlink_step t p lv c z t1)"

text \<open>
  The two loops of a level, started at a predecessor: \<^verbatim>\<open>curr\<close> and \<^verbatim>\<open>succ\<close> are loaded as
  \<^verbatim>\<open>find\<close> loads them before it enters the loop.
\<close>

definition skip_from ::
  "('k, 'v) skiplist \<Rightarrow> nat \<Rightarrow> nat \<Rightarrow> (('k, 'v) skiplist \<times> (nat \<times> ptr) option) option" where
  "skip_from t level pred =
     (case load t pred level of
        None \<Rightarrow> None
      | Some q \<Rightarrow>
          (case fst (get_unmarked_ref q) of
             None \<Rightarrow> None
           | Some cur \<Rightarrow>
               (case succ_of t cur level of
                  None \<Rightarrow> None
                | Some succ \<Rightarrow> skip_marked t level pred cur succ)))"

definition walk_from ::
  "('k::linorder, 'v) skiplist \<Rightarrow> 'k \<Rightarrow> nat \<Rightarrow> nat
     \<Rightarrow> (('k, 'v) skiplist \<times> (nat \<times> nat) option) option" where
  "walk_from t key level pred =
     (case load t pred level of
        None \<Rightarrow> None
      | Some q \<Rightarrow>
          (case fst (get_unmarked_ref q) of
             None \<Rightarrow> None
           | Some cur \<Rightarrow> walk_level t key level pred cur))"

text \<open>Two lists that are equal or one unlinking step (a given one) apart.\<close>

definition sl_near ::
  "nat \<Rightarrow> nat \<Rightarrow> nat \<Rightarrow> nat \<Rightarrow> ('k, 'v) skiplist \<Rightarrow> ('k, 'v) skiplist \<Rightarrow> bool" where
  "sl_near p lv c z t t1 \<longleftrightarrow> t1 = t \<or> unlink_step t p lv c z t1"


text \<open>
  Two lists of which the second has the links of the first and, in addition, the node \<open>n\<close>
  with key \<open>key\<close> linked on the levels in \<open>L\<close>, on level \<open>l\<close> between \<open>preds ! l\<close> and
  \<open>succs ! l\<close>. The first list has no node \<open>n\<close>. The value sets are left open.
\<close>

definition linked_in ::
  "nat \<Rightarrow> 'k \<Rightarrow> nat list \<Rightarrow> nat list \<Rightarrow> nat set
     \<Rightarrow> ('k, 'v) skiplist \<Rightarrow> ('k, 'v) skiplist \<Rightarrow> bool" where
  "linked_in n key preds succs L t t1 \<longleftrightarrow>
     sl_head t1 = sl_head t \<and> sl_tail t1 = sl_tail t
     \<and> (\<forall>a l. valid t a l \<longrightarrow>
            valid t1 a l \<and> key_of t1 a = key_of t a
            \<and> nx t1 a l = (if l \<in> L \<and> a = preds ! l then (Some n, False) else nx t a l))
     \<and> (\<forall>l\<in>L. nx t (preds ! l) l = (Some (succs ! l), False)
            \<and> valid t1 n l \<and> nx t1 n l = (Some (succs ! l), False)
            \<and> (succs ! l \<noteq> sl_tail t \<longrightarrow>
                  valid t (succs ! l) l \<and> \<not> is_marked (nx t (succs ! l) l))
            \<and> n \<noteq> sl_tail t \<and> key_of t1 n = key \<and> (\<forall>m. \<not> valid t n m))"

section \<open>Sharded inverted hash index: invariants and results\<close>

lemma hi_wf_init: "0 < n \<Longrightarrow> hi_wf (hi_init n)"
  by (simp add: hi_wf_def hi_init_def)

lemma buckets_nonempty_init: "buckets_nonempty (hi_init n)"
  by (simp add: buckets_nonempty_def hi_init_def)

lemma getShard_less: "0 < length (shards s) \<Longrightarrow> getShard h s key < length (shards s)"
  by (simp add: getShard_def)

lemma hi_wf_getOrCreateBucket:
  assumes "hi_wf s"
  shows "hi_wf (snd (getOrCreateBucket h s key))"
proof (cases "(shards s ! getShard h s key) key")
  case (Some b)
  then show ?thesis using assms by (simp add: getOrCreateBucket_def)
next
  case None
  let ?i = "getShard h s key"
  have il: "?i < length (shards s)" using assms by (simp add: hi_wf_def getShard_less)
  have fresh: "\<And>j k. j < length (shards s) \<Longrightarrow> (shards s ! j) k \<noteq> Some (next_bucket s)"
    using assms unfolding hi_wf_def by (metis less_irrefl)
  show ?thesis
    using None assms il fresh
    unfolding hi_wf_def getOrCreateBucket_def
    by (auto simp: Let_def nth_list_update less_Suc_eq split: if_splits)
qed


lemma hi_insert_unfold:
  "hi_insert h s key val =
     (let b = fst (getOrCreateBucket h s key); s1 = snd (getOrCreateBucket h s key) in
      (val \<notin> buckets s1 b, s1\<lparr> buckets := (buckets s1)(b := insert val (buckets s1 b)) \<rparr>))"
  by (simp add: hi_insert_def Let_def split: prod.splits)

lemma getOrCreateBucket_entry:
  assumes "0 < length (shards s)"
  shows "(shards (snd (getOrCreateBucket h s key)) ! getShard h s key) key
           = Some (fst (getOrCreateBucket h s key))"
  using assms getShard_less[OF assms, of h key]
  by (auto simp: getOrCreateBucket_def Let_def split: option.splits)

lemma getOrCreateBucket_length:
  "length (shards (snd (getOrCreateBucket h s key))) = length (shards s)"
  by (auto simp: getOrCreateBucket_def Let_def split: option.splits)

lemma entry_update:
  assumes "j < length xs" "(xs[i := (xs ! i)(key := v)] ! j) k = Some b"
  shows "(j = i \<and> k = key \<and> v = Some b) \<or> ((j \<noteq> i \<or> k \<noteq> key) \<and> (xs ! j) k = Some b)"
  using assms by (cases "j = i"; cases "k = key"; simp)

lemma getOrCreateBucket_cases:
  "(\<exists>b. (shards s ! getShard h s key) key = Some b \<and> getOrCreateBucket h s key = (b, s))
   \<or> ((shards s ! getShard h s key) key = None \<and>
       getOrCreateBucket h s key =
         (next_bucket s,
          s\<lparr> shards := (shards s)[getShard h s key :=
                         (shards s ! getShard h s key)(key \<mapsto> next_bucket s)],
             buckets := (buckets s)(next_bucket s := {}),
             next_bucket := Suc (next_bucket s) \<rparr>))"
  by (cases "(shards s ! getShard h s key) key") (simp_all add: getOrCreateBucket_def Let_def)

lemma getOrCreateBucket_nonempty_others:
  assumes "hi_wf s" "buckets_nonempty s" "i < length (shards s)"
    and "(shards (snd (getOrCreateBucket h s key)) ! i) k = Some b"
    and "b \<noteq> fst (getOrCreateBucket h s key)"
  shows "buckets (snd (getOrCreateBucket h s key)) b \<noteq> {}"
  using getOrCreateBucket_cases[of s h key]
proof (elim disjE exE conjE)
  fix b' assume "getOrCreateBucket h s key = (b', s)"
  then show ?thesis using assms by (auto simp: buckets_nonempty_def)
next
  assume eq: "getOrCreateBucket h s key =
         (next_bucket s,
          s\<lparr> shards := (shards s)[getShard h s key :=
                         (shards s ! getShard h s key)(key \<mapsto> next_bucket s)],
             buckets := (buckets s)(next_bucket s := {}),
             next_bucket := Suc (next_bucket s) \<rparr>)"
  have "(shards s ! i) k = Some b"
    using entry_update[OF assms(3), of "getShard h s key" key "Some (next_bucket s)" k b]
      assms(4,5) by (auto simp: eq)
  then have "buckets s b \<noteq> {}" using assms(2,3) by (auto simp: buckets_nonempty_def)
  then show ?thesis using assms(5) by (simp add: eq)
qed

lemma hi_wf_insert: "hi_wf s \<Longrightarrow> hi_wf (snd (hi_insert h s key val))"
  using hi_wf_getOrCreateBucket[of s h key]
  by (simp add: hi_insert_unfold Let_def hi_wf_def)

lemma buckets_nonempty_insert:
  assumes "hi_wf s" "buckets_nonempty s"
  shows "buckets_nonempty (snd (hi_insert h s key val))"
  unfolding buckets_nonempty_def
proof (intro allI impI)
  fix i k b
  let ?s' = "snd (hi_insert h s key val)"
  assume i: "i < length (shards ?s')" and e: "(shards ?s' ! i) k = Some b"
  have i': "i < length (shards s)"
    using i by (simp add: hi_insert_unfold Let_def getOrCreateBucket_length)
  have e': "(shards (snd (getOrCreateBucket h s key)) ! i) k = Some b"
    using e by (simp add: hi_insert_unfold Let_def)
  show "buckets ?s' b \<noteq> {}"
  proof (cases "b = fst (getOrCreateBucket h s key)")
    case True
    then show ?thesis by (simp add: hi_insert_unfold Let_def)
  next
    case False
    then show ?thesis
      using getOrCreateBucket_nonempty_others[OF assms i' e' False]
      by (simp add: hi_insert_unfold Let_def)
  qed
qed

lemma hi_remove_cases:
  "hi_remove h s key = (False, s) \<or>
   (\<exists>b. hi_remove h s key =
      (True, s\<lparr> shards := (shards s)[getShard h s key :=
                              (shards s ! getShard h s key)(key := None)] \<rparr>))"
  by (cases "(shards s ! getShard h s key) key") (simp_all add: hi_remove_def Let_def)

lemma erase_entry_wf:
  assumes "hi_wf s"
  shows "hi_wf (s\<lparr> shards := (shards s)[i := (shards s ! i)(key := None)] \<rparr>)"
proof -
  let ?s' = "s\<lparr> shards := (shards s)[i := (shards s ! i)(key := None)] \<rparr>"
  have old: "(shards s ! j) k = Some b"
    if "j < length (shards s)" "(shards ?s' ! j) k = Some b" for j k b
    using entry_update[of j "shards s" i key None k b] that by auto
  have a: "0 < length (shards ?s')" using assms by (simp add: hi_wf_def)
  have b: "b < next_bucket ?s'"
    if "j < length (shards ?s')" "(shards ?s' ! j) k = Some b" for j k b
  proof -
    have "(shards s ! j) k = Some b" using old that by simp
    moreover have "j < length (shards s)" using that by simp
    ultimately have "b < next_bucket s" using assms unfolding hi_wf_def by blast
    then show ?thesis by simp
  qed
  have c: "j1 = j2 \<and> k1 = k2"
    if "j1 < length (shards ?s')" "j2 < length (shards ?s')"
       "(shards ?s' ! j1) k1 = Some b" "(shards ?s' ! j2) k2 = Some b" for j1 j2 k1 k2 b
  proof -
    have "(shards s ! j1) k1 = Some b" "(shards s ! j2) k2 = Some b"
      using old that by simp_all
    moreover have "j1 < length (shards s)" "j2 < length (shards s)" using that by simp_all
    ultimately show ?thesis using assms unfolding hi_wf_def by blast
  qed
  show ?thesis unfolding hi_wf_def using a b c by blast
qed

lemma erase_entry_nonempty:
  assumes "buckets_nonempty s"
  shows "buckets_nonempty (s\<lparr> shards := (shards s)[i := (shards s ! i)(key := None)] \<rparr>)"
  unfolding buckets_nonempty_def
proof (intro allI impI)
  let ?s' = "s\<lparr> shards := (shards s)[i := (shards s ! i)(key := None)] \<rparr>"
  fix j k b assume j: "j < length (shards ?s')" and e: "(shards ?s' ! j) k = Some b"
  have "(shards s ! j) k = Some b"
    using entry_update[of j "shards s" i key None k b] j e by auto
  then show "buckets ?s' b \<noteq> {}" using assms j by (auto simp: buckets_nonempty_def)
qed

lemma hi_wf_remove: "hi_wf s \<Longrightarrow> hi_wf (snd (hi_remove h s key))"
  using hi_remove_cases[of h s key] erase_entry_wf[of s "getShard h s key" key] by auto

lemma buckets_nonempty_remove:
  "buckets_nonempty s \<Longrightarrow> buckets_nonempty (snd (hi_remove h s key))"
  using hi_remove_cases[of h s key] erase_entry_nonempty[of s "getShard h s key" key] by auto

lemma set_bucket_wf: "hi_wf s \<Longrightarrow> hi_wf (s\<lparr> buckets := bs \<rparr>)"
  by (simp add: hi_wf_def)

lemma hi_remove_value_cases:
  "hi_remove_value h s key val = (False, s) \<and> (shards s ! getShard h s key) key = None
   \<or> (\<exists>b. (shards s ! getShard h s key) key = Some b \<and>
        (let s1 = s\<lparr> buckets := (buckets s)(b := buckets s b - {val}) \<rparr> in
           (hi_remove_value h s key val = (val \<in> buckets s b, s1) \<and> buckets s b - {val} \<noteq> {})
         \<or> (hi_remove_value h s key val =
               (True, s1\<lparr> shards := (shards s1)[getShard h s key :=
                                      (shards s1 ! getShard h s key)(key := None)] \<rparr>)
             \<and> buckets s b = {val})
         \<or> (hi_remove_value h s key val = (False, s1) \<and> buckets s b = {})))"
  by (cases "(shards s ! getShard h s key) key")
     (auto simp: hi_remove_value_def Let_def)

lemma hi_wf_remove_value: "hi_wf s \<Longrightarrow> hi_wf (snd (hi_remove_value h s key val))"
  using hi_remove_value_cases[of h s key val]
    erase_entry_wf[OF set_bucket_wf, of s _ "getShard h s key" key]
  by (auto simp: Let_def set_bucket_wf)

lemma buckets_nonempty_remove_value:
  assumes "hi_wf s" "buckets_nonempty s"
  shows "buckets_nonempty (snd (hi_remove_value h s key val))"
proof (cases "(shards s ! getShard h s key) key")
  case None
  then show ?thesis using assms by (simp add: hi_remove_value_def)
next
  case (Some b)
  define i where "i = getShard h s key"
  define bs where "bs = (buckets s)(b := buckets s b - {val})"
  define sh where "sh = (shards s)[i := (shards s ! i)(key := None)]"
  have il: "i < length (shards s)"
    using assms(1) by (simp add: hi_wf_def getShard_less i_def)
  have Some': "(shards s ! i) key = Some b" using Some by (simp add: i_def)
  have uniq: "j = i \<and> k = key"
    if "j < length (shards s)" "(shards s ! j) k = Some b" for j k
    using assms(1) Some' il that unfolding hi_wf_def by blast
  have ne: "buckets s b' \<noteq> {}"
    if "j < length (shards s)" "(shards s ! j) k = Some b'" for j k b'
    using assms(2) that unfolding buckets_nonempty_def by blast
  show ?thesis
  proof (cases "val \<in> buckets s b \<and> buckets s b - {val} = {}")
    case True
    then have eq: "snd (hi_remove_value h s key val) = s\<lparr> buckets := bs, shards := sh \<rparr>"
      using Some by (simp add: hi_remove_value_def Let_def i_def bs_def sh_def)
    have "\<forall>j<length sh. \<forall>k b'. (sh ! j) k = Some b' \<longrightarrow> bs b' \<noteq> {}"
    proof (intro allI impI)
      fix j k b' assume that: "j < length sh" "(sh ! j) k = Some b'"
      have j: "j < length (shards s)" using that by (simp add: sh_def)
      have old: "(j \<noteq> i \<or> k \<noteq> key) \<and> (shards s ! j) k = Some b'"
        using entry_update[of j "shards s" i key None k b'] j that(2) by (auto simp: sh_def)
      then have "b' \<noteq> b" using uniq[of j k] j by blast
      then show "bs b' \<noteq> {}" using ne[of j k b'] j old by (simp add: bs_def)
    qed
    then show ?thesis unfolding eq buckets_nonempty_def by simp
  next
    case False
    then have eq: "snd (hi_remove_value h s key val) = s\<lparr> buckets := bs \<rparr>"
      using Some by (auto simp: hi_remove_value_def Let_def bs_def)
    have "\<forall>j<length (shards s). \<forall>k b'. (shards s ! j) k = Some b' \<longrightarrow> bs b' \<noteq> {}"
    proof (intro allI impI)
      fix j k b' assume that: "j < length (shards s)" "(shards s ! j) k = Some b'"
      show "bs b' \<noteq> {}"
      proof (cases "b' = b")
        case True
        have "buckets s b \<noteq> {}" using ne[OF il Some'] .
        then show ?thesis using False True by (auto simp: bs_def)
      next
        case False
        then show ?thesis using ne[OF that] by (simp add: bs_def)
      qed
    qed
    then show ?thesis unfolding eq buckets_nonempty_def by simp
  qed
qed

lemma hi_reachable_inv: "hi_reachable h s \<Longrightarrow> hi_wf s \<and> buckets_nonempty s"
proof (induction rule: hi_reachable.induct)
  case (hi_start n)
  then show ?case by (simp add: hi_wf_init buckets_nonempty_init)
next
  case (hi_step_insert s key val)
  then show ?case by (simp add: hi_wf_insert buckets_nonempty_insert)
next
  case (hi_step_remove s key)
  then show ?case by (simp add: hi_wf_remove buckets_nonempty_remove)
next
  case (hi_step_remove_value s key val)
  then show ?case by (simp add: hi_wf_remove_value buckets_nonempty_remove_value)
qed

text \<open>
  Claim C2, as stated, asks for the invariant also at the moment
  \<^verbatim>\<open>getOrCreateBucket\<close> releases the shard write-lock after it has put a newly
  created bucket into the map. The source creates that bucket empty and returns (releasing
  the lock) before \<^verbatim>\<open>insert\<close> adds the value, so at that moment the map holds
  an empty bucket: on a fresh index with 256 shards and key \<open>''a''\<close> the state
  returned by \<open>getOrCreateBucket\<close> violates \<open>buckets_nonempty\<close>.
\<close>

theorem getOrCreateBucket_leaves_empty_bucket:
  "\<not> buckets_nonempty
       (snd (getOrCreateBucket length (hi_init 256 :: (string, string) inverted_index) ''a''))"
  by (simp add: buckets_nonempty_def getOrCreateBucket_def getShard_def hi_init_def Let_def
       nth_list_update exI[of _ 1])

text \<open>
  Claim C2, amended: in every state that the public operations \<open>insert\<close>,
  \<open>remove(k)\<close> and \<open>remove(k, v)\<close> produce from a fresh index, every bucket
  present in a shard map has a non-empty value set; in particular this holds when
  \<open>insert(k, v)\<close> returns and when \<open>remove(k, v)\<close> releases the shard
  write-lock after erasing \<open>v\<close>.
\<close>

theorem hi_buckets_nonempty_after_operations:
  assumes "hi_reachable h s"
  shows "buckets_nonempty s
       \<and> buckets_nonempty (snd (hi_insert h s key val))
       \<and> buckets_nonempty (snd (hi_remove_value h s key val))"
  using hi_reachable_inv[OF assms]
  by (simp add: buckets_nonempty_insert buckets_nonempty_remove_value)

text \<open>
  Claim C7: in the sharded hash index \<open>remove(k, v)\<close> returns true exactly when
  \<open>v\<close> was in the value set of \<open>k\<close> at the call; the value set of \<open>k\<close>
  afterwards is the old one without \<open>v\<close>; and when the removal leaves it empty the
  entry of \<open>k\<close> is erased from the shard map, so that \<open>search(k)\<close> returns the
  empty set.
\<close>

theorem hi_remove_value_result:
  assumes "0 < length (shards s)"
    and "hi_remove_value h s key val = (r, s')"
  shows "r = (val \<in> hi_search h s key)
       \<and> hi_search h s' key = hi_search h s key - {val}
       \<and> (r \<and> hi_search h s key - {val} = {} \<longrightarrow>
            (shards s' ! getShard h s' key) key = None \<and> hi_search h s' key = {})"
proof (cases "(shards s ! getShard h s key) key")
  case None
  then show ?thesis using assms by (auto simp: hi_remove_value_def hi_search_def)
next
  case (Some b)
  have il: "getShard h s key < length (shards s)" using assms(1) by (rule getShard_less)
  show ?thesis
    using Some assms(2) il
    by (auto simp: hi_remove_value_def hi_search_def getShard_def Let_def split: if_splits)
qed


lemma hi_example_insert:
  "hi_insert length (hi_init 4 :: (string, string) inverted_index) ''a'' ''1'' =
     (True, \<lparr> shards = (replicate 4 (\<lambda>_. None))[1 := [''a'' \<mapsto> 0]],
              buckets = (\<lambda>_. {})(0 := {''1''}), next_bucket = 1 \<rparr>)"
  by (simp add: hi_insert_def getOrCreateBucket_def getShard_def hi_init_def Let_def)

theorem hi_buckets_nonempty_after_operations_witness:
  "hi_reachable length (snd (hi_insert length (hi_init 4 :: (string, string) inverted_index) ''a'' ''1''))
   \<and> buckets_nonempty (snd (hi_insert length (hi_init 4 :: (string, string) inverted_index) ''a'' ''1''))"
proof -
  have "hi_reachable length (hi_init 4 :: (string, string) inverted_index)"
    by (rule hi_start) simp
  then have r: "hi_reachable length
      (snd (hi_insert length (hi_init 4 :: (string, string) inverted_index) ''a'' ''1''))"
    by (rule hi_step_insert)
  from hi_buckets_nonempty_after_operations[OF r] r show ?thesis by simp
qed

theorem hi_remove_value_result_witness:
  "0 < length (shards (snd (hi_insert length (hi_init 4 :: (string, string) inverted_index) ''a'' ''1'')))
   \<and> fst (hi_remove_value length
          (snd (hi_insert length (hi_init 4 :: (string, string) inverted_index) ''a'' ''1''))
          ''a'' ''1'')
   \<and> hi_search length
        (snd (hi_remove_value length
          (snd (hi_insert length (hi_init 4 :: (string, string) inverted_index) ''a'' ''1''))
          ''a'' ''1'')) ''a'' = {}"
proof -
  let ?s = "snd (hi_insert length (hi_init 4 :: (string, string) inverted_index) ''a'' ''1'')"
  have l: "0 < length (shards ?s)" by (simp add: hi_example_insert)
  have m: "hi_search length ?s ''a'' = {''1''}"
    by (simp add: hi_example_insert hi_search_def getShard_def)
  from hi_remove_value_result[OF l, of length "''a''" "''1''"
      "fst (hi_remove_value length ?s ''a'' ''1'')" "snd (hi_remove_value length ?s ''a'' ''1'')"]
  show ?thesis using l m by simp
qed

section \<open>Concurrent B+ tree: invariants and results\<close>

declare find_leaf.simps [simp del] descend.simps [simp del] crab.simps [simp del]
  scan_keys.simps [simp del] insert_recursive.simps [simp del]
  insert_into_internal.simps [simp del]

subsection \<open>The descent and the pointer it yields\<close>

lemma find_leaf_descend:
  "find_leaf n key = (case descend n key of None \<Rightarrow> None | Some p \<Rightarrow> node_at n p)"
proof (induction n key rule: find_leaf.induct)
  case (1 current key)
  show ?case
  proof (cases "is_leaf current")
    case True
    then show ?thesis by (simp add: find_leaf.simps[of current] descend.simps[of current])
  next
    case False
    show ?thesis
    proof (cases "upper_bound (keys current) key < length (children current)")
      case True
      with False 1[OF False refl True] show ?thesis
        by (simp add: find_leaf.simps[of current] descend.simps[of current] Let_def
            split: option.splits)
    next
      case False
      with \<open>\<not> is_leaf current\<close> show ?thesis
        by (simp add: find_leaf.simps[of current] descend.simps[of current] Let_def)
    qed
  qed
qed

subsection \<open>Scenario E3 and the failing optimistic insert\<close>

text \<open>
  Claim C3: with order \<open>M = 4\<close>, inserting the keys \<open>''01''\<close> to \<open>''04''\<close> leaves the
  root a single leaf and allocates nothing; inserting \<open>''05''\<close> then splits that leaf
  once (the only allocations are the sibling at address 1 and the new root at address 2).
  The root becomes an internal node with the single key \<open>''03''\<close> over the leaves
  \<open>[''01'', ''02'']\<close> and \<open>[''03'', ''04'', ''05'']\<close>, and the key promoted by the split
  is the first key of the new right sibling.
\<close>

theorem bt_five_keys_one_leaf_split:
  "bt_insert_all 4 bt_init [(''01'', v1), (''02'', v2), (''03'', v3), (''04'', v4)]
     = Some \<lparr> root = Node [''01'', ''02'', ''03'', ''04''] [{v1}, {v2}, {v3}, {v4}] [] None True 0,
              next_addr = 1 \<rparr>
   \<and> insert_recursive 4 (Node [''01'', ''02'', ''03'', ''04''] [{v1}, {v2}, {v3}, {v4}] [] None True 0)
         ''05'' v5 1
     = Some (Node [''01'', ''02''] [{v1}, {v2}] [] (Some 1) True 0,
             Some (Node [''03'', ''04'', ''05''] [{v3}, {v4}, {v5}] [] None True 1, ''03''), 2)
   \<and> ''03'' = hd (keys (Node [''03'', ''04'', ''05''] [{v3}, {v4}, {v5}] [] None True 1))
   \<and> bt_insert_all 4 bt_init
         [(''01'', v1), (''02'', v2), (''03'', v3), (''04'', v4), (''05'', v5)]
     = Some \<lparr> root = Node [''03''] []
                 [Node [''01'', ''02''] [{v1}, {v2}] [] (Some 1) True 0,
                  Node [''03'', ''04'', ''05''] [{v3}, {v4}, {v5}] [] None True 1]
                 None False 2,
              next_addr = 3 \<rparr>"
  by (simp add: bt_insert_def optimistic_insert_def bt_init_def descend.simps crab.simps
      pessimistic_insert_def insert_recursive.simps insert_into_leaf_def split_leaf_def
      is_safe_for_insert_def MAX_KEYS_LEAF_def put_in_leaf_def lower_bound_def vector_insert_def)

text \<open>
  Claim C8: when the leaf that the optimistic descent reaches is not safe for insert,
  \<open>optimistic_insert\<close> returns failure together with the tree it was given, unchanged in
  every component (nodes, leaf chain, root, allocation counter), and \<open>insert\<close> is then
  the pessimistic insertion on that tree.
\<close>

theorem optimistic_insert_unsafe_leaf:
  assumes "find_leaf (root t) key = Some leaf"
    and "\<not> is_safe_for_insert M leaf"
  shows "optimistic_insert M t key val = Some (False, t)
       \<and> bt_insert M t key val = map_option (Pair True) (pessimistic_insert M t key val)"
proof -
  from assms(1) obtain p where p: "descend (root t) key = Some p" "node_at (root t) p = Some leaf"
    by (auto simp: find_leaf_descend split: option.splits)
  have opt: "optimistic_insert M t key val = Some (False, t)"
    using p assms(2) by (simp add: optimistic_insert_def)
  then show ?thesis
    by (simp add: bt_insert_def map_option_case split: option.splits)
qed

theorem optimistic_insert_unsafe_leaf_witness:
  "find_leaf (root \<lparr> root = Node [''01'', ''02'', ''03'', ''04''] [{''a''}, {''b''}, {''c''}, {''d''}]
                              [] None True 0, next_addr = 1 \<rparr>) ''05''
     = Some (Node [''01'', ''02'', ''03'', ''04''] [{''a''}, {''b''}, {''c''}, {''d''}] [] None True 0)
   \<and> \<not> is_safe_for_insert 4
         (Node [''01'', ''02'', ''03'', ''04''] [{''a''}, {''b''}, {''c''}, {''d''}] [] None True 0)
   \<and> optimistic_insert 4
         \<lparr> root = Node [''01'', ''02'', ''03'', ''04''] [{''a''}, {''b''}, {''c''}, {''d''}]
                    [] None True 0, next_addr = 1 \<rparr> ''05'' ''e''
       = Some (False,
           \<lparr> root = Node [''01'', ''02'', ''03'', ''04''] [{''a''}, {''b''}, {''c''}, {''d''}]
                    [] None True 0, next_addr = 1 \<rparr>)"
proof -
  let ?leaf = "Node [''01'', ''02'', ''03'', ''04''] [{''a''}, {''b''}, {''c''}, {''d''}]
                 [] None True (0::nat)"
  let ?t = "\<lparr> root = ?leaf, next_addr = 1 \<rparr>"
  have a: "find_leaf (root ?t) ''05'' = Some ?leaf" by (simp add: find_leaf.simps)
  have b: "\<not> is_safe_for_insert 4 ?leaf" by (simp add: is_safe_for_insert_def MAX_KEYS_LEAF_def)
  from optimistic_insert_unsafe_leaf[OF a b, of "''e''"] a b show ?thesis by simp
qed

subsection \<open>Binary search on sorted vectors\<close>

lemma upper_bound_Cons:
  "upper_bound (k # ks) key = (if key < k then 0 else Suc (upper_bound ks key))"
  by (simp add: upper_bound_def)

lemma lower_bound_Cons:
  "lower_bound (k # ks) key = (if k < key then Suc (lower_bound ks key) else 0)"
  by (simp add: lower_bound_def)

lemma upper_bound_le: "upper_bound ks key \<le> length ks"
  by (simp add: upper_bound_def length_takeWhile_le)

lemma lower_bound_le: "lower_bound ks key \<le> length ks"
  by (simp add: lower_bound_def length_takeWhile_le)

lemma upper_bound_before: "i < upper_bound ks key \<Longrightarrow> ks ! i \<le> key"
proof (induction ks arbitrary: i)
  case Nil
  then show ?case by (simp add: upper_bound_def)
next
  case (Cons k ks)
  then show ?case by (cases i) (auto simp: upper_bound_Cons split: if_splits)
qed

lemma upper_bound_after:
  "sorted ks \<Longrightarrow> upper_bound ks key \<le> i \<Longrightarrow> i < length ks \<Longrightarrow> key < ks ! i"
proof (induction ks arbitrary: i)
  case Nil
  then show ?case by simp
next
  case (Cons k ks)
  show ?case
  proof (cases "key < k")
    case True
    have "k \<le> (k # ks) ! i" using Cons.prems by (cases i) auto
    with True show ?thesis by simp
  next
    case False
    then obtain j where "i = Suc j" using Cons.prems by (cases i) (auto simp: upper_bound_Cons)
    with False Cons show ?thesis by (auto simp: upper_bound_Cons)
  qed
qed

lemma lower_bound_before: "i < lower_bound ks key \<Longrightarrow> ks ! i < key"
proof (induction ks arbitrary: i)
  case Nil
  then show ?case by (simp add: lower_bound_def)
next
  case (Cons k ks)
  then show ?case by (cases i) (auto simp: lower_bound_Cons split: if_splits)
qed

lemma lower_bound_after:
  "sorted ks \<Longrightarrow> lower_bound ks key \<le> i \<Longrightarrow> i < length ks \<Longrightarrow> key \<le> ks ! i"
proof (induction ks arbitrary: i)
  case Nil
  then show ?case by simp
next
  case (Cons k ks)
  show ?case
  proof (cases "k < key")
    case False
    have "k \<le> (k # ks) ! i" using Cons.prems by (cases i) auto
    with False show ?thesis by simp
  next
    case True
    then obtain j where "i = Suc j" using Cons.prems by (cases i) (auto simp: lower_bound_Cons)
    with True Cons show ?thesis by (auto simp: lower_bound_Cons)
  qed
qed

lemma lower_bound_found:
  assumes "sorted_wrt (<) ks"
  shows "(lower_bound ks key < length ks \<and> ks ! lower_bound ks key = key) = (key \<in> set ks)"
  using assms
proof (induction ks)
  case Nil
  then show ?case by (simp add: lower_bound_def)
next
  case (Cons k ks)
  then show ?case by (auto simp: lower_bound_Cons)
qed

subsection \<open>Putting a pair into a leaf\<close>

lemma zip_update_upsert:
  assumes "sorted_wrt (<) ks" "length vs = length ks" "key \<in> set ks"
  shows "zip ks (vs[lower_bound ks key := insert val (vs ! lower_bound ks key)])
         = upsert (zip ks vs) key val"
  using assms
proof (induction ks arbitrary: vs)
  case Nil
  then show ?case by simp
next
  case (Cons k ks)
  then obtain w ws where vs: "vs = w # ws" by (cases vs) auto
  show ?case
  proof (cases "k < key")
    case True
    then have "key \<in> set ks" using Cons.prems by auto
    then have "zip ks (ws[lower_bound ks key := insert val (ws ! lower_bound ks key)])
         = upsert (zip ks ws) key val"
      using Cons vs by simp
    moreover have "key \<noteq> k" "\<not> key < k" using True by auto
    ultimately show ?thesis using True vs by (simp add: lower_bound_Cons)
  next
    case False
    then have "key = k" using Cons.prems by auto
    then show ?thesis using vs by (simp add: lower_bound_Cons)
  qed
qed

lemma zip_insert_upsert:
  assumes "sorted_wrt (<) ks" "length vs = length ks" "key \<notin> set ks"
  shows "zip (vector_insert ks (lower_bound ks key) key)
             (vector_insert vs (lower_bound ks key) {val})
         = upsert (zip ks vs) key val"
  using assms
proof (induction ks arbitrary: vs)
  case Nil
  then show ?case by (simp add: lower_bound_def vector_insert_def)
next
  case (Cons k ks)
  then obtain w ws where vs: "vs = w # ws" by (cases vs) auto
  show ?case
  proof (cases "k < key")
    case True
    have "zip (vector_insert ks (lower_bound ks key) key)
             (vector_insert ws (lower_bound ks key) {val}) = upsert (zip ks ws) key val"
      using Cons vs by simp
    moreover have "key \<noteq> k" "\<not> key < k" using True by auto
    ultimately show ?thesis using True vs by (simp add: lower_bound_Cons vector_insert_def)
  next
    case False
    then have "key < k" using Cons.prems by auto
    then show ?thesis using vs False by (simp add: lower_bound_Cons vector_insert_def)
  qed
qed

lemma sorted_wrt_vector_insert:
  assumes "sorted_wrt (<) ks" "key \<notin> set ks"
  shows "sorted_wrt (<) (vector_insert ks (lower_bound ks key) key)"
  using assms
proof (induction ks)
  case Nil
  then show ?case by (simp add: vector_insert_def lower_bound_def)
next
  case (Cons k ks)
  show ?case
  proof (cases "k < key")
    case True
    have "sorted_wrt (<) (vector_insert ks (lower_bound ks key) key)" using Cons by simp
    moreover have "set (vector_insert ks (lower_bound ks key) key) \<subseteq> insert key (set ks)"
      by (auto simp: vector_insert_def dest: in_set_takeD in_set_dropD)
    ultimately show ?thesis using True Cons.prems
      by (auto simp: lower_bound_Cons vector_insert_def)
  next
    case False
    then have "key < k" using Cons.prems by auto
    then show ?thesis using False Cons.prems by (auto simp: lower_bound_Cons vector_insert_def)
  qed
qed

lemma set_vector_insert: "pos \<le> length xs \<Longrightarrow> set (vector_insert xs pos x) = insert x (set xs)"
proof -
  assume "pos \<le> length xs"
  have "set (take pos xs) \<union> set (drop pos xs) = set xs"
    by (metis append_take_drop_id set_append)
  then show ?thesis by (auto simp: vector_insert_def)
qed

lemma length_vector_insert: "length (vector_insert xs pos x) = Suc (length xs)"
  by (simp add: vector_insert_def)

lemma put_in_leaf_ok:
  assumes "bt_inv M leaf" "is_leaf leaf"
  obtains leaf1 where "put_in_leaf leaf key val = Some leaf1"
    and "is_leaf leaf1" "addr leaf1 = addr leaf" "nxt leaf1 = nxt leaf" "children leaf1 = []"
    and "sorted_wrt (<) (keys leaf1)" "length (vals leaf1) = length (keys leaf1)"
    and "set (keys leaf1) = insert key (set (keys leaf))"
    and "length (keys leaf1) = (if key \<in> set (keys leaf) then length (keys leaf)
                                else Suc (length (keys leaf)))"
    and "leaf_entries leaf1 = upsert (leaf_entries leaf) key val"
proof (cases leaf)
  case (Node ks vs cs nx lf a)
  with assms have inv: "sorted_wrt (<) ks" "length vs = length ks" "cs = []" "lf" by auto
  let ?pos = "lower_bound ks key"
  have pos: "?pos \<le> length ks" by (rule lower_bound_le)
  show ?thesis
  proof (cases "key \<in> set ks")
    case True
    then have f: "?pos < length ks \<and> ks ! ?pos = key" using lower_bound_found[OF inv(1)] by simp
    let ?l1 = "Node ks (vs[?pos := insert val (vs ! ?pos)]) cs nx lf a"
    have "put_in_leaf leaf key val = Some ?l1"
      using f inv Node by (simp add: put_in_leaf_def Let_def)
    moreover have "leaf_entries ?l1 = upsert (leaf_entries leaf) key val"
      using zip_update_upsert[OF inv(1,2) True, of val] Node by (simp add: leaf_entries_def)
    ultimately show ?thesis using that[of ?l1] inv True Node by (simp add: insert_absorb)
  next
    case False
    then have f: "\<not> (?pos < length ks \<and> ks ! ?pos = key)"
      using lower_bound_found[OF inv(1)] by simp
    let ?l1 = "Node (vector_insert ks ?pos key) (vector_insert vs ?pos {val}) cs nx lf a"
    have "put_in_leaf leaf key val = Some ?l1"
      using f inv pos Node by (auto simp: put_in_leaf_def Let_def)
    moreover have "leaf_entries ?l1 = upsert (leaf_entries leaf) key val"
      using zip_insert_upsert[OF inv(1,2) False, of val] Node by (simp add: leaf_entries_def)
    ultimately show ?thesis
      using that[of ?l1] inv False Node pos sorted_wrt_vector_insert[OF inv(1) False]
      by (simp add: length_vector_insert set_vector_insert)
  qed
qed

subsection \<open>Insertion keeps the ordering invariant\<close>

lemma leaf_keys_sel:
  "leaf_keys n = (if is_leaf n then set (keys n) else (\<Union>c \<in> set (children n). leaf_keys c))"
  by (cases n) simp

lemma all_keys_sel:
  "all_keys n = set (keys n) \<union> (if is_leaf n then {} else (\<Union>c \<in> set (children n). all_keys c))"
  by (cases n) simp

lemma leaf_keys_subset_all_keys: "leaf_keys n \<subseteq> all_keys n"
  by (induction n) auto

lemma bt_inv_leaf:
  "is_leaf n \<Longrightarrow> bt_inv M n =
     (sorted_wrt (<) (keys n) \<and> length (vals n) = length (keys n) \<and>
      length (keys n) \<le> MAX_KEYS_LEAF M \<and> children n = [])"
  by (cases n) simp

lemma bt_inv_internal:
  "\<not> is_leaf n \<Longrightarrow> bt_inv M n =
     (sorted (keys n) \<and> length (children n) = Suc (length (keys n)) \<and>
      length (keys n) \<le> MAX_KEYS_INTERNAL M \<and>
      (\<forall>c \<in> set (children n). bt_inv M c) \<and> seps_ok (keys n) (children n))"
  by (cases n) simp

lemma nth_vector_insert:
  assumes "pos \<le> length xs" "i \<le> length xs"
  shows "vector_insert xs pos x ! i = (if i < pos then xs ! i else if i = pos then x else xs ! (i - 1))"
proof -
  have "(x # drop pos xs) ! (i - pos) = xs ! (i - 1)" if "i > pos"
  proof -
    from that have "i - pos \<noteq> 0" by simp
    then obtain d where d: "i - pos = Suc d" by (cases "i - pos") simp_all
    then have "pos + d = i - 1" by simp
    then show ?thesis using d assms by simp
  qed
  then show ?thesis using assms by (auto simp: vector_insert_def nth_append)
qed

lemma sorted_strict_take_less:
  "sorted_wrt (<) ks \<Longrightarrow> mid < length ks \<Longrightarrow> x \<in> set (take mid ks) \<Longrightarrow> x < ks ! mid"
  by (auto simp: in_set_conv_nth sorted_wrt_iff_nth_less)

lemma sorted_take_le:
  "sorted ks \<Longrightarrow> mid < length ks \<Longrightarrow> x \<in> set (take mid ks) \<Longrightarrow> x \<le> ks ! mid"
  by (auto simp: in_set_conv_nth sorted_iff_nth_mono)

lemma sorted_drop_ge:
  "sorted ks \<Longrightarrow> mid \<le> m \<Longrightarrow> x \<in> set (drop m ks) \<Longrightarrow> mid < length ks \<Longrightarrow> ks ! mid \<le> x"
  by (auto simp: in_set_conv_nth sorted_iff_nth_mono)

lemma split_leaf_ok:
  assumes "is_leaf l1" "children l1 = []" "sorted_wrt (<) (keys l1)"
    and "length (vals l1) = length (keys l1)" "length (keys l1) = Suc (MAX_KEYS_LEAF M)" "1 \<le> M"
  obtains l' s pk where "split_leaf l1 a = Some (l', s, pk)"
    and "bt_inv M l'" "bt_inv M s" "is_leaf l'" "is_leaf s" "addr l' = addr l1" "addr s = a"
    and "set (keys l') \<union> set (keys s) = set (keys l1)"
    and "\<forall>k \<in> set (keys l'). k < pk" "\<forall>k \<in> set (keys s). pk \<le> k" "pk \<in> set (keys l1)"
    and "leaf_entries l' @ leaf_entries s = leaf_entries l1"
    and "nxt l' = Some a" "nxt s = nxt l1" "children l' = []" "children s = []"
proof -
  define mid where "mid = length (keys l1) div 2"
  define ks where "ks = keys l1"
  define vs where "vs = vals l1"
  have len: "length ks = Suc M" "length vs = Suc M"
    using assms by (simp_all add: ks_def vs_def MAX_KEYS_LEAF_def)
  have mid: "1 \<le> mid" "mid \<le> M" "mid < length ks" "mid = Suc M div 2"
    using assms(6) len by (auto simp: mid_def ks_def)
  let ?s = "Node (drop mid ks) (drop mid vs) [] (nxt l1) True a"
  let ?l = "Node (take mid ks) (take mid vs) (children l1) (Some a) (is_leaf l1) (addr l1)"
  have nonempty: "drop mid ks \<noteq> []" using mid by simp
  have hd: "hd (drop mid ks) = ks ! mid" using mid by (simp add: hd_drop_conv_nth)
  have sp: "split_leaf l1 a = Some (?l, ?s, ks ! mid)"
    using nonempty hd mid len
    by (simp add: split_leaf_def Let_def mid_def[symmetric] ks_def[symmetric] vs_def[symmetric])
  have srt: "sorted_wrt (<) ks" using assms by (simp add: ks_def)
  have srt': "sorted ks" using srt by (simp add: strict_sorted_imp_sorted)
  have "sorted_wrt (<) (take mid ks)" "sorted_wrt (<) (drop mid ks)"
    using srt by (simp_all add: sorted_wrt_take sorted_wrt_drop)
  then have inv: "bt_inv M ?l" "bt_inv M ?s"
    using assms(1,2) mid len by (auto simp: MAX_KEYS_LEAF_def min_def)
  have un: "set (take mid ks) \<union> set (drop mid ks) = set ks"
    by (metis append_take_drop_id set_append)
  have lt: "\<forall>k \<in> set (take mid ks). k < ks ! mid"
    using sorted_strict_take_less[OF srt mid(3)] by blast
  have ge: "\<forall>k \<in> set (drop mid ks). ks ! mid \<le> k"
    using sorted_drop_ge[OF srt' order_refl _ mid(3)] by blast
  have ent: "leaf_entries ?l @ leaf_entries ?s = leaf_entries l1"
    by (simp add: leaf_entries_def zip_append[symmetric] ks_def vs_def
        del: zip_append) (metis append_take_drop_id take_zip drop_zip)
  show ?thesis
    using that[OF sp inv] assms(1,2) un lt ge mid(3) ent
    by (simp add: ks_def)
qed

lemma insert_into_leaf_ok:
  assumes "bt_inv M n" "is_leaf n" "1 \<le> M"
  obtains n' sp a' where "insert_into_leaf M n key val a = Some (n', sp, a')"
    and "ins_post M n key n' sp"
    and "entries n' @ (case sp of None \<Rightarrow> [] | Some (s, pk) \<Rightarrow> entries s) = upsert (entries n) key val"
proof -
  obtain l1 where l1: "put_in_leaf n key val = Some l1"
    "is_leaf l1" "addr l1 = addr n" "nxt l1 = nxt n" "children l1 = []"
    "sorted_wrt (<) (keys l1)" "length (vals l1) = length (keys l1)"
    "set (keys l1) = insert key (set (keys n))"
    "length (keys l1) = (if key \<in> set (keys n) then length (keys n) else Suc (length (keys n)))"
    "leaf_entries l1 = upsert (leaf_entries n) key val"
    using put_in_leaf_ok[OF assms(1,2)] by metis
  have n: "length (keys n) \<le> MAX_KEYS_LEAF M" using assms by (simp add: bt_inv_leaf)
  have ent_leaf: "entries m = leaf_entries m" if "is_leaf m" for m :: "('a, 'b) node"
    using that by (cases m) (simp add: entries_def)
  show ?thesis
  proof (cases "length (keys l1) > MAX_KEYS_LEAF M")
    case False
    have res: "insert_into_leaf M n key val a = Some (l1, None, a)"
      using l1(1) False by (simp add: insert_into_leaf_def)
    have "bt_inv M l1" using l1 False by (simp add: bt_inv_leaf)
    then have "ins_post M n key l1 None"
      using l1 assms(2) by (simp add: ins_post_def leaf_keys_sel all_keys_sel)
    moreover have "entries l1 = upsert (entries n) key val"
      using l1 assms(2) by (simp add: ent_leaf)
    ultimately show ?thesis using that[OF res] by simp
  next
    case True
    then have len: "length (keys l1) = Suc (MAX_KEYS_LEAF M)" using l1(9) n by (auto split: if_splits)
    have unsafe: "\<not> is_safe_for_insert M n"
      using len l1(9) assms(2) by (auto simp: is_safe_for_insert_def split: if_splits)
    obtain l' s pk where sp: "split_leaf l1 a = Some (l', s, pk)"
      "bt_inv M l'" "bt_inv M s" "is_leaf l'" "is_leaf s" "addr l' = addr l1" "addr s = a"
      "set (keys l') \<union> set (keys s) = set (keys l1)"
      "\<forall>k \<in> set (keys l'). k < pk" "\<forall>k \<in> set (keys s). pk \<le> k" "pk \<in> set (keys l1)"
      "leaf_entries l' @ leaf_entries s = leaf_entries l1"
      using split_leaf_ok[OF l1(2) l1(5) l1(6) l1(7) len assms(3), of a] by metis
    have res: "insert_into_leaf M n key val a = Some (l', Some (s, pk), Suc a)"
      using l1(1) True sp(1) by (simp add: insert_into_leaf_def)
    have "ins_post M n key l' (Some (s, pk))"
      using sp l1 assms(2) unsafe
      by (auto simp: ins_post_def leaf_keys_sel all_keys_sel)
    moreover have "entries l' @ entries s = upsert (entries n) key val"
      using sp l1 assms(2) by (simp add: ent_leaf)
    ultimately show ?thesis using that[OF res] by simp
  qed
qed

lemma seps_ok_update:
  assumes "seps_ok ks cs" "length cs = Suc (length ks)" "pos \<le> length ks"
    and "leaf_keys c' \<subseteq> insert key (leaf_keys (cs ! pos))"
    and "all_keys c' \<subseteq> insert key (all_keys (cs ! pos))"
    and "\<forall>i < pos. ks ! i \<le> key" "\<forall>i. pos \<le> i \<and> i < length ks \<longrightarrow> key < ks ! i"
  shows "seps_ok ks (cs[pos := c'])"
  unfolding seps_ok_def
proof (intro allI impI)
  fix i assume i: "i < length ks"
  have old: "(\<forall>k \<in> leaf_keys (cs ! i). k < ks ! i) \<and> (\<forall>k \<in> all_keys (cs ! i). k \<le> ks ! i) \<and>
        (\<forall>k \<in> all_keys (cs ! Suc i). ks ! i \<le> k)"
    using assms(1) i by (simp add: seps_ok_def)
  have a: "\<forall>k \<in> leaf_keys (cs[pos := c'] ! i). k < ks ! i"
  proof (cases "i = pos")
    case True
    then have "cs[pos := c'] ! i = c'" using assms(2) i by simp
    moreover have "key < ks ! i" using assms(7) i True by simp
    ultimately show ?thesis using old assms(4) True by auto
  next
    case False
    then show ?thesis using old by simp
  qed
  have b: "\<forall>k \<in> all_keys (cs[pos := c'] ! i). k \<le> ks ! i"
  proof (cases "i = pos")
    case True
    then have "cs[pos := c'] ! i = c'" using assms(2) i by simp
    moreover have "key < ks ! i" using assms(7) i True by simp
    ultimately show ?thesis using old assms(5) True by auto
  next
    case False
    then show ?thesis using old by simp
  qed
  have c: "\<forall>k \<in> all_keys (cs[pos := c'] ! Suc i). ks ! i \<le> k"
  proof (cases "Suc i = pos")
    case True
    then have "cs[pos := c'] ! Suc i = c'" using assms(2) i by simp
    moreover have "ks ! i \<le> key" using assms(6) True by auto
    ultimately show ?thesis using old assms(5) True by auto
  next
    case False
    then show ?thesis using old by simp
  qed
  show "(\<forall>k \<in> leaf_keys (cs[pos := c'] ! i). k < ks ! i) \<and>
        (\<forall>k \<in> all_keys (cs[pos := c'] ! i). k \<le> ks ! i) \<and>
        (\<forall>k \<in> all_keys (cs[pos := c'] ! Suc i). ks ! i \<le> k)"
    using a b c by blast
qed

lemma children_after_split:
  assumes "length cs = Suc (length ks)" "pos \<le> length ks" "i \<le> Suc (length ks)"
  shows "vector_insert (cs[pos := c']) (Suc pos) s ! i =
           (if i < pos then cs ! i else if i = pos then c' else if i = Suc pos then s
            else cs ! (i - 1))"
  using assms by (auto simp: nth_vector_insert nth_list_update)

lemma seps_ok_insert:
  assumes "seps_ok ks cs" "length cs = Suc (length ks)" "pos \<le> length ks"
    and lk: "leaf_keys c' \<union> leaf_keys s \<subseteq> insert key (leaf_keys (cs ! pos))"
    and ak: "all_keys c' \<union> all_keys s \<subseteq> insert key (all_keys (cs ! pos))"
    and c'lt: "\<forall>k \<in> leaf_keys c'. k < pk" and c'le: "\<forall>k \<in> all_keys c'. k \<le> pk"
    and sge: "\<forall>k \<in> all_keys s. pk \<le> k"
    and before: "\<forall>i < pos. ks ! i \<le> key"
    and after: "\<forall>i. pos \<le> i \<and> i < length ks \<longrightarrow> key < ks ! i"
  shows "seps_ok (vector_insert ks pos pk) (vector_insert (cs[pos := c']) (Suc pos) s)"
  unfolding seps_ok_def
proof (intro allI impI)
  let ?ks = "vector_insert ks pos pk"
  let ?cs = "vector_insert (cs[pos := c']) (Suc pos) s"
  fix i assume "i < length ?ks"
  then have i: "i \<le> length ks" by (simp add: length_vector_insert)
  have old: "\<And>j. j < length ks \<Longrightarrow>
        (\<forall>k \<in> leaf_keys (cs ! j). k < ks ! j) \<and> (\<forall>k \<in> all_keys (cs ! j). k \<le> ks ! j) \<and>
        (\<forall>k \<in> all_keys (cs ! Suc j). ks ! j \<le> k)"
    using assms(1) by (simp add: seps_ok_def)
  have kn: "?ks ! i = (if i < pos then ks ! i else if i = pos then pk else ks ! (i - 1))"
    using nth_vector_insert[OF assms(3) i] .
  have cn: "?cs ! i = (if i < pos then cs ! i else if i = pos then c' else if i = Suc pos then s
            else cs ! (i - 1))"
    using children_after_split[OF assms(2,3), of i] i by simp
  have cn': "?cs ! Suc i = (if Suc i < pos then cs ! Suc i else if Suc i = pos then c'
            else if i = pos then s else cs ! i)"
    using children_after_split[OF assms(2,3), of "Suc i"] i by simp
  consider (lt) "Suc i < pos" | (pred) "Suc i = pos" | (eq) "i = pos" | (suc) "i = Suc pos"
    | (gt) "i > Suc pos" by linarith
  then show "(\<forall>k \<in> leaf_keys (?cs ! i). k < ?ks ! i) \<and> (\<forall>k \<in> all_keys (?cs ! i). k \<le> ?ks ! i) \<and>
        (\<forall>k \<in> all_keys (?cs ! Suc i). ?ks ! i \<le> k)"
  proof cases
    case lt
    then have "?ks ! i = ks ! i" "?cs ! i = cs ! i" "?cs ! Suc i = cs ! Suc i" "i < length ks"
      using kn cn cn' assms(3) by auto
    then show ?thesis using old[of i] by simp
  next
    case pred
    then have e: "?ks ! i = ks ! i" "?cs ! i = cs ! i" "?cs ! Suc i = c'" "i < length ks"
      using kn cn cn' assms(3) by auto
    have "ks ! i \<le> key" using before pred by auto
    moreover have "all_keys c' \<subseteq> insert key (all_keys (cs ! Suc i))" using ak pred by auto
    ultimately have "\<forall>k \<in> all_keys c'. ks ! i \<le> k" using old[OF e(4)] by auto
    then show ?thesis using old[OF e(4)] e by simp
  next
    case eq
    then have "?ks ! i = pk" "?cs ! i = c'" "?cs ! Suc i = s"
      using kn cn cn' by auto
    then show ?thesis using c'lt c'le sge by simp
  next
    case suc
    then have p: "pos < length ks" using i by simp
    have e: "?ks ! i = ks ! pos" "?cs ! i = s" "?cs ! Suc i = cs ! Suc pos"
      using kn cn cn' suc by auto
    have "key < ks ! pos" using after p by simp
    moreover have "leaf_keys s \<subseteq> insert key (leaf_keys (cs ! pos))"
      "all_keys s \<subseteq> insert key (all_keys (cs ! pos))" using lk ak by auto
    ultimately have "\<forall>k \<in> leaf_keys s. k < ks ! pos" "\<forall>k \<in> all_keys s. k \<le> ks ! pos"
      using old[OF p] by auto
    then show ?thesis using old[OF p] e by simp
  next
    case gt
    then obtain j where j: "i = Suc j" "j < length ks" "pos < j" using i by (cases i) auto
    then have "?ks ! i = ks ! j" "?cs ! i = cs ! j" "?cs ! Suc i = cs ! Suc j"
      using kn cn cn' by auto
    then show ?thesis using old[OF j(2)] by simp
  qed
qed

lemma sorted_vector_insert:
  assumes "sorted ks" "pos \<le> length ks"
    and "\<forall>i < pos. ks ! i \<le> pk" "\<forall>i. pos \<le> i \<and> i < length ks \<longrightarrow> pk \<le> ks ! i"
  shows "sorted (vector_insert ks pos pk)"
proof -
  have "\<forall>x \<in> set (take pos ks). x \<le> pk"
    using assms(2,3) by (auto simp: in_set_conv_nth)
  moreover have "\<forall>y \<in> set (drop pos ks). pk \<le> y"
    using assms(2,4) by (auto simp: in_set_conv_nth)
  moreover have "\<forall>x \<in> set (take pos ks). \<forall>y \<in> set (drop pos ks). x \<le> y"
    using assms(1) by (metis append_take_drop_id sorted_append)
  ultimately show ?thesis
    using assms(1) by (auto simp: vector_insert_def sorted_append sorted_wrt_take sorted_wrt_drop)
qed

lemma in_set_take_nth: "x \<in> set (take n xs) \<Longrightarrow> \<exists>i. i < n \<and> i < length xs \<and> xs ! i = x"
  by (auto simp: in_set_conv_nth)

lemma in_set_drop_nth: "x \<in> set (drop n xs) \<Longrightarrow> \<exists>i. n \<le> i \<and> i < length xs \<and> xs ! i = x"
proof -
  assume "x \<in> set (drop n xs)"
  then obtain j where "j < length xs - n" "drop n xs ! j = x" by (auto simp: in_set_conv_nth)
  then have "n \<le> n + j \<and> n + j < length xs \<and> xs ! (n + j) = x" by auto
  then show ?thesis by blast
qed

lemma split_internal_ok:
  assumes nl: "\<not> is_leaf g" and srt: "sorted (keys g)"
    and len: "length (children g) = Suc (length (keys g))"
    and ch: "\<forall>c \<in> set (children g). bt_inv M c"
    and seps: "seps_ok (keys g) (children g)"
    and full: "length (keys g) = Suc (MAX_KEYS_INTERNAL M)" and M: "2 \<le> M"
  obtains n' s pk where "split_internal g a = Some (n', s, pk)"
    and "bt_inv M n'" "bt_inv M s" "\<not> is_leaf n'" "\<not> is_leaf s" "addr n' = addr g" "addr s = a"
    and "all_keys n' \<union> all_keys s \<subseteq> all_keys g" "leaf_keys n' \<union> leaf_keys s \<subseteq> leaf_keys g"
    and "\<forall>k \<in> leaf_keys n'. k < pk" "\<forall>k \<in> all_keys n'. k \<le> pk" "\<forall>k \<in> all_keys s. pk \<le> k"
    and "pk \<in> all_keys g" "children n' @ children s = children g"
proof -
  define ks where "ks = keys g"
  define cs where "cs = children g"
  define mid where "mid = length ks div 2"
  have lk: "length ks = M" "length cs = Suc M"
    using full len M by (simp_all add: ks_def cs_def MAX_KEYS_INTERNAL_def)
  have mid: "mid < M" "mid = M div 2" using M lk by (auto simp: mid_def)
  let ?n = "Node (take mid ks) (vals g) (take (mid + 1) cs) (nxt g) (is_leaf g) (addr g)"
  let ?s = "Node (drop (mid + 1) ks) [] (drop (mid + 1) cs) None False a"
  let ?pk = "ks ! mid"
  have sp: "split_internal g a = Some (?n, ?s, ?pk)"
    using mid lk
    by (simp add: split_internal_def Let_def ks_def[symmetric] cs_def[symmetric] mid_def[symmetric])
  have old: "\<And>j. j < M \<Longrightarrow>
        (\<forall>k \<in> leaf_keys (cs ! j). k < ks ! j) \<and> (\<forall>k \<in> all_keys (cs ! j). k \<le> ks ! j) \<and>
        (\<forall>k \<in> all_keys (cs ! Suc j). ks ! j \<le> k)"
    using seps lk by (simp add: seps_ok_def ks_def cs_def)
  have mono: "\<And>i j. i \<le> j \<Longrightarrow> j < M \<Longrightarrow> ks ! i \<le> ks ! j"
    using srt lk by (simp add: sorted_iff_nth_mono ks_def)
  have srt': "sorted ks" using srt by (simp add: ks_def)
  have chn: "\<And>c. c \<in> set cs \<Longrightarrow> bt_inv M c" using ch by (simp add: cs_def)
  have sepn: "seps_ok (take mid ks) (take (mid + 1) cs)"
    unfolding seps_ok_def using old mid by auto
  have seps': "seps_ok (drop (mid + 1) ks) (drop (mid + 1) cs)"
    unfolding seps_ok_def
  proof (intro allI impI)
    fix i assume "i < length (drop (mid + 1) ks)"
    then have i: "mid + 1 + i < M" using lk by simp
    then have "drop (mid + 1) ks ! i = ks ! (mid + 1 + i)"
      "drop (mid + 1) cs ! i = cs ! (mid + 1 + i)"
      "drop (mid + 1) cs ! Suc i = cs ! Suc (mid + 1 + i)"
      using lk by simp_all
    then show "(\<forall>k \<in> leaf_keys (drop (mid + 1) cs ! i). k < drop (mid + 1) ks ! i) \<and>
        (\<forall>k \<in> all_keys (drop (mid + 1) cs ! i). k \<le> drop (mid + 1) ks ! i) \<and>
        (\<forall>k \<in> all_keys (drop (mid + 1) cs ! Suc i). drop (mid + 1) ks ! i \<le> k)"
      using old[OF i] by simp
  qed
  have invn: "bt_inv M ?n"
    using nl srt' lk mid chn sepn
    by (auto simp: MAX_KEYS_INTERNAL_def min_def sorted_wrt_take dest: in_set_takeD)
  have invs: "bt_inv M ?s"
    using srt' lk mid chn seps'
    by (auto simp: MAX_KEYS_INTERNAL_def sorted_wrt_drop dest: in_set_dropD)
  have cat: "take (mid + 1) cs @ drop (mid + 1) cs = cs" by simp
  have sub_all: "all_keys ?n \<union> all_keys ?s \<subseteq> all_keys g"
    using nl by (auto simp: all_keys_sel[of g] ks_def cs_def dest: in_set_takeD in_set_dropD)
  have sub_leaf: "leaf_keys ?n \<union> leaf_keys ?s \<subseteq> leaf_keys g"
    using nl by (auto simp: leaf_keys_sel[of g] cs_def dest: in_set_takeD in_set_dropD)
  have lt: "\<forall>k \<in> leaf_keys ?n. k < ?pk"
  proof
    fix k assume "k \<in> leaf_keys ?n"
    then obtain c where c: "c \<in> set (take (mid + 1) cs)" "k \<in> leaf_keys c" using nl by auto
    then obtain j where j: "j < mid + 1" "cs ! j = c" using in_set_take_nth by metis
    then have "k < ks ! j" using old[of j] mid c by auto
    moreover have "ks ! j \<le> ks ! mid" using mono[of j mid] j mid by simp
    ultimately show "k < ?pk" by simp
  qed
  have le: "\<forall>k \<in> all_keys ?n. k \<le> ?pk"
  proof
    fix k assume "k \<in> all_keys ?n"
    then consider "k \<in> set (take mid ks)"
      | c where "c \<in> set (take (mid + 1) cs)" "k \<in> all_keys c" using nl by auto
    then show "k \<le> ?pk"
    proof cases
      case 1
      then show ?thesis using sorted_take_le[OF srt', of mid k] mid lk by simp
    next
      case 2
      then obtain j where j: "j < mid + 1" "cs ! j = c" using in_set_take_nth by metis
      then have "k \<le> ks ! j" using old[of j] mid 2 by auto
      moreover have "ks ! j \<le> ks ! mid" using mono[of j mid] j mid by simp
      ultimately show ?thesis by simp
    qed
  qed
  have ge: "\<forall>k \<in> all_keys ?s. ?pk \<le> k"
  proof
    fix k assume "k \<in> all_keys ?s"
    then consider "k \<in> set (drop (mid + 1) ks)"
      | c where "c \<in> set (drop (mid + 1) cs)" "k \<in> all_keys c" by auto
    then show "?pk \<le> k"
    proof cases
      case 1
      then show ?thesis using sorted_drop_ge[OF srt', of mid "mid + 1" k] mid lk by simp
    next
      case 2
      then obtain j where j: "mid + 1 \<le> j" "j < length cs" "cs ! j = c"
        using in_set_drop_nth by metis
      then obtain j' where j': "j = Suc j'" "mid \<le> j'" "j' < M" using lk by (cases j) auto
      then have "ks ! j' \<le> k" using old[of j'] j 2 by auto
      moreover have "ks ! mid \<le> ks ! j'" using mono[of mid j'] j' by simp
      ultimately show ?thesis by simp
    qed
  qed
  have pk: "?pk \<in> all_keys g" using mid lk by (simp add: all_keys_sel[of g] ks_def)
  show ?thesis
    using that[OF sp invn invs _ _ _ _ sub_all sub_leaf lt le ge pk] nl cat
    by (simp add: cs_def)
qed

lemma insert_recursive_internal:
  assumes "\<not> is_leaf n" "upper_bound (keys n) key < length (children n)"
    and "insert_recursive M (children n ! upper_bound (keys n) key) key val a = Some (c', sp, a')"
  shows "insert_recursive M n key val a
         = finish_internal M (graft n (upper_bound (keys n) key) c' sp) a'"
  using assms
  by (simp add: insert_recursive.simps[of M n] insert_into_internal.simps[of M n]
      finish_internal_def graft_def Let_def split: option.splits prod.splits)

lemma insert_recursive_leaf:
  "is_leaf n \<Longrightarrow> insert_recursive M n key val a = insert_into_leaf M n key val a"
  by (simp add: insert_recursive.simps[of M n])

lemma graft_ok:
  assumes inv: "bt_inv M n" and nl: "\<not> is_leaf n"
    and pos: "pos = upper_bound (keys n) key"
    and post: "ins_post M (children n ! pos) key c' sp"
  shows "\<not> is_leaf (graft n pos c' sp)" "addr (graft n pos c' sp) = addr n"
    and "sorted (keys (graft n pos c' sp))"
    and "length (children (graft n pos c' sp)) = Suc (length (keys (graft n pos c' sp)))"
    and "\<forall>c \<in> set (children (graft n pos c' sp)). bt_inv M c"
    and "seps_ok (keys (graft n pos c' sp)) (children (graft n pos c' sp))"
    and "length (keys (graft n pos c' sp))
           = (case sp of None \<Rightarrow> length (keys n) | Some x \<Rightarrow> Suc (length (keys n)))"
    and "all_keys (graft n pos c' sp) \<subseteq> insert key (all_keys n)"
    and "leaf_keys (graft n pos c' sp) \<subseteq> insert key (leaf_keys n)"
proof -
  define ks where "ks = keys n"
  define cs where "cs = children n"
  have n: "sorted ks" "length cs = Suc (length ks)" "\<forall>c \<in> set cs. bt_inv M c" "seps_ok ks cs"
    using inv nl by (simp_all add: bt_inv_internal ks_def cs_def)
  have p: "pos \<le> length ks" "pos < length cs"
    using upper_bound_le[of ks key] n(2) by (simp_all add: pos ks_def)
  have before: "\<forall>i < pos. ks ! i \<le> key"
    using upper_bound_before[of _ ks key] by (simp add: pos ks_def)
  have after: "\<forall>i. pos \<le> i \<and> i < length ks \<longrightarrow> key < ks ! i"
    using upper_bound_after[OF n(1), of key] by (simp add: pos ks_def)
  have cin: "cs ! pos \<in> set cs" using p by simp
  have old: "\<And>j. j < length ks \<Longrightarrow>
        (\<forall>k \<in> leaf_keys (cs ! j). k < ks ! j) \<and> (\<forall>k \<in> all_keys (cs ! j). k \<le> ks ! j) \<and>
        (\<forall>k \<in> all_keys (cs ! Suc j). ks ! j \<le> k)"
    using n(4) by (simp add: seps_ok_def)
  have c'inv: "bt_inv M c'" using post by (simp add: ins_post_def)
  have an: "all_keys n = set ks \<union> (\<Union>c \<in> set cs. all_keys c)"
    using nl by (simp add: all_keys_sel[of n] ks_def cs_def)
  have ln: "leaf_keys n = (\<Union>c \<in> set cs. leaf_keys c)"
    using nl by (simp add: leaf_keys_sel[of n] cs_def)
  have upd: "set (cs[pos := c']) \<subseteq> insert c' (set cs)" by (rule set_update_subset_insert)
  show "\<not> is_leaf (graft n pos c' sp)" "addr (graft n pos c' sp) = addr n"
    using nl by (simp_all add: graft_def split: option.splits)
  show "length (keys (graft n pos c' sp))
           = (case sp of None \<Rightarrow> length (keys n) | Some x \<Rightarrow> Suc (length (keys n)))"
    by (simp add: graft_def length_vector_insert split: option.splits)
  show "length (children (graft n pos c' sp)) = Suc (length (keys (graft n pos c' sp)))"
    using n(2) by (simp add: graft_def length_vector_insert ks_def cs_def split: option.splits)
  consider (none) "sp = None" | (some) s pk where "sp = Some (s, pk)" by (cases sp) auto
  then have "sorted (keys (graft n pos c' sp)) \<and>
       (\<forall>c \<in> set (children (graft n pos c' sp)). bt_inv M c) \<and>
       seps_ok (keys (graft n pos c' sp)) (children (graft n pos c' sp)) \<and>
       all_keys (graft n pos c' sp) \<subseteq> insert key (all_keys n) \<and>
       leaf_keys (graft n pos c' sp) \<subseteq> insert key (leaf_keys n)"
  proof cases
    case none
    then have g: "graft n pos c' sp = Node ks (vals n) (cs[pos := c']) (nxt n) (is_leaf n) (addr n)"
      by (simp add: graft_def ks_def cs_def)
    have sub: "all_keys c' \<subseteq> insert key (all_keys (cs ! pos))"
      "leaf_keys c' \<subseteq> insert key (leaf_keys (cs ! pos))"
      using post none by (simp_all add: ins_post_def cs_def)
    have s1: "seps_ok ks (cs[pos := c'])"
      using seps_ok_update[OF n(4) n(2) p(1) sub(2) sub(1) before after] .
    have s2: "\<forall>c \<in> set (cs[pos := c']). bt_inv M c" using upd n(3) c'inv by auto
    have s3: "(\<Union>c \<in> set (cs[pos := c']). all_keys c) \<subseteq> insert key (\<Union>c \<in> set cs. all_keys c)"
      using upd sub(1) cin by fastforce
    have s4: "(\<Union>c \<in> set (cs[pos := c']). leaf_keys c) \<subseteq> insert key (\<Union>c \<in> set cs. leaf_keys c)"
      using upd sub(2) cin by fastforce
    show ?thesis unfolding g using n(1) s1 s2 s3 s4 nl an ln by auto
  next
    case some
    let ?ks = "vector_insert ks pos pk"
    let ?cs = "vector_insert (cs[pos := c']) (Suc pos) s"
    have g: "graft n pos c' sp = Node ?ks (vals n) ?cs (nxt n) (is_leaf n) (addr n)"
      using some by (simp add: graft_def ks_def cs_def)
    have pst: "bt_inv M s"
      "all_keys c' \<union> all_keys s \<subseteq> insert key (all_keys (cs ! pos))"
      "leaf_keys c' \<union> leaf_keys s \<subseteq> insert key (leaf_keys (cs ! pos))"
      "\<forall>k \<in> leaf_keys c'. k < pk" "\<forall>k \<in> all_keys c'. k \<le> pk" "\<forall>k \<in> all_keys s. pk \<le> k"
      "pk \<in> insert key (all_keys (cs ! pos))"
      using post some by (simp_all add: ins_post_def cs_def)
    have s1: "seps_ok ?ks ?cs"
      using seps_ok_insert[OF n(4) n(2) p(1) pst(3) pst(2) pst(4) pst(5) pst(6) before after] .
    have setcs: "set ?cs \<subseteq> insert s (insert c' (set cs))"
      using upd set_vector_insert[of "Suc pos" "cs[pos := c']" s] p by auto
    have s2: "\<forall>c \<in> set ?cs. bt_inv M c" using setcs n(3) c'inv pst(1) by auto
    have pk_lo: "\<forall>i < pos. ks ! i \<le> pk"
    proof (intro allI impI)
      fix i assume i: "i < pos"
      show "ks ! i \<le> pk"
      proof (cases "pk = key")
        case True
        then show ?thesis using before i by simp
      next
        case False
        then have m: "pk \<in> all_keys (cs ! pos)" using pst(7) by simp
        obtain q where q: "pos = Suc q" using i by (cases pos) auto
        then have "ks ! q \<le> pk" using old[of q] p m by auto
        moreover have "ks ! i \<le> ks ! q" using n(1) i q p by (simp add: sorted_iff_nth_mono)
        ultimately show ?thesis by simp
      qed
    qed
    have pk_hi: "\<forall>i. pos \<le> i \<and> i < length ks \<longrightarrow> pk \<le> ks ! i"
    proof (intro allI impI)
      fix i assume i: "pos \<le> i \<and> i < length ks"
      show "pk \<le> ks ! i"
      proof (cases "pk = key")
        case True
        then show ?thesis using after i by auto
      next
        case False
        then have m: "pk \<in> all_keys (cs ! pos)" using pst(7) by simp
        then have "pk \<le> ks ! pos" using old[of pos] i by auto
        moreover have "ks ! pos \<le> ks ! i" using n(1) i by (simp add: sorted_iff_nth_mono)
        ultimately show ?thesis by simp
      qed
    qed
    have s0: "sorted ?ks" using sorted_vector_insert[OF n(1) p(1) pk_lo pk_hi] .
    have pkin: "pk \<in> insert key (all_keys n)" using pst(7) cin an by auto
    have s3: "set ?ks \<subseteq> insert key (all_keys n)"
      using set_vector_insert[OF p(1), of pk] pkin an by auto
    have ca: "\<And>c. c \<in> set cs \<Longrightarrow> all_keys c \<subseteq> all_keys n" using an by auto
    have cl: "\<And>c. c \<in> set cs \<Longrightarrow> leaf_keys c \<subseteq> leaf_keys n" using ln by auto
    have s4: "(\<Union>c \<in> set ?cs. all_keys c) \<subseteq> insert key (all_keys n)"
    proof
      fix k assume "k \<in> (\<Union>c \<in> set ?cs. all_keys c)"
      then obtain c where c: "c \<in> set ?cs" "k \<in> all_keys c" by blast
      then consider "c = s" | "c = c'" | "c \<in> set cs" using setcs by blast
      then show "k \<in> insert key (all_keys n)"
      proof cases
        case 1
        then have "k \<in> insert key (all_keys (cs ! pos))" using c pst(2) by blast
        then show ?thesis using ca[OF cin] by blast
      next
        case 2
        then have "k \<in> insert key (all_keys (cs ! pos))" using c pst(2) by blast
        then show ?thesis using ca[OF cin] by blast
      next
        case 3
        then show ?thesis using ca c by blast
      qed
    qed
    have s5: "(\<Union>c \<in> set ?cs. leaf_keys c) \<subseteq> insert key (leaf_keys n)"
    proof
      fix k assume "k \<in> (\<Union>c \<in> set ?cs. leaf_keys c)"
      then obtain c where c: "c \<in> set ?cs" "k \<in> leaf_keys c" by blast
      then consider "c = s" | "c = c'" | "c \<in> set cs" using setcs by blast
      then show "k \<in> insert key (leaf_keys n)"
      proof cases
        case 1
        then have "k \<in> insert key (leaf_keys (cs ! pos))" using c pst(3) by blast
        then show ?thesis using cl[OF cin] by blast
      next
        case 2
        then have "k \<in> insert key (leaf_keys (cs ! pos))" using c pst(3) by blast
        then show ?thesis using cl[OF cin] by blast
      next
        case 3
        then show ?thesis using cl c by blast
      qed
    qed
    show ?thesis unfolding g using s0 s1 s2 s3 s4 s5 nl by auto
  qed
  then show "sorted (keys (graft n pos c' sp))"
    "\<forall>c \<in> set (children (graft n pos c' sp)). bt_inv M c"
    "seps_ok (keys (graft n pos c' sp)) (children (graft n pos c' sp))"
    "all_keys (graft n pos c' sp) \<subseteq> insert key (all_keys n)"
    "leaf_keys (graft n pos c' sp) \<subseteq> insert key (leaf_keys n)"
    by blast+
qed

lemma finish_internal_ok:
  assumes inv: "bt_inv M n" and nl: "\<not> is_leaf n" and M: "2 \<le> M"
    and pos: "pos = upper_bound (keys n) key"
    and post: "ins_post M (children n ! pos) key c' sp"
  shows "\<exists>n' sp' a''. finish_internal M (graft n pos c' sp) a' = Some (n', sp', a'') \<and>
           ins_post M n key n' sp' \<and>
           (sp' = None \<longrightarrow> n' = graft n pos c' sp \<and> a'' = a') \<and>
           (\<forall>s pk. sp' = Some (s, pk) \<longrightarrow>
              split_internal (graft n pos c' sp) a' = Some (n', s, pk) \<and> a'' = Suc a')"
proof -
  let ?g = "graft n pos c' sp"
  note g = graft_ok[OF inv nl pos post]
  have nlen: "length (keys n) \<le> MAX_KEYS_INTERNAL M" using inv nl by (simp add: bt_inv_internal)
  have glen: "length (keys ?g) \<le> Suc (MAX_KEYS_INTERNAL M)"
    using g(7) nlen by (auto split: option.splits)
  have safe: "is_safe_for_insert M n \<Longrightarrow> length (keys ?g) \<le> MAX_KEYS_INTERNAL M"
    using g(7) nl by (auto simp: is_safe_for_insert_def split: option.splits)
  show ?thesis
  proof (cases "length (keys ?g) > MAX_KEYS_INTERNAL M")
    case False
    have res: "finish_internal M ?g a' = Some (?g, None, a')"
      using False by (simp add: finish_internal_def)
    have "bt_inv M ?g" using g False by (simp add: bt_inv_internal)
    then have "ins_post M n key ?g None"
      using g nl by (simp add: ins_post_def)
    then show ?thesis using res by simp
  next
    case True
    then have full: "length (keys ?g) = Suc (MAX_KEYS_INTERNAL M)" using glen by simp
    obtain n' s pk where sp: "split_internal ?g a' = Some (n', s, pk)"
      "bt_inv M n'" "bt_inv M s" "\<not> is_leaf n'" "\<not> is_leaf s" "addr n' = addr ?g" "addr s = a'"
      "all_keys n' \<union> all_keys s \<subseteq> all_keys ?g" "leaf_keys n' \<union> leaf_keys s \<subseteq> leaf_keys ?g"
      "\<forall>k \<in> leaf_keys n'. k < pk" "\<forall>k \<in> all_keys n'. k \<le> pk" "\<forall>k \<in> all_keys s. pk \<le> k"
      "pk \<in> all_keys ?g"
      using split_internal_ok[OF g(1) g(3) g(4) g(5) g(6) full M, of a'] by metis
    have res: "finish_internal M ?g a' = Some (n', Some (s, pk), Suc a')"
      using True sp(1) by (simp add: finish_internal_def)
    have unsafe: "\<not> is_safe_for_insert M n" using safe True by auto
    have "all_keys n' \<union> all_keys s \<subseteq> insert key (all_keys n)"
      "leaf_keys n' \<union> leaf_keys s \<subseteq> insert key (leaf_keys n)"
      "pk \<in> insert key (all_keys n)"
      using sp(8,9,13) g(8,9) by blast+
    then have "ins_post M n key n' (Some (s, pk))"
      using sp g(1,2) nl unsafe by (simp add: ins_post_def)
    then show ?thesis using res sp(1) by simp
  qed
qed

lemma insert_recursive_ok:
  assumes "bt_inv M n" "2 \<le> M"
  shows "\<exists>n' sp a'. insert_recursive M n key val a = Some (n', sp, a') \<and> ins_post M n key n' sp"
  using assms(1)
proof (induction n arbitrary: a)
  case (Node ks vs cs nx lf ad)
  let ?n = "Node ks vs cs nx lf ad"
  show ?case
  proof (cases lf)
    case True
    have M1: "1 \<le> M" using assms(2) by simp
    have lf': "is_leaf ?n" using True by simp
    obtain n' sp a' where "insert_into_leaf M ?n key val a = Some (n', sp, a')"
      "ins_post M ?n key n' sp"
      using insert_into_leaf_ok[OF Node.prems lf' M1, of key val a] by metis
    then show ?thesis using True by (auto simp: insert_recursive_leaf)
  next
    case False
    let ?pos = "upper_bound ks key"
    have len: "length cs = Suc (length ks)" "\<forall>c \<in> set cs. bt_inv M c"
      using Node.prems False by simp_all
    have p: "?pos < length cs" using upper_bound_le[of ks key] len by simp
    then have cin: "cs ! ?pos \<in> set cs" by simp
    obtain c' sp a' where rec: "insert_recursive M (cs ! ?pos) key val a = Some (c', sp, a')"
      "ins_post M (cs ! ?pos) key c' sp"
      using Node.IH[OF cin, of a] len cin by blast
    have eq: "insert_recursive M ?n key val a = finish_internal M (graft ?n ?pos c' sp) a'"
      using insert_recursive_internal[of ?n key M val a c' sp a'] False p rec(1) by simp
    have nl: "\<not> is_leaf ?n" using False by simp
    have pos': "?pos = upper_bound (keys ?n) key" by simp
    have post': "ins_post M (children ?n ! ?pos) key c' sp" using rec(2) by simp
    obtain n' sp' a'' where "finish_internal M (graft ?n ?pos c' sp) a' = Some (n', sp', a'')"
      "ins_post M ?n key n' sp'"
      using finish_internal_ok[OF Node.prems nl assms(2) pos' post', of a'] by blast
    then show ?thesis using eq by auto
  qed
qed

subsection \<open>The effect of insertion on the ordered contents\<close>

lemma entries_leaf: "is_leaf n \<Longrightarrow> entries n = leaf_entries n"
  by (cases n) (simp add: entries_def)

lemma leaves_internal: "\<not> is_leaf n \<Longrightarrow> leaves n = concat (map leaves (children n))"
  by (cases n) simp

lemma entries_internal: "\<not> is_leaf n \<Longrightarrow> entries n = concat (map entries (children n))"
proof -
  have "concat (map leaf_entries (concat (map leaves cs))) = concat (map entries cs)"
    for cs :: "('a, 'b) node list"
    by (induction cs) (simp_all add: entries_def)
  then show "\<not> is_leaf n \<Longrightarrow> entries n = concat (map entries (children n))"
    by (simp add: entries_def[of n] leaves_internal)
qed

lemma entries_keys_subset: "fst ` set (entries n) \<subseteq> leaf_keys n"
proof (induction n)
  case (Node ks vs cs nx lf a)
  show ?case
  proof (cases lf)
    case True
    then show ?thesis by (auto simp: entries_def leaf_entries_def dest: set_zip_leftD)
  next
    case False
    then have "entries (Node ks vs cs nx lf a) = concat (map entries cs)"
      using entries_internal[of "Node ks vs cs nx lf a"] by simp
    then show ?thesis using Node False by fastforce
  qed
qed

lemma upsert_append_left:
  "\<forall>x \<in> set A. fst x < k \<Longrightarrow> upsert (A @ B) k v = A @ upsert B k v"
  by (induction A) auto

lemma upsert_append_right:
  "\<forall>x \<in> set C. k < fst x \<Longrightarrow> upsert (B @ C) k v = upsert B k v @ C"
proof (induction B)
  case Nil
  then show ?case by (cases C) auto
next
  case (Cons b B)
  then show ?case by (cases b) auto
qed

lemma children_split_at:
  "pos < length cs \<Longrightarrow> cs = take pos cs @ cs ! pos # drop (Suc pos) cs"
  by (rule id_take_nth_drop)

lemma graft_children:
  assumes "pos < length (children n)"
  shows "children (graft n pos c' sp) =
           take pos (children n) @ c' # (case sp of None \<Rightarrow> [] | Some (s, pk) \<Rightarrow> [s]) @
           drop (Suc pos) (children n)"
proof (cases sp)
  case None
  then show ?thesis using assms by (simp add: graft_def upd_conv_take_nth_drop)
next
  case (Some x)
  obtain s pk where x: "x = (s, pk)" by (cases x)
  have "take (Suc pos) ((children n)[pos := c']) = take pos (children n) @ [c']"
    using assms by (simp add: take_Suc_conv_app_nth)
  then show ?thesis using Some x assms by (simp add: graft_def vector_insert_def)
qed

lemma graft_entries:
  assumes inv: "bt_inv M n" and nl: "\<not> is_leaf n"
    and pos: "pos = upper_bound (keys n) key"
    and rec: "entries c' @ (case sp of None \<Rightarrow> [] | Some (s, pk) \<Rightarrow> entries s)
                = upsert (entries (children n ! pos)) key val"
  shows "entries (graft n pos c' sp) = upsert (entries n) key val"
proof -
  define ks where "ks = keys n"
  define cs where "cs = children n"
  have n: "sorted ks" "length cs = Suc (length ks)" "seps_ok ks cs"
    using inv nl by (simp_all add: bt_inv_internal ks_def cs_def)
  have p: "pos \<le> length ks" "pos < length cs"
    using upper_bound_le[of ks key] n(2) by (simp_all add: pos ks_def)
  have old: "\<And>j. j < length ks \<Longrightarrow>
        (\<forall>k \<in> leaf_keys (cs ! j). k < ks ! j) \<and> (\<forall>k \<in> all_keys (cs ! j). k \<le> ks ! j) \<and>
        (\<forall>k \<in> all_keys (cs ! Suc j). ks ! j \<le> k)"
    using n(3) by (simp add: seps_ok_def)
  define A where "A = concat (map entries (take pos cs))"
  define C where "C = concat (map entries (drop (Suc pos) cs))"
  have A: "\<forall>x \<in> set A. fst x < key"
  proof
    fix x assume "x \<in> set A"
    then obtain c where c: "c \<in> set (take pos cs)" "x \<in> set (entries c)" by (auto simp: A_def)
    then obtain j where j: "j < pos" "j < length cs" "cs ! j = c" using in_set_take_nth by metis
    have "fst x \<in> leaf_keys (cs ! j)" using c j entries_keys_subset[of c] by auto
    then have "fst x < ks ! j" using old[of j] j p by auto
    moreover have "ks ! j \<le> key" using upper_bound_before[of j ks key] j by (simp add: pos ks_def)
    ultimately show "fst x < key" by simp
  qed
  have C: "\<forall>x \<in> set C. key < fst x"
  proof
    fix x assume "x \<in> set C"
    then obtain c where c: "c \<in> set (drop (Suc pos) cs)" "x \<in> set (entries c)"
      by (auto simp: C_def)
    then obtain j where j: "Suc pos \<le> j" "j < length cs" "cs ! j = c"
      using in_set_drop_nth by metis
    then obtain j' where j': "j = Suc j'" "pos \<le> j'" "j' < length ks" using n(2) by (cases j) auto
    have "fst x \<in> all_keys (cs ! Suc j')"
      using c j j' entries_keys_subset[of c] leaf_keys_subset_all_keys[of c] by auto
    then have "ks ! j' \<le> fst x" using old[of j'] j' by auto
    moreover have "key < ks ! j'"
      using upper_bound_after[OF n(1), of key j'] j' by (simp add: pos ks_def)
    ultimately show "key < fst x" by simp
  qed
  have en: "entries n = A @ entries (cs ! pos) @ C"
  proof -
    have "concat (map entries cs)
        = concat (map entries (take pos cs @ cs ! pos # drop (Suc pos) cs))"
      using children_split_at[OF p(2)] by simp
    then show ?thesis using nl by (simp add: entries_internal[of n] cs_def[symmetric] A_def C_def)
  qed
  have gl: "\<not> is_leaf (graft n pos c' sp)" using nl by (simp add: graft_def split: option.splits)
  have "entries (graft n pos c' sp)
      = A @ (entries c' @ (case sp of None \<Rightarrow> [] | Some (s, pk) \<Rightarrow> entries s)) @ C"
    using graft_children[of pos n c' sp] p
    by (simp add: entries_internal[OF gl] cs_def[symmetric] A_def C_def split: option.splits)
  also have "\<dots> = A @ upsert (entries (cs ! pos)) key val @ C" using rec by (simp add: cs_def)
  also have "\<dots> = upsert (A @ entries (cs ! pos) @ C) key val"
    using upsert_append_left[OF A] upsert_append_right[OF C] by simp
  finally show ?thesis using en by simp
qed

lemma split_internal_entries:
  assumes "split_internal g a = Some (n', s, pk)" "\<not> is_leaf g"
  shows "\<not> is_leaf n'" "\<not> is_leaf s" "children n' @ children s = children g"
    and "addr n' = addr g" "addr s = a"
  using assms by (auto simp: split_internal_def Let_def split: if_splits)

lemma insert_recursive_entries:
  assumes "bt_inv M n" "2 \<le> M" "insert_recursive M n key val a = Some (n', sp, a')"
  shows "entries n' @ (case sp of None \<Rightarrow> [] | Some (s, pk) \<Rightarrow> entries s)
           = upsert (entries n) key val"
  using assms(1,3)
proof (induction n arbitrary: a n' sp a')
  case (Node ks vs cs nx lf ad)
  let ?n = "Node ks vs cs nx lf ad"
  show ?case
  proof (cases lf)
    case True
    have M1: "1 \<le> M" using assms(2) by simp
    have lf': "is_leaf ?n" using True by simp
    obtain m sq b where "insert_into_leaf M ?n key val a = Some (m, sq, b)"
      "entries m @ (case sq of None \<Rightarrow> [] | Some (s, pk) \<Rightarrow> entries s) = upsert (entries ?n) key val"
      using insert_into_leaf_ok[OF Node.prems(1) lf' M1, of key val a] by metis
    then show ?thesis using Node.prems(2) True by (simp add: insert_recursive_leaf)
  next
    case False
    let ?pos = "upper_bound ks key"
    have nl: "\<not> is_leaf ?n" using False by simp
    have len: "length cs = Suc (length ks)" "\<forall>c \<in> set cs. bt_inv M c"
      using Node.prems False by simp_all
    have p: "?pos < length cs" using upper_bound_le[of ks key] len by simp
    then have cin: "cs ! ?pos \<in> set cs" by simp
    obtain c' spc ac where rec: "insert_recursive M (cs ! ?pos) key val a = Some (c', spc, ac)"
      "ins_post M (cs ! ?pos) key c' spc"
      using insert_recursive_ok[of M "cs ! ?pos" key val a] len cin assms(2) by blast
    have ih: "entries c' @ (case spc of None \<Rightarrow> [] | Some (s, pk) \<Rightarrow> entries s)
           = upsert (entries (cs ! ?pos)) key val"
      using Node.IH[OF cin _ rec(1)] len cin by simp
    let ?g = "graft ?n ?pos c' spc"
    have eq: "insert_recursive M ?n key val a = finish_internal M ?g ac"
      using insert_recursive_internal[of ?n key M val a c' spc ac] False p rec(1) by simp
    have ge: "entries ?g = upsert (entries ?n) key val"
      using graft_entries[OF Node.prems(1) nl, of ?pos key c' spc val] ih by simp
    have gl: "\<not> is_leaf ?g" using nl by (simp add: graft_def split: option.splits)
    have fin: "finish_internal M ?g ac = Some (n', sp, a')" using eq Node.prems(2) by simp
    show ?thesis
    proof (cases sp)
      case None
      then have "n' = ?g" using fin by (auto simp: finish_internal_def split: if_splits option.splits)
      then show ?thesis using ge None by simp
    next
      case (Some x)
      obtain s pk where x: "x = (s, pk)" by (cases x)
      have "split_internal ?g ac = Some (n', s, pk)"
        using fin Some x by (auto simp: finish_internal_def split: if_splits option.splits)
      from split_internal_entries[OF this gl]
      have si: "\<not> is_leaf n'" "\<not> is_leaf s" "children n' @ children s = children ?g"
        by simp_all
      have "entries n' @ entries s = concat (map entries (children n' @ children s))"
        using si(1,2) by (simp add: entries_internal)
      also have "\<dots> = entries ?g" unfolding si(3) using entries_internal[OF gl] by simp
      finally show ?thesis using ge Some x by simp
    qed
  qed
qed

subsection \<open>Insertion keeps addresses distinct and the leaf chain linked\<close>

lemma addrs_sel: "addrs n = addr n # concat (map addrs (children n))"
proof (cases n)
  case (Node ks vs cs nx lf a)
  have "map addr (concat (map nodes_of cs)) = concat (map addrs cs)"
    by (induction cs) (simp_all add: addrs_def)
  then show ?thesis using Node by (simp add: addrs_def)
qed

lemma mset_addrs_split:
  assumes "pos < length cs"
  shows "mset (concat (map addrs cs))
       = mset (concat (map addrs (take pos cs))) + mset (addrs (cs ! pos))
         + mset (concat (map addrs (drop (Suc pos) cs)))"
proof -
  have "mset (concat (map addrs cs))
      = mset (concat (map addrs (take pos cs @ cs ! pos # drop (Suc pos) cs)))"
    using children_split_at[OF assms] by simp
  then show ?thesis by simp
qed

lemma graft_addrs:
  assumes "pos < length (children n)"
    and "mset (addrs c' @ (case sp of None \<Rightarrow> [] | Some (s, pk) \<Rightarrow> addrs s))
           = mset (addrs (children n ! pos)) + mset [a..<a']"
  shows "mset (addrs (graft n pos c' sp)) = mset (addrs n) + mset [a..<a']"
proof -
  have ad: "addr (graft n pos c' sp) = addr n" by (simp add: graft_def split: option.splits)
  have "mset (concat (map addrs (children (graft n pos c' sp))))
      = mset (concat (map addrs (take pos (children n))))
        + mset (addrs c' @ (case sp of None \<Rightarrow> [] | Some (s, pk) \<Rightarrow> addrs s))
        + mset (concat (map addrs (drop (Suc pos) (children n))))"
    using graft_children[OF assms(1), of c' sp] by (simp split: option.splits)
  then show ?thesis
    using mset_addrs_split[OF assms(1)] assms(2) ad
    by (simp add: addrs_sel[of n] addrs_sel[of "graft n pos c' sp"])
qed

lemma split_internal_addrs:
  assumes "split_internal g a = Some (n', s, pk)" "\<not> is_leaf g"
  shows "mset (addrs n' @ addrs s) = mset (addrs g) + {#a#}"
proof -
  from split_internal_entries[OF assms]
  have si: "children n' @ children s = children g" "addr n' = addr g" "addr s = a" by simp_all
  have "mset (concat (map addrs (children n'))) + mset (concat (map addrs (children s)))
      = mset (concat (map addrs (children n' @ children s)))" by simp
  then show ?thesis
    unfolding si(1) using si(2,3)
    by (simp add: addrs_sel[of n'] addrs_sel[of s] addrs_sel[of g])
qed

lemma insert_into_leaf_addrs:
  assumes "insert_into_leaf M n key val a = Some (n', sp, a')" "children n = []"
  shows "addrs n' = [addr n] \<and>
         (case sp of None \<Rightarrow> a' = a | Some (s, pk) \<Rightarrow> addrs s = [a] \<and> a' = Suc a)"
proof -
  obtain l1 where l1: "put_in_leaf n key val = Some l1"
    using assms(1) by (auto simp: insert_into_leaf_def split: option.splits)
  then have l1': "addr l1 = addr n" "children l1 = []"
    using assms(2) by (auto simp: put_in_leaf_def Let_def split: if_splits)
  show ?thesis
  proof (cases "length (keys l1) > MAX_KEYS_LEAF M")
    case False
    then have "n' = l1" "sp = None" "a' = a"
      using assms(1) l1 by (simp_all add: insert_into_leaf_def)
    then show ?thesis using l1' by (simp add: addrs_sel[of l1])
  next
    case True
    then obtain l' s pk where sp: "split_leaf l1 a = Some (l', s, pk)"
      "n' = l'" "sp = Some (s, pk)" "a' = Suc a"
      using assms(1) l1 by (auto simp: insert_into_leaf_def split: option.splits)
    then have "addr l' = addr l1" "children l' = []" "addr s = a" "children s = []"
      using l1' by (auto simp: split_leaf_def Let_def split: if_splits)
    then show ?thesis using sp l1' by (simp add: addrs_sel[of l'] addrs_sel[of s])
  qed
qed

lemma insert_recursive_addrs:
  assumes "bt_inv M n" "2 \<le> M" "insert_recursive M n key val a = Some (n', sp, a')"
  shows "a \<le> a' \<and>
         mset (addrs n' @ (case sp of None \<Rightarrow> [] | Some (s, pk) \<Rightarrow> addrs s))
           = mset (addrs n) + mset [a..<a']"
  using assms(1,3)
proof (induction n arbitrary: a n' sp a')
  case (Node ks vs cs nx lf ad)
  let ?n = "Node ks vs cs nx lf ad"
  show ?case
  proof (cases lf)
    case True
    have cs: "children ?n = []" using Node.prems(1) True by simp
    have res: "insert_into_leaf M ?n key val a = Some (n', sp, a')"
      using Node.prems(2) True by (simp add: insert_recursive_leaf)
    have an: "addrs ?n = [ad]" using cs by (simp add: addrs_def)
    from insert_into_leaf_addrs[OF res cs] an show ?thesis
      by (auto split: option.splits)
  next
    case False
    let ?pos = "upper_bound ks key"
    have nl: "\<not> is_leaf ?n" using False by simp
    have len: "length cs = Suc (length ks)" "\<forall>c \<in> set cs. bt_inv M c"
      using Node.prems False by simp_all
    have p: "?pos < length cs" using upper_bound_le[of ks key] len by simp
    then have cin: "cs ! ?pos \<in> set cs" by simp
    obtain c' spc ac where rec: "insert_recursive M (cs ! ?pos) key val a = Some (c', spc, ac)"
      using insert_recursive_ok[of M "cs ! ?pos" key val a] len cin assms(2) by blast
    have ih: "a \<le> ac" "mset (addrs c' @ (case spc of None \<Rightarrow> [] | Some (s, pk) \<Rightarrow> addrs s))
           = mset (addrs (cs ! ?pos)) + mset [a..<ac]"
      using Node.IH[OF cin _ rec] len cin by simp_all
    let ?g = "graft ?n ?pos c' spc"
    have eq: "insert_recursive M ?n key val a = finish_internal M ?g ac"
      using insert_recursive_internal[of ?n key M val a c' spc ac] False p rec by simp
    have ga: "mset (addrs ?g) = mset (addrs ?n) + mset [a..<ac]"
      using graft_addrs[of ?pos ?n c' spc a ac] p ih(2) by simp
    have gl: "\<not> is_leaf ?g" using nl by (simp add: graft_def split: option.splits)
    have fin: "finish_internal M ?g ac = Some (n', sp, a')" using eq Node.prems(2) by simp
    show ?thesis
    proof (cases sp)
      case None
      then have "n' = ?g" "a' = ac"
        using fin by (auto simp: finish_internal_def split: if_splits option.splits)
      then show ?thesis using ga ih(1) None by simp
    next
      case (Some x)
      obtain s pk where x: "x = (s, pk)" by (cases x)
      have "split_internal ?g ac = Some (n', s, pk)" "a' = Suc ac"
        using fin Some x by (auto simp: finish_internal_def split: if_splits option.splits)
      moreover from split_internal_addrs[OF this(1) gl]
      have "mset (addrs n' @ addrs s) = mset (addrs ?g) + {#ac#}" .
      moreover have "mset [a..<Suc ac] = mset [a..<ac] + {#ac#}" using ih(1) by simp
      ultimately show ?thesis using ga ih(1) Some x by simp
    qed
  qed
qed

lemma chain_ok_append:
  "chain_ok (A @ B) fin
     = (chain_ok A (case B of [] \<Rightarrow> fin | b # bs \<Rightarrow> Some (addr b)) \<and> chain_ok B fin)"
proof (induction A)
  case Nil
  then show ?case by simp
next
  case (Cons x A)
  show ?case
  proof (cases A)
    case Nil
    then show ?thesis by (cases B) auto
  next
    case (Cons y A')
    then show ?thesis using Cons.IH by simp
  qed
qed

lemma leaves_nonempty: "bt_inv M n \<Longrightarrow> leaves n \<noteq> []"
proof (induction n)
  case (Node ks vs cs nx lf a)
  show ?case
  proof (cases lf)
    case True
    then show ?thesis by simp
  next
    case False
    then have "cs \<noteq> []" "\<forall>c \<in> set cs. bt_inv M c" using Node.prems by auto
    then obtain c where "c \<in> set cs" "leaves c \<noteq> []" using Node.IH by (cases cs) auto
    then show ?thesis using False by auto
  qed
qed

lemma chain_ok_replace:
  assumes "chain_ok (A @ B @ C) fin" "B \<noteq> []" "B' \<noteq> []" "addr (hd B') = addr (hd B)"
    and "chain_ok B (case C of [] \<Rightarrow> fin | c # cs \<Rightarrow> Some (addr c)) \<Longrightarrow>
         chain_ok B' (case C of [] \<Rightarrow> fin | c # cs \<Rightarrow> Some (addr c))"
  shows "chain_ok (A @ B' @ C) fin"
proof -
  obtain b bs where B: "B = b # bs" using assms(2) by (cases B) auto
  obtain b' bs' where B': "B' = b' # bs'" using assms(3) by (cases B') auto
  have 1: "chain_ok A (Some (addr b))" "chain_ok (B @ C) fin"
    using assms(1) B chain_ok_append[of A "B @ C" fin] by simp_all
  have 2: "chain_ok B (case C of [] \<Rightarrow> fin | c # cs \<Rightarrow> Some (addr c))" "chain_ok C fin"
    using 1(2) chain_ok_append[of B C fin] by simp_all
  have 3: "chain_ok (B' @ C) fin"
    using assms(5)[OF 2(1)] 2(2) chain_ok_append[of B' C fin] by simp
  show ?thesis
    using 1(1) 3 assms(4) B B' chain_ok_append[of A "B' @ C" fin] by simp
qed

lemma leaves_leaf: "is_leaf n \<Longrightarrow> leaves n = [n]"
  by (cases n) simp

lemma insert_into_leaf_chain:
  assumes "insert_into_leaf M n key val a = Some (n', sp, a')" "is_leaf n"
  shows "is_leaf n' \<and> addr n' = addr n \<and>
         (case sp of None \<Rightarrow> nxt n' = nxt n
          | Some (s, pk) \<Rightarrow> is_leaf s \<and> nxt n' = Some (addr s) \<and> nxt s = nxt n)"
proof -
  obtain l1 where l1: "put_in_leaf n key val = Some l1"
    using assms(1) by (auto simp: insert_into_leaf_def split: option.splits)
  then have l1': "addr l1 = addr n" "is_leaf l1" "nxt l1 = nxt n"
    using assms(2) by (auto simp: put_in_leaf_def Let_def split: if_splits)
  show ?thesis
  proof (cases "length (keys l1) > MAX_KEYS_LEAF M")
    case False
    then have "n' = l1" "sp = None"
      using assms(1) l1 by (simp_all add: insert_into_leaf_def)
    then show ?thesis using l1' by simp
  next
    case True
    then obtain l' s pk where sp: "split_leaf l1 a = Some (l', s, pk)"
      "n' = l'" "sp = Some (s, pk)"
      using assms(1) l1 by (auto simp: insert_into_leaf_def split: option.splits)
    then have "addr l' = addr l1" "is_leaf l'" "is_leaf s" "nxt l' = Some (addr s)"
      "nxt s = nxt l1"
      using l1' by (auto simp: split_leaf_def Let_def split: if_splits)
    then show ?thesis using sp l1' by simp
  qed
qed

lemma graft_leaves:
  assumes "pos < length (children n)" "\<not> is_leaf n"
  shows "leaves (graft n pos c' sp) =
           concat (map leaves (take pos (children n))) @
           (leaves c' @ (case sp of None \<Rightarrow> [] | Some (s, pk) \<Rightarrow> leaves s)) @
           concat (map leaves (drop (Suc pos) (children n)))"
proof -
  have gl: "\<not> is_leaf (graft n pos c' sp)"
    using assms(2) by (simp add: graft_def split: option.splits)
  show ?thesis
    using graft_children[OF assms(1), of c' sp]
    by (simp add: leaves_internal[OF gl] split: option.splits)
qed

lemma leaves_split_at:
  assumes "pos < length (children n)" "\<not> is_leaf n"
  shows "leaves n = concat (map leaves (take pos (children n))) @ leaves (children n ! pos) @
           concat (map leaves (drop (Suc pos) (children n)))"
proof -
  have "concat (map leaves (children n))
      = concat (map leaves (take pos (children n) @ children n ! pos #
                            drop (Suc pos) (children n)))"
    using children_split_at[OF assms(1)] by simp
  then show ?thesis using assms(2) by (simp add: leaves_internal)
qed

lemma hd_append_same:
  assumes "B \<noteq> []" "B' \<noteq> []" "addr (hd B') = addr (hd B)"
  shows "addr (hd (A @ B' @ C)) = addr (hd (A @ B @ C))"
  using assms by (cases A) (simp_all add: hd_append)

lemma insert_recursive_chain:
  assumes "bt_inv M n" "2 \<le> M" "insert_recursive M n key val a = Some (n', sp, a')"
    and "chain_ok (leaves n) fin"
  shows "chain_ok (leaves n' @ (case sp of None \<Rightarrow> [] | Some (s, pk) \<Rightarrow> leaves s)) fin \<and>
         addr (hd (leaves n')) = addr (hd (leaves n))"
  using assms(1,3,4)
proof (induction n arbitrary: a n' sp a' fin)
  case (Node ks vs cs nx lf ad)
  let ?n = "Node ks vs cs nx lf ad"
  show ?case
  proof (cases lf)
    case True
    have lf': "is_leaf ?n" using True by simp
    have res: "insert_into_leaf M ?n key val a = Some (n', sp, a')"
      using Node.prems(2) True by (simp add: insert_recursive_leaf)
    have fin: "nxt ?n = fin" using Node.prems(3) True by simp
    from insert_into_leaf_chain[OF res lf'] fin show ?thesis
      using True by (auto simp: leaves_leaf split: option.splits)
  next
    case False
    let ?pos = "upper_bound ks key"
    have nl: "\<not> is_leaf ?n" using False by simp
    have len: "length cs = Suc (length ks)" "\<forall>c \<in> set cs. bt_inv M c"
      using Node.prems False by simp_all
    have p: "?pos < length cs" using upper_bound_le[of ks key] len by simp
    then have cin: "cs ! ?pos \<in> set cs" by simp
    have cinv: "bt_inv M (cs ! ?pos)" using len cin by simp
    obtain c' spc ac where rec: "insert_recursive M (cs ! ?pos) key val a = Some (c', spc, ac)"
      "ins_post M (cs ! ?pos) key c' spc"
      using insert_recursive_ok[OF cinv assms(2), of key val a] by blast
    define LA where "LA = concat (map leaves (take ?pos cs))"
    define LC where "LC = concat (map leaves (drop (Suc ?pos) cs))"
    define B where "B = leaves (cs ! ?pos)"
    define B' where "B' = leaves c' @ (case spc of None \<Rightarrow> [] | Some (s, pk) \<Rightarrow> leaves s)"
    define link where "link = (case LC of [] \<Rightarrow> fin | c # cs \<Rightarrow> Some (addr c))"
    have ln: "leaves ?n = LA @ B @ LC"
      using leaves_split_at[of ?pos ?n] p nl by (simp add: LA_def LC_def B_def)
    have Bne: "B \<noteq> []" using leaves_nonempty[OF cinv] by (simp add: B_def)
    have c'inv: "bt_inv M c'" using rec(2) by (simp add: ins_post_def)
    have B'ne: "B' \<noteq> []" "hd B' = hd (leaves c')"
      using leaves_nonempty[OF c'inv] by (simp_all add: B'_def)
    have chB: "chain_ok B link"
    proof -
      have "chain_ok (B @ LC) fin"
        using Node.prems(3) ln chain_ok_append[of LA "B @ LC" fin] by simp
      then show ?thesis using chain_ok_append[of B LC fin] by (simp add: link_def)
    qed
    have ih: "chain_ok B' link" "addr (hd (leaves c')) = addr (hd B)"
      using Node.IH[OF cin cinv rec(1), of link] chB by (simp_all add: B_def B'_def)
    let ?g = "graft ?n ?pos c' spc"
    have lg: "leaves ?g = LA @ B' @ LC"
      using graft_leaves[of ?pos ?n c' spc] p nl by (simp add: LA_def LC_def B'_def)
    have chg: "chain_ok (leaves ?g) fin"
      unfolding lg
      using chain_ok_replace[of LA B LC fin B'] Node.prems(3) ln Bne B'ne ih
      by (simp add: link_def)
    have hdg: "addr (hd (leaves ?g)) = addr (hd (leaves ?n))"
      unfolding lg ln using hd_append_same[OF Bne B'ne(1)] ih(2) B'ne(2) by simp
    have eq: "insert_recursive M ?n key val a = finish_internal M ?g ac"
      using insert_recursive_internal[of ?n key M val a c' spc ac] False p rec(1) by simp
    have gl: "\<not> is_leaf ?g" using nl by (simp add: graft_def split: option.splits)
    have fin: "finish_internal M ?g ac = Some (n', sp, a')" using eq Node.prems(2) by simp
    show ?thesis
    proof (cases sp)
      case None
      then have "n' = ?g" using fin by (auto simp: finish_internal_def split: if_splits option.splits)
      then show ?thesis using chg hdg None by simp
    next
      case (Some x)
      obtain s pk where x: "x = (s, pk)" by (cases x)
      have spl: "split_internal ?g ac = Some (n', s, pk)"
        using fin Some x by (auto simp: finish_internal_def split: if_splits option.splits)
      from split_internal_entries[OF spl gl]
      have si: "\<not> is_leaf n'" "\<not> is_leaf s" "children n' @ children s = children ?g"
        by simp_all
      have "leaves n' @ leaves s = concat (map leaves (children n' @ children s))"
        using si(1,2) by (simp add: leaves_internal)
      also have "\<dots> = leaves ?g" unfolding si(3) using leaves_internal[OF gl] by simp
      finally have cat: "leaves n' @ leaves s = leaves ?g" .
      obtain m sq b where "insert_recursive M ?n key val a = Some (m, sq, b)" "ins_post M ?n key m sq"
        using insert_recursive_ok[OF Node.prems(1) assms(2), of key val a] by blast
      then have "bt_inv M n'" using Node.prems(2) by (simp add: ins_post_def)
      then have "leaves n' \<noteq> []" by (rule leaves_nonempty)
      then have "hd (leaves n') = hd (leaves ?g)" using cat by (metis hd_append2)
      then show ?thesis using chg hdg cat Some x by simp
    qed
  qed
qed

subsection \<open>Optimistic and pessimistic insertion agree with the insertion from the root\<close>

lemma descend_ok:
  assumes "bt_inv M n"
  shows "\<exists>p lf. descend n key = Some p \<and> on_path n key p \<and> node_at n p = Some lf \<and> is_leaf lf"
  using assms
proof (induction n)
  case (Node ks vs cs nx lf ad)
  let ?n = "Node ks vs cs nx lf ad"
  show ?case
  proof (cases lf)
    case True
    have "descend ?n key = Some []" using descend.simps[of ?n key] True by simp
    moreover have "on_path ?n key []" "node_at ?n [] = Some ?n" "is_leaf ?n"
      using True by simp_all
    ultimately show ?thesis by blast
  next
    case False
    let ?pos = "upper_bound ks key"
    have len: "length cs = Suc (length ks)" "\<forall>c \<in> set cs. bt_inv M c"
      using Node.prems False by simp_all
    have p: "?pos < length cs" using upper_bound_le[of ks key] len by simp
    then have cin: "cs ! ?pos \<in> set cs" by simp
    obtain q l where q: "descend (cs ! ?pos) key = Some q" "on_path (cs ! ?pos) key q"
      "node_at (cs ! ?pos) q = Some l" "is_leaf l"
      using Node.IH[OF cin] len cin by blast
    have "descend ?n key = Some (?pos # q)"
      using descend.simps[of ?n key] False p q(1) by simp
    moreover have "on_path ?n key (?pos # q)" using False p q(2) by simp
    moreover have "node_at ?n (?pos # q) = Some l" using p q(3) by simp
    ultimately show ?thesis using q(4) by blast
  qed
qed

lemma on_path_inv:
  "on_path n key q \<Longrightarrow> node_at n q = Some m \<Longrightarrow> bt_inv M n \<Longrightarrow> bt_inv M m"
proof (induction q arbitrary: n)
  case Nil
  then show ?case by simp
next
  case (Cons i q)
  have n: "\<not> is_leaf n" "i < length (children n)" "on_path (children n ! i) key q"
    using Cons.prems(1) by auto
  have at: "node_at (children n ! i) q = Some m" using Cons.prems(2) n(2) by simp
  have "bt_inv M (children n ! i)" using Cons.prems(3) n(1,2) by (simp add: bt_inv_internal)
  then show ?case using Cons.IH[OF n(3) at] by simp
qed

lemma insert_recursive_replace:
  assumes "on_path n key q" "node_at n q = Some m" "bt_inv M n"
    and "insert_recursive M m key val a = Some (m', None, a')"
  shows "insert_recursive M n key val a = Some (replace_at n q m', None, a')"
  using assms(1,2,3)
proof (induction q arbitrary: n)
  case Nil
  then show ?case using assms(4) by simp
next
  case (Cons i q)
  have n0: "\<not> is_leaf n" "i = upper_bound (keys n) key" "i < length (children n)"
    "on_path (children n ! i) key q"
    using Cons.prems(1) by auto
  have n1: "node_at (children n ! i) q = Some m" using Cons.prems(2) n0(3) by simp
  note n = n0 n1
  have inv: "bt_inv M (children n ! i)" "length (keys n) \<le> MAX_KEYS_INTERNAL M"
    using Cons.prems(3) n(1,3) by (simp_all add: bt_inv_internal)
  have ih: "insert_recursive M (children n ! i) key val a
              = Some (replace_at (children n ! i) q m', None, a')"
    using Cons.IH[OF n(4,5) inv(1)] .
  have g: "graft n i (replace_at (children n ! i) q m') None = replace_at n (i # q) m'"
    by (simp add: graft_def)
  have "insert_recursive M n key val a
          = finish_internal M (graft n i (replace_at (children n ! i) q m') None) a'"
    using insert_recursive_internal[of n key M val a _ None a'] n(1,2,3) ih by simp
  also have "\<dots> = Some (replace_at n (i # q) m', None, a')"
    unfolding g using inv(2) by (simp add: finish_internal_def)
  finally show ?case .
qed

lemma crab_ok:
  assumes "bt_inv M n"
  shows "\<exists>h. crab M n key path head = Some h \<and>
           (h = head \<or> (\<exists>q m. h = Some (path @ q) \<and> on_path n key q \<and>
                          node_at n q = Some m \<and> is_safe_for_insert M m))"
  using assms
proof (induction n arbitrary: path head)
  case (Node ks vs cs nx lf ad)
  let ?n = "Node ks vs cs nx lf ad"
  show ?case
  proof (cases lf)
    case True
    have "crab M ?n key path head = Some head" using crab.simps[of M ?n key path head] True by simp
    then show ?thesis by simp
  next
    case False
    let ?pos = "upper_bound ks key"
    let ?child = "cs ! ?pos"
    let ?head' = "if is_safe_for_insert M ?child then Some (path @ [?pos]) else head"
    have len: "length cs = Suc (length ks)" "\<forall>c \<in> set cs. bt_inv M c"
      using Node.prems False by simp_all
    have p: "?pos < length cs" using upper_bound_le[of ks key] len by simp
    then have cin: "?child \<in> set cs" by simp
    have cinv: "bt_inv M ?child" using len cin by simp
    have eq: "crab M ?n key path head = crab M ?child key (path @ [?pos]) ?head'"
      using crab.simps[of M ?n key path head] False p by (simp add: Let_def)
    obtain h where h: "crab M ?child key (path @ [?pos]) ?head' = Some h"
      "h = ?head' \<or> (\<exists>q m. h = Some ((path @ [?pos]) @ q) \<and> on_path ?child key q \<and>
                          node_at ?child q = Some m \<and> is_safe_for_insert M m)"
      using Node.IH[OF cin cinv, of "path @ [?pos]" ?head'] by blast
    have "h = head \<or> (\<exists>q m. h = Some (path @ q) \<and> on_path ?n key q \<and>
                          node_at ?n q = Some m \<and> is_safe_for_insert M m)"
      using h(2)
    proof
      assume a: "h = ?head'"
      show ?thesis
      proof (cases "is_safe_for_insert M ?child")
        case True
        have "on_path ?n key [?pos]" "node_at ?n [?pos] = Some ?child" using False p by simp_all
        moreover have "h = Some (path @ [?pos])" using a True by simp
        ultimately show ?thesis using True by blast
      next
        case False
        then show ?thesis using a by simp
      qed
    next
      assume "\<exists>q m. h = Some ((path @ [?pos]) @ q) \<and> on_path ?child key q \<and>
                          node_at ?child q = Some m \<and> is_safe_for_insert M m"
      then obtain q m where q: "h = Some ((path @ [?pos]) @ q)" "on_path ?child key q"
        "node_at ?child q = Some m" "is_safe_for_insert M m" by blast
      have "h = Some (path @ (?pos # q))" using q(1) by simp
      moreover have "on_path ?n key (?pos # q)" using False p q(2) by simp
      moreover have "node_at ?n (?pos # q) = Some m" using p q(3) by simp
      ultimately show ?thesis using q(4) by blast
    qed
    then show ?thesis using eq h(1) by simp
  qed
qed

lemma safe_no_split:
  assumes "bt_inv M m" "2 \<le> M" "is_safe_for_insert M m"
  shows "\<exists>m' a'. insert_recursive M m key val a = Some (m', None, a')"
  using insert_recursive_ok[OF assms(1,2), of key val a] assms(3)
  by (auto simp: ins_post_def)

lemma pessimistic_start_at_root:
  assumes "crab M (root t) key []
             (if is_safe_for_insert M (root t) then Some [] else None) = Some h"
    and "(case h of Some p \<Rightarrow> p | None \<Rightarrow> []) = []"
  shows "pessimistic_insert M t key val = insert_from_root M t key val"
  using assms
  by (simp add: pessimistic_insert_def insert_from_root_def Let_def
      split: option.splits prod.splits)

lemma pessimistic_insert_eq:
  assumes "bt_inv M (root t)" "2 \<le> M"
  shows "pessimistic_insert M t key val = insert_from_root M t key val"
proof -
  let ?head = "if is_safe_for_insert M (root t) then Some [] else None"
  obtain h where h: "crab M (root t) key [] ?head = Some h"
    "h = ?head \<or> (\<exists>q m. h = Some ([] @ q) \<and> on_path (root t) key q \<and>
                          node_at (root t) q = Some m \<and> is_safe_for_insert M m)"
    using crab_ok[OF assms(1), of key "[]" ?head] by blast
  show ?thesis
  proof (cases "(case h of Some p \<Rightarrow> p | None \<Rightarrow> []) = []")
    case True
    then show ?thesis using pessimistic_start_at_root[OF h(1)] by simp
  next
    case False
    then have "h \<noteq> ?head" by (auto split: option.splits if_splits)
    then obtain q m where q: "h = Some q" "on_path (root t) key q"
      "node_at (root t) q = Some m" "is_safe_for_insert M m"
      using h(2) by auto
    have qne: "q \<noteq> []" using False q(1) by simp
    have minv: "bt_inv M m" using on_path_inv[OF q(2,3) assms(1)] .
    obtain m' a' where m': "insert_recursive M m key val (next_addr t) = Some (m', None, a')"
      using safe_no_split[OF minv assms(2) q(4)] by blast
    have r: "insert_recursive M (root t) key val (next_addr t)
               = Some (replace_at (root t) q m', None, a')"
      using insert_recursive_replace[OF q(2,3) assms(1) m'] .
    have "pessimistic_insert M t key val
            = Some (t\<lparr> root := replace_at (root t) q m', next_addr := a' \<rparr>)"
      using h(1) q(1,3) m' by (simp add: pessimistic_insert_def Let_def)
    then show ?thesis using r by (simp add: insert_from_root_def)
  qed
qed

lemma optimistic_insert_eq:
  assumes "bt_inv M (root t)" "2 \<le> M"
  shows "optimistic_insert M t key val = Some (False, t) \<or>
         (\<exists>t'. optimistic_insert M t key val = Some (True, t') \<and>
               insert_from_root M t key val = Some t')"
proof -
  obtain p lf where p: "descend (root t) key = Some p" "on_path (root t) key p"
    "node_at (root t) p = Some lf" "is_leaf lf"
    using descend_ok[OF assms(1), of key] by blast
  show ?thesis
  proof (cases "is_safe_for_insert M lf")
    case False
    then show ?thesis using p by (simp add: optimistic_insert_def)
  next
    case True
    have linv: "bt_inv M lf" using on_path_inv[OF p(2,3) assms(1)] .
    obtain m' a' where m': "insert_recursive M lf key val (next_addr t) = Some (m', None, a')"
      using safe_no_split[OF linv assms(2) True] by blast
    then have il: "insert_into_leaf M lf key val (next_addr t) = Some (m', None, a')"
      using p(4) by (simp add: insert_recursive_leaf)
    then have put: "put_in_leaf lf key val = Some m'" "a' = next_addr t"
      by (auto simp: insert_into_leaf_def split: option.splits if_splits)
    have r: "insert_recursive M (root t) key val (next_addr t)
               = Some (replace_at (root t) p m', None, a')"
      using insert_recursive_replace[OF p(2,3) assms(1) m'] .
    have "optimistic_insert M t key val = Some (True, t\<lparr> root := replace_at (root t) p m' \<rparr>)"
      using p(1,3) True put(1) by (simp add: optimistic_insert_def)
    moreover have "insert_from_root M t key val = Some (t\<lparr> root := replace_at (root t) p m' \<rparr>)"
      using r put(2) by (simp add: insert_from_root_def)
    ultimately show ?thesis by simp
  qed
qed

lemma bt_insert_eq:
  assumes "bt_inv M (root t)" "2 \<le> M"
  shows "bt_insert M t key val = map_option (Pair True) (insert_from_root M t key val)"
  using optimistic_insert_eq[OF assms, of key val] pessimistic_insert_eq[OF assms, of key val]
  by (auto simp: bt_insert_def map_option_case split: option.splits)

subsection \<open>Every reachable tree is well formed\<close>

lemma fresh_addrs:
  assumes "mset xs = mset ys + mset [a..<a']" "distinct ys" "\<forall>y \<in> set ys. y < a" "a \<le> a'"
  shows "distinct xs \<and> (\<forall>x \<in> set xs. x < a')"
proof -
  have eq: "mset xs = mset (ys @ [a..<a'])" using assms(1) by simp
  have "distinct (ys @ [a..<a'])" using assms(2,3) by auto
  then have "distinct xs" using mset_eq_imp_distinct_iff[OF eq] by simp
  moreover have "set xs = set (ys @ [a..<a'])" using mset_eq_setD[OF eq] .
  ultimately show ?thesis using assms(3,4) by auto
qed

lemma insert_from_root_wf:
  assumes "bt_wf M t" "2 \<le> M"
  shows "\<exists>t'. insert_from_root M t key val = Some t' \<and> bt_wf M t' \<and>
              entries (root t') = upsert (entries (root t)) key val"
proof -
  define a where "a = next_addr t"
  have wf: "bt_inv M (root t)" "chain_ok (leaves (root t)) None" "distinct (addrs (root t))"
    "\<forall>x \<in> set (addrs (root t)). x < a"
    using assms(1) by (simp_all add: bt_wf_def a_def)
  obtain r' sp a' where res: "insert_recursive M (root t) key val a = Some (r', sp, a')"
    "ins_post M (root t) key r' sp"
    using insert_recursive_ok[OF wf(1) assms(2), of key val a] by blast
  note ent = insert_recursive_entries[OF wf(1) assms(2) res(1)]
  note adr = insert_recursive_addrs[OF wf(1) assms(2) res(1)]
  note chn = insert_recursive_chain[OF wf(1) assms(2) res(1) wf(2)]
  have r'inv: "bt_inv M r'" using res(2) by (simp add: ins_post_def)
  show ?thesis
  proof (cases sp)
    case None
    have t': "insert_from_root M t key val = Some (t\<lparr> root := r', next_addr := a' \<rparr>)"
      using res(1) None by (simp add: insert_from_root_def a_def)
    have "distinct (addrs r') \<and> (\<forall>x \<in> set (addrs r'). x < a')"
      using fresh_addrs[of "addrs r'" "addrs (root t)" a a'] adr wf(3,4) None by simp
    then have "bt_wf M (t\<lparr> root := r', next_addr := a' \<rparr>)"
      using r'inv chn None by (simp add: bt_wf_def)
    then show ?thesis using t' ent None by simp
  next
    case (Some x)
    obtain s pk where x: "x = (s, pk)" by (cases x)
    let ?r = "Node [pk] [] [r', s] None False a'"
    have t': "insert_from_root M t key val = Some (t\<lparr> root := ?r, next_addr := Suc a' \<rparr>)"
      using res(1) Some x by (simp add: insert_from_root_def a_def)
    have post: "bt_inv M s" "\<forall>k \<in> leaf_keys r'. k < pk" "\<forall>k \<in> all_keys r'. k \<le> pk"
      "\<forall>k \<in> all_keys s. pk \<le> k"
      using res(2) Some x by (simp_all add: ins_post_def)
    have seps: "seps_ok [pk] [r', s]" using post by (simp add: seps_ok_def)
    have inv: "bt_inv M ?r"
      using r'inv post(1) seps assms(2) by (simp add: MAX_KEYS_INTERNAL_def)
    have lv: "leaves ?r = leaves r' @ leaves s" by simp
    have en: "entries ?r = entries r' @ entries s" by (simp add: entries_def)
    have "mset (addrs ?r) = mset (addrs (root t)) + mset [a..<Suc a']"
      using adr Some x by (simp add: addrs_sel[of ?r])
    then have "distinct (addrs ?r) \<and> (\<forall>x \<in> set (addrs ?r). x < Suc a')"
      using fresh_addrs[of "addrs ?r" "addrs (root t)" a "Suc a'"] adr wf(3,4) by simp
    then have "bt_wf M (t\<lparr> root := ?r, next_addr := Suc a' \<rparr>)"
      using inv chn Some x lv by (simp add: bt_wf_def del: leaves.simps)
    then show ?thesis using t' ent Some x en by simp
  qed
qed

lemma bt_insert_wf:
  assumes "bt_wf M t" "2 \<le> M"
  shows "\<exists>t'. bt_insert M t key val = Some (True, t') \<and> bt_wf M t' \<and>
              entries (root t') = upsert (entries (root t)) key val"
proof -
  have inv: "bt_inv M (root t)" using assms(1) by (simp add: bt_wf_def)
  show ?thesis
    using insert_from_root_wf[OF assms, of key val] bt_insert_eq[OF inv assms(2), of key val]
    by auto
qed

lemma bt_wf_init: "bt_wf M bt_init"
  by (simp add: bt_wf_def bt_init_def addrs_def)

lemma bt_reachable_wf: "bt_reachable M t \<Longrightarrow> 2 \<le> M \<Longrightarrow> bt_wf M t"
proof (induction rule: bt_reachable.induct)
  case bt_start
  show ?case by (rule bt_wf_init)
next
  case (bt_step t key val b t')
  then show ?case using bt_insert_wf[of M t key val] by auto
qed

subsection \<open>Point lookup\<close>

lemma descent_bounds:
  assumes inv: "bt_inv M n" and nl: "\<not> is_leaf n"
    and pos: "pos = upper_bound (keys n) key"
  shows "\<forall>x \<in> set (concat (map entries (take pos (children n)))). fst x < key"
    and "\<forall>x \<in> set (concat (map entries (drop (Suc pos) (children n)))). key < fst x"
proof -
  define ks where "ks = keys n"
  define cs where "cs = children n"
  have n: "sorted ks" "length cs = Suc (length ks)" "seps_ok ks cs"
    using inv nl by (simp_all add: bt_inv_internal ks_def cs_def)
  have p: "pos \<le> length ks" "pos < length cs"
    using upper_bound_le[of ks key] n(2) by (simp_all add: pos ks_def)
  have old: "\<And>j. j < length ks \<Longrightarrow>
        (\<forall>k \<in> leaf_keys (cs ! j). k < ks ! j) \<and> (\<forall>k \<in> all_keys (cs ! j). k \<le> ks ! j) \<and>
        (\<forall>k \<in> all_keys (cs ! Suc j). ks ! j \<le> k)"
    using n(3) by (simp add: seps_ok_def)
  show "\<forall>x \<in> set (concat (map entries (take pos (children n)))). fst x < key"
  proof
    fix x assume "x \<in> set (concat (map entries (take pos (children n))))"
    then obtain c where c: "c \<in> set (take pos cs)" "x \<in> set (entries c)"
      by (auto simp: cs_def)
    then obtain j where j: "j < pos" "j < length cs" "cs ! j = c" using in_set_take_nth by metis
    have "fst x \<in> leaf_keys (cs ! j)" using c j entries_keys_subset[of c] by auto
    then have "fst x < ks ! j" using old[of j] j p by auto
    moreover have "ks ! j \<le> key" using upper_bound_before[of j ks key] j by (simp add: pos ks_def)
    ultimately show "fst x < key" by simp
  qed
  show "\<forall>x \<in> set (concat (map entries (drop (Suc pos) (children n)))). key < fst x"
  proof
    fix x assume "x \<in> set (concat (map entries (drop (Suc pos) (children n))))"
    then obtain c where c: "c \<in> set (drop (Suc pos) cs)" "x \<in> set (entries c)"
      by (auto simp: cs_def)
    then obtain j where j: "Suc pos \<le> j" "j < length cs" "cs ! j = c"
      using in_set_drop_nth by metis
    then obtain j' where j': "j = Suc j'" "pos \<le> j'" "j' < length ks" using n(2) by (cases j) auto
    have "fst x \<in> all_keys (cs ! Suc j')"
      using c j j' entries_keys_subset[of c] leaf_keys_subset_all_keys[of c] by auto
    then have "ks ! j' \<le> fst x" using old[of j'] j' by auto
    moreover have "key < ks ! j'"
      using upper_bound_after[OF n(1), of key j'] j' by (simp add: pos ks_def)
    ultimately show "key < fst x" by simp
  qed
qed

lemma concat_leaf_entries: "concat (map leaf_entries (concat (map leaves cs))) = concat (map entries cs)"
  by (induction cs) (simp_all add: entries_def)

lemma find_leaf_ok:
  assumes "bt_inv M n"
  shows "\<exists>pre lf post. find_leaf n key = Some lf \<and> leaves n = pre @ lf # post \<and>
           (\<forall>x \<in> set (concat (map leaf_entries pre)). fst x < key) \<and>
           (\<forall>x \<in> set (concat (map leaf_entries post)). key < fst x)"
  using assms
proof (induction n)
  case (Node ks vs cs nx lf ad)
  let ?n = "Node ks vs cs nx lf ad"
  show ?case
  proof (cases lf)
    case True
    have "find_leaf ?n key = Some ?n" using find_leaf.simps[of ?n key] True by simp
    moreover have "leaves ?n = [] @ ?n # []" using True by simp
    ultimately show ?thesis by (metis concat.simps(1) empty_iff list.map(1) list.set(1))
  next
    case False
    let ?pos = "upper_bound ks key"
    have nl: "\<not> is_leaf ?n" using False by simp
    have len: "length cs = Suc (length ks)" "\<forall>c \<in> set cs. bt_inv M c"
      using Node.prems False by simp_all
    have p: "?pos < length cs" using upper_bound_le[of ks key] len by simp
    then have cin: "cs ! ?pos \<in> set cs" by simp
    obtain pre l post where ih: "find_leaf (cs ! ?pos) key = Some l"
      "leaves (cs ! ?pos) = pre @ l # post"
      "\<forall>x \<in> set (concat (map leaf_entries pre)). fst x < key"
      "\<forall>x \<in> set (concat (map leaf_entries post)). key < fst x"
      using Node.IH[OF cin] len cin by blast
    define LA where "LA = concat (map leaves (take ?pos cs))"
    define LC where "LC = concat (map leaves (drop (Suc ?pos) cs))"
    have fl: "find_leaf ?n key = Some l"
      using find_leaf.simps[of ?n key] False p ih(1) by simp
    have lv: "leaves ?n = (LA @ pre) @ l # (post @ LC)"
      using leaves_split_at[of ?pos ?n] p nl ih(2) by (simp add: LA_def LC_def)
    have b: "\<forall>x \<in> set (concat (map leaf_entries LA)). fst x < key"
      "\<forall>x \<in> set (concat (map leaf_entries LC)). key < fst x"
      using descent_bounds[OF Node.prems nl, of ?pos key]
      by (simp_all add: LA_def LC_def concat_leaf_entries)
    have "\<forall>x \<in> set (concat (map leaf_entries (LA @ pre))). fst x < key"
      using b(1) ih(3) by auto
    moreover have "\<forall>x \<in> set (concat (map leaf_entries (post @ LC))). key < fst x"
      using b(2) ih(4) by auto
    ultimately show ?thesis using fl lv by blast
  qed
qed

lemma leaves_inv: "bt_inv M n \<Longrightarrow> l \<in> set (leaves n) \<Longrightarrow> is_leaf l \<and> bt_inv M l"
proof (induction n)
  case (Node ks vs cs nx lf ad)
  show ?case
  proof (cases lf)
    case True
    then show ?thesis using Node.prems by auto
  next
    case False
    then obtain c where "c \<in> set cs" "l \<in> set (leaves c)" using Node.prems(2) by auto
    moreover have "bt_inv M c" using Node.prems(1) False \<open>c \<in> set cs\<close> by simp
    ultimately show ?thesis using Node.IH by blast
  qed
qed

lemma map_of_zip_lower_bound:
  assumes "sorted_wrt (<) ks" "length vs = length ks" "key \<in> set ks"
  shows "map_of (zip ks vs) key = Some (vs ! lower_bound ks key)"
  using assms
proof (induction ks arbitrary: vs)
  case Nil
  then show ?case by simp
next
  case (Cons k ks)
  then obtain w ws where vs: "vs = w # ws" by (cases vs) auto
  show ?case
  proof (cases "k < key")
    case True
    then have "key \<in> set ks" "key \<noteq> k" using Cons.prems by auto
    then show ?thesis using Cons True vs by (simp add: lower_bound_Cons)
  next
    case False
    then have "key = k" using Cons.prems by auto
    then show ?thesis using vs by (simp add: lower_bound_Cons)
  qed
qed

lemma map_of_middle:
  assumes "\<forall>x \<in> set A. fst x < (key::'k::linorder)" "\<forall>x \<in> set C. key < fst x"
  shows "map_of (A @ B @ C) key = map_of B key"
proof -
  have "key \<notin> fst ` set A"
  proof
    assume "key \<in> fst ` set A"
    then obtain x where "x \<in> set A" "fst x = key" by auto
    then show False using assms(1) by auto
  qed
  moreover have "key \<notin> fst ` set C"
  proof
    assume "key \<in> fst ` set C"
    then obtain x where "x \<in> set C" "fst x = key" by auto
    then show False using assms(2) by auto
  qed
  ultimately have "key \<notin> fst ` set A" "key \<notin> fst ` set C" by simp_all
  then have "map_of A key = None" "map_of C key = None"
    by (simp_all add: map_of_eq_None_iff)
  then show ?thesis by (simp add: map_add_def split: option.splits)
qed

lemma search_ok:
  assumes "bt_inv M (root t)"
  shows "search t key
         = Some (case map_of (entries (root t)) key of None \<Rightarrow> {} | Some vs \<Rightarrow> vs)"
proof -
  obtain pre lf post where f: "find_leaf (root t) key = Some lf"
    "leaves (root t) = pre @ lf # post"
    "\<forall>x \<in> set (concat (map leaf_entries pre)). fst x < key"
    "\<forall>x \<in> set (concat (map leaf_entries post)). key < fst x"
    using find_leaf_ok[OF assms, of key] by blast
  have "entries (root t) = concat (map leaf_entries pre) @ leaf_entries lf @
          concat (map leaf_entries post)"
    using f(2) by (simp add: entries_def)
  then have m: "map_of (entries (root t)) key = map_of (leaf_entries lf) key"
    using map_of_middle[OF f(3,4)] by simp
  have "lf \<in> set (leaves (root t))" using f(2) by simp
  then have "is_leaf lf" "bt_inv M lf" using leaves_inv[OF assms, of lf] by simp_all
  then have l: "sorted_wrt (<) (keys lf)" "length (vals lf) = length (keys lf)"
    using bt_inv_leaf[of lf M] by simp_all
  let ?idx = "lower_bound (keys lf) key"
  show ?thesis
  proof (cases "key \<in> set (keys lf)")
    case True
    then have "?idx < length (keys lf) \<and> keys lf ! ?idx = key"
      using lower_bound_found[OF l(1)] by simp
    moreover have "map_of (leaf_entries lf) key = Some (vals lf ! ?idx)"
      using map_of_zip_lower_bound[OF l True] by (simp add: leaf_entries_def)
    ultimately show ?thesis using f(1) m l(2) by (simp add: search_def Let_def)
  next
    case False
    then have "\<not> (?idx < length (keys lf) \<and> keys lf ! ?idx = key)"
      using lower_bound_found[OF l(1)] by simp
    then have "?idx = length (keys lf) \<or> keys lf ! ?idx \<noteq> key"
      using lower_bound_le[of "keys lf" key] by auto
    moreover have "map_of (leaf_entries lf) key = None"
      using False l(2) by (auto simp: leaf_entries_def map_of_eq_None_iff dest: set_zip_leftD)
    ultimately show ?thesis using f(1) m by (auto simp: search_def Let_def)
  qed
qed

lemma upsert_idem: "upsert (upsert xs k v) k v = upsert xs k v"
  by (induction xs) auto

subsection \<open>Range scan\<close>

lemma map_emplace_append:
  "\<forall>x \<in> set res. fst x < k \<Longrightarrow> map_emplace res k v = res @ [(k, v)]"
proof (induction res)
  case Nil
  then show ?case by simp
next
  case (Cons r res)
  then show ?case by (cases r) auto
qed

lemma fst_in_zip: "x \<in> set (zip xs ys) \<Longrightarrow> fst x \<in> set xs"
  using set_zip_leftD[of "fst x" "snd x" xs ys] by simp

lemma scan_keys_ok:
  assumes "sorted_wrt (<) (keys cur)" "length (vals cur) = length (keys cur)"
    and "idx \<le> length (keys cur)"
    and "\<forall>x \<in> set res. \<forall>k \<in> set (drop idx (keys cur)). fst x < k"
  shows "scan_keys cur idx hi res
         = Some (res @ filter (\<lambda>x. fst x < hi) (drop idx (leaf_entries cur)),
                 \<exists>k \<in> set (drop idx (keys cur)). hi \<le> k)"
  using assms(3,4)
proof (induction "length (keys cur) - idx" arbitrary: idx res)
  case 0
  then have "idx = length (keys cur)" by simp
  then show ?case
    using scan_keys.simps[of cur idx hi res] assms(2) by (simp add: leaf_entries_def)
next
  case (Suc d)
  then have idx: "idx < length (keys cur)" by simp
  define k where "k = keys cur ! idx"
  define v where "v = vals cur ! idx"
  have dk: "drop idx (keys cur) = k # drop (Suc idx) (keys cur)"
    using idx by (simp add: k_def Cons_nth_drop_Suc)
  have de: "drop idx (leaf_entries cur) = (k, v) # drop (Suc idx) (leaf_entries cur)"
    using Cons_nth_drop_Suc[of idx "zip (keys cur) (vals cur)"] idx assms(2)
    by (simp add: leaf_entries_def k_def v_def)
  have srt: "sorted_wrt (<) (k # drop (Suc idx) (keys cur))"
    using assms(1) dk sorted_wrt_drop[of "(<)" "keys cur" idx] by simp
  then have later: "\<forall>k' \<in> set (drop (Suc idx) (keys cur)). k < k'" by simp
  show ?case
  proof (cases "hi \<le> k")
    case True
    have "\<forall>x \<in> set (drop idx (leaf_entries cur)). hi \<le> fst x"
    proof
      fix x assume "x \<in> set (drop idx (leaf_entries cur))"
      then have "fst x \<in> set (drop idx (keys cur))"
        using fst_in_zip[of x "drop idx (keys cur)" "drop idx (vals cur)"]
        by (simp add: leaf_entries_def drop_zip)
      then show "hi \<le> fst x" using dk later True by auto
    qed
    then have "filter (\<lambda>x. fst x < hi) (drop idx (leaf_entries cur)) = []"
      by (auto simp: filter_empty_conv)
    moreover have "scan_keys cur idx hi res = Some (res, True)"
      using scan_keys.simps[of cur idx hi res] idx True by (simp add: k_def)
    ultimately show ?thesis using dk True by simp
  next
    case False
    have emp: "map_emplace res k v = res @ [(k, v)]"
      using map_emplace_append[of res k v] Suc.prems(2) dk by simp
    have step: "scan_keys cur idx hi res = scan_keys cur (Suc idx) hi (res @ [(k, v)])"
      using scan_keys.simps[of cur idx hi res] idx False assms(2) emp
      by (simp add: k_def v_def)
    have pre: "\<forall>x \<in> set (res @ [(k, v)]). \<forall>k' \<in> set (drop (Suc idx) (keys cur)). fst x < k'"
      using Suc.prems(2) dk later by auto
    have ih: "scan_keys cur (Suc idx) hi (res @ [(k, v)])
         = Some ((res @ [(k, v)]) @ filter (\<lambda>x. fst x < hi) (drop (Suc idx) (leaf_entries cur)),
                 \<exists>k \<in> set (drop (Suc idx) (keys cur)). hi \<le> k)"
      using Suc.hyps(1)[of "Suc idx" "res @ [(k, v)]"] Suc.hyps(2) idx pre by simp
    show ?thesis using step ih de dk False by simp
  qed
qed

lemma drop_lower_bound:
  assumes "sorted_wrt (<) ks" "length vs = length ks"
  shows "drop (lower_bound ks lo) (zip ks vs) = filter (\<lambda>x. lo \<le> fst x) (zip ks vs)"
  using assms
proof (induction ks arbitrary: vs)
  case Nil
  then show ?case by simp
next
  case (Cons k ks)
  then obtain w ws where vs: "vs = w # ws" by (cases vs) auto
  show ?case
  proof (cases "k < lo")
    case True
    then show ?thesis using Cons vs by (simp add: lower_bound_Cons)
  next
    case False
    have "\<forall>x \<in> set (zip ks ws). lo \<le> fst x"
    proof
      fix x assume "x \<in> set (zip ks ws)"
      then have "fst x \<in> set ks" by (rule fst_in_zip)
      then show "lo \<le> fst x" using Cons.prems(1) False by auto
    qed
    then have "filter (\<lambda>x. lo \<le> fst x) (zip ks ws) = zip ks ws" by simp
    then show ?thesis using False vs by (simp add: lower_bound_Cons)
  qed
qed

lemma scan_leaf_ok:
  assumes "sorted_wrt (<) (keys cur)" "length (vals cur) = length (keys cur)"
    and "\<forall>x \<in> set res. \<forall>k \<in> set (keys cur). fst x < k" "lo < hi"
  shows "scan_keys cur (lower_bound (keys cur) lo) hi res
         = Some (res @ filter (\<lambda>x. lo \<le> fst x \<and> fst x < hi) (leaf_entries cur),
                 \<exists>k \<in> set (keys cur). hi \<le> k)"
proof -
  let ?idx = "lower_bound (keys cur) lo"
  have pre: "\<forall>x \<in> set res. \<forall>k \<in> set (drop ?idx (keys cur)). fst x < k"
    using assms(3) by (auto dest: in_set_dropD)
  have f: "filter (\<lambda>x. fst x < hi) (drop ?idx (leaf_entries cur))
         = filter (\<lambda>x. lo \<le> fst x \<and> fst x < hi) (leaf_entries cur)"
    using drop_lower_bound[OF assms(1,2), of lo]
    by (simp add: leaf_entries_def conj_commute)
  have d: "(\<exists>k \<in> set (drop ?idx (keys cur)). hi \<le> k) = (\<exists>k \<in> set (keys cur). hi \<le> k)"
  proof
    assume "\<exists>k \<in> set (drop ?idx (keys cur)). hi \<le> k"
    then show "\<exists>k \<in> set (keys cur). hi \<le> k" by (auto dest: in_set_dropD)
  next
    assume "\<exists>k \<in> set (keys cur). hi \<le> k"
    then obtain i where i: "i < length (keys cur)" "hi \<le> keys cur ! i"
      by (auto simp: in_set_conv_nth)
    have "\<not> i < ?idx" using lower_bound_before[of i "keys cur" lo] i(2) assms(4) by auto
    then have "keys cur ! i \<in> set (drop ?idx (keys cur))"
      using i(1) by (auto simp: in_set_conv_nth intro!: exI[of _ "i - ?idx"])
    then show "\<exists>k \<in> set (drop ?idx (keys cur)). hi \<le> k" using i(2) by blast
  qed
  show ?thesis
    using scan_keys_ok[OF assms(1,2) lower_bound_le pre, of hi] f d by simp
qed

lemma chain_ok_nth:
  "chain_ok ls fin \<Longrightarrow> p < length ls \<Longrightarrow>
     nxt (ls ! p) = (if Suc p < length ls then Some (addr (ls ! Suc p)) else fin)"
proof (induction ls fin arbitrary: p rule: chain_ok.induct)
  case (1 fin)
  then show ?case by simp
next
  case (2 l fin)
  then show ?case by simp
next
  case (3 l l' ls fin)
  then show ?case by (cases p) auto
qed

lemma find_distinct:
  "distinct (map f xs) \<Longrightarrow> x \<in> set xs \<Longrightarrow> find (\<lambda>y. f y = f x) xs = Some x"
  by (induction xs) (auto simp: image_iff)

lemma leaves_subset_nodes: "set (leaves n) \<subseteq> set (nodes_of n)"
proof (induction n)
  case (Node ks vs cs nx lf a)
  show ?case
  proof (cases lf)
    case True
    then show ?thesis by simp
  next
    case False
    then show ?thesis using Node by fastforce
  qed
qed

lemma lookup_leaf:
  assumes "distinct (addrs rt)" "l \<in> set (leaves rt)"
  shows "lookup_node rt (addr l) = Some l"
  using find_distinct[of addr "nodes_of rt" l] assms leaves_subset_nodes[of rt]
  by (auto simp: lookup_node_def addrs_def)

lemma sorted_concat_map:
  assumes "\<forall>c \<in> set cs. sorted_wrt R (f c)"
    and "\<forall>i j. i < j \<and> j < length cs \<longrightarrow> (\<forall>x \<in> set (f (cs ! i)). \<forall>y \<in> set (f (cs ! j)). R x y)"
  shows "sorted_wrt R (concat (map f cs))"
  using assms
proof (induction cs)
  case Nil
  then show ?case by simp
next
  case (Cons c cs)
  have rest: "\<forall>i j. i < j \<and> j < length cs \<longrightarrow>
                (\<forall>x \<in> set (f (cs ! i)). \<forall>y \<in> set (f (cs ! j)). R x y)"
  proof (intro allI impI)
    fix i j assume "i < j \<and> j < length cs"
    then have "Suc i < Suc j \<and> Suc j < length (c # cs)" by simp
    then have "\<forall>x \<in> set (f ((c # cs) ! Suc i)). \<forall>y \<in> set (f ((c # cs) ! Suc j)). R x y"
      using Cons.prems(2) by blast
    then show "\<forall>x \<in> set (f (cs ! i)). \<forall>y \<in> set (f (cs ! j)). R x y" by simp
  qed
  have cross: "\<forall>x \<in> set (f c). \<forall>y \<in> set (concat (map f cs)). R x y"
  proof (intro ballI)
    fix x y assume x: "x \<in> set (f c)" and "y \<in> set (concat (map f cs))"
    then obtain c' where "c' \<in> set cs" "y \<in> set (f c')" by auto
    then obtain j where j: "j < length cs" "y \<in> set (f (cs ! j))"
      by (metis in_set_conv_nth)
    have "0 < Suc j \<and> Suc j < length (c # cs)" using j(1) by simp
    then have "\<forall>x \<in> set (f ((c # cs) ! 0)). \<forall>y \<in> set (f ((c # cs) ! Suc j)). R x y"
      using Cons.prems(2) by blast
    then show "R x y" using x j(2) by simp
  qed
  show ?case using Cons.IH[OF _ rest] Cons.prems(1) cross by (simp add: sorted_wrt_append)
qed

lemma entries_sorted:
  assumes "bt_inv M n"
  shows "sorted_wrt (\<lambda>x y. fst x < fst y) (entries n)"
  using assms
proof (induction n)
  case (Node ks vs cs nx lf ad)
  let ?n = "Node ks vs cs nx lf ad"
  show ?case
  proof (cases lf)
    case True
    then have "sorted_wrt (<) ks" "length vs = length ks" using Node.prems by simp_all
    then have "sorted_wrt (<) (map fst (zip ks vs))" by simp
    then show ?thesis using True by (simp add: entries_def leaf_entries_def sorted_wrt_map)
  next
    case False
    have n: "sorted ks" "length cs = Suc (length ks)" "\<forall>c \<in> set cs. bt_inv M c" "seps_ok ks cs"
      using Node.prems False by simp_all
    have old: "\<And>j. j < length ks \<Longrightarrow>
        (\<forall>k \<in> leaf_keys (cs ! j). k < ks ! j) \<and> (\<forall>k \<in> all_keys (cs ! j). k \<le> ks ! j) \<and>
        (\<forall>k \<in> all_keys (cs ! Suc j). ks ! j \<le> k)"
      using n(4) by (simp add: seps_ok_def)
    have each: "\<forall>c \<in> set cs. sorted_wrt (\<lambda>x y. fst x < fst y) (entries c)"
      using Node.IH n(3) by blast
    have cross: "\<forall>i j. i < j \<and> j < length cs \<longrightarrow>
        (\<forall>x \<in> set (entries (cs ! i)). \<forall>y \<in> set (entries (cs ! j)). fst x < fst y)"
    proof (intro allI impI ballI)
      fix i j x y
      assume ij: "i < j \<and> j < length cs"
        and x: "x \<in> set (entries (cs ! i))" and y: "y \<in> set (entries (cs ! j))"
      obtain j' where j': "j = Suc j'" "i \<le> j'" "j' < length ks"
        using ij n(2) by (cases j) auto
      have "fst x \<in> leaf_keys (cs ! i)" using x entries_keys_subset[of "cs ! i"] by auto
      then have "fst x < ks ! i" using old[of i] j' by auto
      moreover have "ks ! i \<le> ks ! j'" using n(1) j' by (simp add: sorted_iff_nth_mono)
      moreover have "fst y \<in> all_keys (cs ! Suc j')"
        using y j' entries_keys_subset[of "cs ! j"] leaf_keys_subset_all_keys[of "cs ! j"] by auto
      then have "ks ! j' \<le> fst y" using old[of j'] j' by auto
      ultimately show "fst x < fst y" by simp
    qed
    have "entries ?n = concat (map entries cs)"
      using entries_internal[of ?n] False by simp
    then show ?thesis using sorted_concat_map[OF each cross] by simp
  qed
qed

lemma sorted_wrt_filter_middle:
  "sorted_wrt R (A @ B @ C) \<Longrightarrow> sorted_wrt R (A @ filter Q B @ C)"
  by (auto simp: sorted_wrt_append sorted_wrt_filter)

lemma scan_leaves_ok:
  assumes rt: "distinct (addrs rt)" "chain_ok (leaves rt) None" "bt_inv M rt" and lohi: "lo < hi"
    and "p < length (leaves rt)"
    and "sorted_wrt (\<lambda>x y. fst x < fst y)
           (res @ concat (map leaf_entries (drop p (leaves rt))))"
  shows "scan_leaves rt (leaves rt ! p) lo hi res
         = Some (res @ filter (\<lambda>x. lo \<le> fst x \<and> fst x < hi)
                         (concat (map leaf_entries (drop p (leaves rt)))))"
  using assms(5,6)
proof (induction "length (leaves rt) - p" arbitrary: p res)
  case 0
  then show ?case by simp
next
  case (Suc d)
  define ls where "ls = leaves rt"
  define cur where "cur = ls ! p"
  define E where "E = leaf_entries cur"
  define rest where "rest = concat (map leaf_entries (drop (Suc p) ls))"
  let ?P = "\<lambda>x. lo \<le> fst x \<and> fst x < hi"
  have p: "p < length ls" using Suc.prems(1) by (simp add: ls_def)
  have dr: "drop p ls = cur # drop (Suc p) ls" using p by (simp add: cur_def Cons_nth_drop_Suc)
  have all: "concat (map leaf_entries (drop p ls)) = E @ rest"
    using dr by (simp add: E_def rest_def)
  have srt: "sorted_wrt (\<lambda>x y. fst x < fst y) (res @ E @ rest)"
    using Suc.prems(2) all by (simp add: ls_def)
  have "cur \<in> set ls" using p by (simp add: cur_def)
  then have "is_leaf cur" "bt_inv M cur" using leaves_inv[OF rt(3), of cur] by (simp_all add: ls_def)
  then have c: "sorted_wrt (<) (keys cur)" "length (vals cur) = length (keys cur)"
    using bt_inv_leaf[of cur M] by simp_all
  have kE: "keys cur = map fst E" using c(2) by (simp add: E_def leaf_entries_def)
  have res_lt: "\<forall>x \<in> set res. \<forall>k \<in> set (keys cur). fst x < k"
    using srt by (auto simp: sorted_wrt_append kE)
  have sk: "scan_keys cur (lower_bound (keys cur) lo) hi res
         = Some (res @ filter ?P E, \<exists>k \<in> set (keys cur). hi \<le> k)"
    using scan_leaf_ok[OF c res_lt lohi] by (simp add: E_def)
  show ?case
  proof (cases "\<exists>k \<in> set (keys cur). hi \<le> k")
    case True
    then obtain k where k: "k \<in> set (keys cur)" "hi \<le> k" by blast
    then obtain x where x: "x \<in> set E" "fst x = k" by (auto simp: kE)
    have "\<forall>y \<in> set rest. hi \<le> fst y"
    proof
      fix y assume "y \<in> set rest"
      then have "fst x < fst y" using srt x(1) by (auto simp: sorted_wrt_append)
      then show "hi \<le> fst y" using k(2) x(2) by simp
    qed
    then have "filter ?P rest = []" by (auto simp: filter_empty_conv)
    moreover have "scan_leaves rt cur lo hi res = Some (res @ filter ?P E)"
      using scan_leaves.simps[of rt cur lo hi res] sk True by simp
    ultimately show ?thesis using all by (simp add: ls_def cur_def)
  next
    case False
    have nx: "nxt cur = (if Suc p < length ls then Some (addr (ls ! Suc p)) else None)"
      using chain_ok_nth[OF rt(2), of p] p by (simp add: ls_def cur_def)
    show ?thesis
    proof (cases "Suc p < length ls")
      case False
      then have "rest = []" by (simp add: rest_def)
      moreover have "scan_leaves rt cur lo hi res = Some (res @ filter ?P E)"
        using scan_leaves.simps[of rt cur lo hi res] sk \<open>\<not> (\<exists>k \<in> set (keys cur). hi \<le> k)\<close>
          nx False by simp
      ultimately show ?thesis using all by (simp add: ls_def cur_def)
    next
      case True
      have "ls ! Suc p \<in> set (leaves rt)" using True by (simp add: ls_def)
      then have lk: "lookup_node rt (addr (ls ! Suc p)) = Some (ls ! Suc p)"
        using lookup_leaf[OF rt(1)] by simp
      have step: "scan_leaves rt cur lo hi res
                    = scan_leaves rt (ls ! Suc p) lo hi (res @ filter ?P E)"
        using scan_leaves.simps[of rt cur lo hi res] sk \<open>\<not> (\<exists>k \<in> set (keys cur). hi \<le> k)\<close>
          nx True lk by simp
      have srt': "sorted_wrt (\<lambda>x y. fst x < fst y)
           ((res @ filter ?P E) @ concat (map leaf_entries (drop (Suc p) (leaves rt))))"
        using sorted_wrt_filter_middle[OF srt, of ?P] by (simp add: rest_def ls_def)
      have d: "d = length (leaves rt) - Suc p" using Suc.hyps(2) by simp
      have t: "Suc p < length (leaves rt)" using True by (simp add: ls_def)
      have "scan_leaves rt (leaves rt ! Suc p) lo hi (res @ filter ?P E)
          = Some ((res @ filter ?P E) @ filter ?P rest)"
        using Suc.hyps(1)[OF d t srt'] by (simp add: rest_def ls_def)
      then show ?thesis using step all by (simp add: ls_def cur_def)
    qed
  qed
qed

lemma range_search_ok:
  assumes "bt_wf M t" "lo < hi"
  shows "range_search t lo hi
         = Some (filter (\<lambda>x. lo \<le> fst x \<and> fst x < hi) (entries (root t)))"
proof -
  have wf: "bt_inv M (root t)" "chain_ok (leaves (root t)) None" "distinct (addrs (root t))"
    using assms(1) by (simp_all add: bt_wf_def)
  obtain pre lf post where f: "find_leaf (root t) lo = Some lf"
    "leaves (root t) = pre @ lf # post"
    "\<forall>x \<in> set (concat (map leaf_entries pre)). fst x < lo"
    using find_leaf_ok[OF wf(1), of lo] by blast
  define p where "p = length pre"
  have p: "p < length (leaves (root t))" "leaves (root t) ! p = lf"
    "drop p (leaves (root t)) = lf # post" "take p (leaves (root t)) = pre"
    using f(2) by (simp_all add: p_def)
  define E where "E = concat (map leaf_entries (drop p (leaves (root t))))"
  have en: "entries (root t) = concat (map leaf_entries pre) @ E"
    using f(2) p(3) by (simp add: entries_def E_def)
  have srt: "sorted_wrt (\<lambda>x y. fst x < fst y) ([] @ E)"
    using entries_sorted[OF wf(1)] en by (simp add: sorted_wrt_append)
  have "scan_leaves (root t) lf lo hi [] = Some ([] @ filter (\<lambda>x. lo \<le> fst x \<and> fst x < hi) E)"
    using scan_leaves_ok[OF wf(3,2,1) assms(2) p(1), of "[]"] srt p(2) by (simp add: E_def)
  moreover have "filter (\<lambda>x. lo \<le> fst x \<and> fst x < hi) (concat (map leaf_entries pre)) = []"
    unfolding filter_empty_conv
  proof
    fix x assume "x \<in> set (concat (map leaf_entries pre))"
    then have "fst x < lo" using f(3) by blast
    then show "\<not> (lo \<le> fst x \<and> fst x < hi)" by (simp add: not_le)
  qed
  moreover have "\<not> hi \<le> lo" using assms(2) by (simp add: not_le)
  ultimately show ?thesis
    using f(1) en by (simp add: range_search_def)
qed

lemma bt_insert_all_reachable:
  "bt_reachable M t \<Longrightarrow> bt_insert_all M t ops = Some t' \<Longrightarrow> bt_reachable M t'"
proof (induction ops arbitrary: t)
  case Nil
  then show ?case by simp
next
  case (Cons kv ops)
  obtain key val where kv: "kv = (key, val)" by (cases kv)
  from Cons.prems(2) obtain b t1 where s: "bt_insert M t key val = Some (b, t1)"
    "bt_insert_all M t1 ops = Some t'"
    by (auto simp: kv split: option.splits)
  have "bt_reachable M t1" using bt_step[OF Cons.prems(1) s(1)] .
  then show ?case using Cons.IH s(2) by blast
qed

lemma bt_example_tree:
  "bt_insert_all 4 bt_init
     [(''01'', ''a''), (''02'', ''b''), (''03'', ''c''), (''04'', ''d''), (''05'', ''e'')]
   = Some \<lparr> root = Node [''03''] []
               [Node [''01'', ''02''] [{''a''}, {''b''}] [] (Some 1) True 0,
                Node [''03'', ''04'', ''05''] [{''c''}, {''d''}, {''e''}] [] None True 1]
               None False 2,
            next_addr = 3 \<rparr>"
  by (simp add: bt_insert_def optimistic_insert_def bt_init_def descend.simps crab.simps
      pessimistic_insert_def insert_recursive.simps insert_into_leaf_def split_leaf_def
      is_safe_for_insert_def MAX_KEYS_LEAF_def put_in_leaf_def lower_bound_def vector_insert_def)

subsection \<open>Range search\<close>

text \<open>
  Claim C4: let \<open>t\<close> be a tree built from the empty tree by any sequence of \<open>insert\<close>
  operations (order \<open>M\<close> at least 2), and let \<open>lo < hi\<close>. The pairs stored in the leaves
  of \<open>t\<close>, read from left to right, are in strictly ascending key order, and they are
  what \<open>search\<close> sees: \<open>search k\<close> returns the value set paired with \<open>k\<close>, or the empty
  set when no pair has key \<open>k\<close>. \<open>range_search lo hi\<close> returns, in that same ascending
  order, exactly the stored pairs whose key \<open>k\<close> satisfies \<open>lo \<le> k < hi\<close>, each key with
  its full value set, and no other pair.
\<close>

theorem range_search_exact:
  assumes "bt_reachable M t" and "2 \<le> M" and "lo < hi"
  shows "range_search t lo hi
           = Some (filter (\<lambda>(k, vs). lo \<le> k \<and> k < hi) (entries (root t)))
       \<and> sorted_wrt (<) (map fst (entries (root t)))
       \<and> sorted_wrt (<) (map fst (filter (\<lambda>(k, vs). lo \<le> k \<and> k < hi) (entries (root t))))
       \<and> (\<forall>k. search t k
               = Some (case map_of (entries (root t)) k of None \<Rightarrow> {} | Some vs \<Rightarrow> vs))"
proof -
  have wf: "bt_wf M t" using bt_reachable_wf[OF assms(1,2)] .
  then have inv: "bt_inv M (root t)" by (simp add: bt_wf_def)
  have eq: "(\<lambda>(k, vs). lo \<le> k \<and> k < hi) = (\<lambda>x :: 'a \<times> 'b set. lo \<le> fst x \<and> fst x < hi)"
    by (simp add: fun_eq_iff)
  have r: "range_search t lo hi
           = Some (filter (\<lambda>(k, vs). lo \<le> k \<and> k < hi) (entries (root t)))"
    using range_search_ok[OF wf assms(3)] unfolding eq .
  have s: "sorted_wrt (\<lambda>x y. fst x < fst y) (entries (root t))"
    using entries_sorted[OF inv] .
  then have s1: "sorted_wrt (<) (map fst (entries (root t)))" by (simp add: sorted_wrt_map)
  have "sorted_wrt (\<lambda>x y. fst x < fst y)
          (filter (\<lambda>(k, vs). lo \<le> k \<and> k < hi) (entries (root t)))"
    using s by (rule sorted_wrt_filter)
  then have s2: "sorted_wrt (<)
          (map fst (filter (\<lambda>(k, vs). lo \<le> k \<and> k < hi) (entries (root t))))"
    by (simp add: sorted_wrt_map)
  have "\<forall>k. search t k
               = Some (case map_of (entries (root t)) k of None \<Rightarrow> {} | Some vs \<Rightarrow> vs)"
    using search_ok[OF inv] by simp
  then show ?thesis using r s1 s2 by simp
qed

theorem range_search_exact_witness:
  "bt_reachable 4
     \<lparr> root = Node [''03''] []
               [Node [''01'', ''02''] [{''a''}, {''b''}] [] (Some 1) True 0,
                Node [''03'', ''04'', ''05''] [{''c''}, {''d''}, {''e''}] [] None True 1]
               None False 2,
       next_addr = 3 \<rparr>
   \<and> (2::nat) \<le> 4 \<and> ''02'' < ''05''
   \<and> range_search
       \<lparr> root = Node [''03''] []
               [Node [''01'', ''02''] [{''a''}, {''b''}] [] (Some 1) True 0,
                Node [''03'', ''04'', ''05''] [{''c''}, {''d''}, {''e''}] [] None True 1]
               None False 2,
         next_addr = 3 \<rparr> ''02'' ''05''
     = Some [(''02'', {''b''}), (''03'', {''c''}), (''04'', {''d''})]"
proof -
  let ?t = "\<lparr> root = Node [''03''] []
               [Node [''01'', ''02''] [{''a''}, {''b''}] [] (Some 1) True 0,
                Node [''03'', ''04'', ''05''] [{''c''}, {''d''}, {''e''}] [] None True 1]
               None False (2::nat),
             next_addr = (3::nat) \<rparr>"
  have reach: "bt_reachable 4 ?t"
    using bt_insert_all_reachable[OF bt_start bt_example_tree] .
  have lt: "''02'' < ''05''" by simp
  show ?thesis
    using range_search_exact[OF reach _ lt] reach
    by (simp add: entries_def leaf_entries_def)
qed

section \<open>Verification of the lock-free skip list\<close>

subsection \<open>The heap\<close>

lemma nth_update_same:
  "(xs[a := f (xs ! a)]) ! b = (if a < length xs \<and> b = a then f (xs ! a) else xs ! b)"
  by (cases "a < length xs") (auto simp: nth_list_update list_update_beyond not_less)

lemma nth_update_any:
  "(xs[a := x]) ! b = (if a < length xs \<and> b = a then x else xs ! b)"
  by (cases "a < length xs") (auto simp: nth_list_update list_update_beyond not_less)

lemma store_fields:
  "length (heap (store s a lv p)) = length (heap s)"
  "sl_head (store s a lv p) = sl_head s"
  "sl_tail (store s a lv p) = sl_tail s"
  by (simp_all add: store_def)

lemma store_node:
  "key_of (store s a lv p) b = key_of s b"
  "values_of (store s a lv p) b = values_of s b"
  "level_of (store s a lv p) b = level_of s b"
  "length (sl_next (heap (store s a lv p) ! b)) = length (sl_next (heap s ! b))"
  by (simp_all add: store_def key_of_def values_of_def level_of_def nth_update_same)

lemma store_node_fun:
  "key_of (store s a lv p) = key_of s"
  "values_of (store s a lv p) = values_of s"
  "level_of (store s a lv p) = level_of s"
  by (simp_all add: fun_eq_iff store_node)

lemma valid_store: "valid (store s a lv p) b l = valid s b l"
  by (simp add: valid_def store_fields store_node)

lemma nx_store:
  "nx (store s a lv p) b l = (if valid s a lv \<and> b = a \<and> l = lv then p else nx s b l)"
  by (auto simp: store_def nx_def valid_def nth_update_same nth_update_any)

lemma same_nodes_refl: "same_nodes s s"
  by (simp add: same_nodes_def)

lemma same_nodes_trans: "same_nodes s s1 \<Longrightarrow> same_nodes s1 s2 \<Longrightarrow> same_nodes s s2"
  by (simp add: same_nodes_def)

lemma same_nodes_marked: "same_nodes s s' \<Longrightarrow> marked s' a = marked s a"
  by (simp add: same_nodes_def marked_def)

lemma same_nodes_content: "same_nodes s s' \<Longrightarrow> content s' xs = content s xs"
  by (auto simp: content_def fun_eq_iff same_nodes_marked) (auto simp: same_nodes_def)

lemma nodes_ok_marks:
  "nodes_ok s \<Longrightarrow> a < length (heap s) \<Longrightarrow> lv < level_of s a
     \<Longrightarrow> is_marked (nx s a lv) = marked s a"
  by (simp add: nodes_ok_def)

lemma nodes_ok_valid:
  "nodes_ok s \<Longrightarrow> a < length (heap s) \<Longrightarrow> valid s a lv \<longleftrightarrow> lv < level_of s a"
  by (simp add: nodes_ok_def valid_def)

text \<open>Writing an unmarked pointer into a slot of a node that is not deleted.\<close>

lemma store_same_nodes:
  assumes "nodes_ok s" and "a < length (heap s)" and "lv < level_of s a" and "\<not> marked s a"
  shows "same_nodes s (store s a lv (z, False))"
proof -
  have "is_marked (nx (store s a lv (z, False)) b l) = is_marked (nx s b l)" for b l
    using nodes_ok_marks[OF assms(1,2,3)] assms(4)
    by (simp add: nx_store is_marked_def)
  then show ?thesis by (simp add: same_nodes_def store_fields store_node)
qed

lemma nodes_ok_store:
  assumes "nodes_ok s" and "a < length (heap s)" and "lv < level_of s a" and "\<not> marked s a"
    and "a \<noteq> sl_tail s"
  shows "nodes_ok (store s a lv (z, False))"
proof -
  let ?s = "store s a lv (z, False)"
  have sn: "same_nodes s ?s" using store_same_nodes[OF assms(1-4)] .
  have m: "marked ?s b = marked s b" for b using same_nodes_marked[OF sn] .
  have mk: "is_marked (nx ?s b l) = is_marked (nx s b l)" for b l
    using sn by (simp add: same_nodes_def)
  have t: "fst (nx ?s (sl_tail s) l) = fst (nx s (sl_tail s) l)" for l
    using assms(5) by (simp add: nx_store)
  show ?thesis
    using assms(1) unfolding nodes_ok_def
    by (simp add: store_fields store_node m mk t)
qed

subsection \<open>Paths and level chains\<close>

lemma sl_path_cong:
  "\<forall>x \<in> set (a # xs). fst (nx s' x lv) = fst (nx s x lv)
     \<Longrightarrow> sl_path s' lv a xs b = sl_path s lv a xs b"
  by (induction xs arbitrary: a) auto

lemma sl_path_append:
  "sl_path s lv a (xs @ ys) b
     \<longleftrightarrow> sl_path s lv a xs (hd (ys @ [b])) \<and> sl_path s lv (last (a # xs)) ys b"
proof (induction xs arbitrary: a)
  case Nil
  show ?case by (cases ys) auto
next
  case (Cons x xs)
  show ?case using Cons[of x] by simp
qed

lemma sl_path_last_store:
  assumes "sl_path s lv a xs q" and "last (a # xs) = p" and "distinct (a # xs)"
    and "valid s p lv"
  shows "sl_path (store s p lv (Some z, m)) lv a xs z"
  using assms(1-3)
proof (induction xs arbitrary: a)
  case Nil
  then show ?case using assms(4) by (simp add: nx_store)
next
  case (Cons x xs)
  have "a \<noteq> p" using Cons.prems(2,3) by (auto simp: last_in_set split: if_splits)
  then have "fst (nx (store s p lv (Some z, m)) a lv) = Some x"
    using Cons.prems(1) by (simp add: nx_store)
  moreover have "sl_path (store s p lv (Some z, m)) lv x xs z"
    using Cons.IH[of x] Cons.prems by simp
  ultimately show ?case by simp
qed

lemma sl_path_relink:
  assumes "sl_path s lv a A q" and "distinct (a # A)" and "p = last (a # A)"
    and "valid s p lv" and "p \<notin> set C" and "C \<noteq> [] \<Longrightarrow> sl_path s lv (hd C) (tl C) b"
  shows "sl_path (store s p lv (Some (hd (C @ [b])), m)) lv a (A @ C) b"
proof -
  let ?s = "store s p lv (Some (hd (C @ [b])), m)"
  have 1: "sl_path ?s lv a A (hd (C @ [b]))"
    using sl_path_last_store[OF assms(1) assms(3)[symmetric] assms(2,4)] .
  have 2: "sl_path ?s lv p C b"
  proof (cases C)
    case Nil
    then show ?thesis using assms(4) by (simp add: nx_store)
  next
    case (Cons c C')
    have "\<forall>x \<in> set (c # C'). fst (nx ?s x lv) = fst (nx s x lv)"
      using assms(5) Cons by (auto simp: nx_store)
    then have "sl_path ?s lv c C' b = sl_path s lv c C' b" by (rule sl_path_cong)
    then show ?thesis using assms(4,6) Cons by (simp add: nx_store)
  qed
  show ?thesis using 1 2 assms(3) by (simp add: sl_path_append)
qed

lemma level_chain_distinct:
  assumes "level_chain s lv xs"
  shows "distinct (sl_head s # xs)"
proof -
  have "sorted_wrt (<) (map (key_of s) xs)" using assms by (simp add: level_chain_def)
  then have "distinct (map (key_of s) xs)" by (simp add: strict_sorted_iff)
  then have "distinct xs" by (simp add: distinct_map)
  then show ?thesis using assms by (auto simp: level_chain_def)
qed

lemma level_chain_cong:
  assumes "same_nodes s s'"
    and "\<forall>x \<in> set (sl_head s # xs). fst (nx s' x lv) = fst (nx s x lv)"
  shows "level_chain s' lv xs = level_chain s lv xs"
proof -
  have h: "sl_head s' = sl_head s" "sl_tail s' = sl_tail s" "length (heap s') = length (heap s)"
    "key_of s' = key_of s" "level_of s' = level_of s"
    using assms(1) by (simp_all add: same_nodes_def fun_eq_iff)
  have "sl_path s' lv (sl_head s) xs (sl_tail s) = sl_path s lv (sl_head s) xs (sl_tail s)"
    using assms(2) by (rule sl_path_cong)
  then show ?thesis by (simp add: level_chain_def h)
qed

lemma chain_node:
  assumes "nodes_ok s" and "level_chain s lv xs" and "lv < MAX_LEVEL"
    and "p \<in> set (sl_head s # xs)"
  shows "p < length (heap s)" "lv < level_of s p" "p \<noteq> sl_tail s" "valid s p lv"
proof -
  show 1: "p < length (heap s)" and 2: "lv < level_of s p" and "p \<noteq> sl_tail s"
    using assms by (auto simp: nodes_ok_def level_chain_def)
  show "valid s p lv" using nodes_ok_valid[OF assms(1) 1] 2 by simp
qed

subsection \<open>Steps that keep the invariant\<close>

lemma inv_nodes: "sl_inv_ch s ch \<Longrightarrow> nodes_ok s"
  by (simp add: sl_inv_ch_def)

lemma inv_chain: "sl_inv_ch s ch \<Longrightarrow> lv < MAX_LEVEL \<Longrightarrow> level_chain s lv (ch lv)"
  by (simp add: sl_inv_ch_def)

lemma inv_down:
  "sl_inv_ch s ch \<Longrightarrow> Suc lv < MAX_LEVEL \<Longrightarrow> a \<in> set (ch (Suc lv)) \<Longrightarrow> \<not> marked s a
     \<Longrightarrow> a \<in> set (ch lv)"
  by (simp add: sl_inv_ch_def)

lemma inv_store:
  assumes inv: "sl_inv_ch s ch"
    and a: "a < length (heap s)" "l < level_of s a" "\<not> marked s a" "a \<noteq> sl_tail s"
    and l: "l < MAX_LEVEL"
    and new: "level_chain (store s a l (z, False)) l xs"
    and down: "\<forall>b \<in> set xs. \<not> marked s b \<longrightarrow> l = 0 \<or> b \<in> set (ch (l - 1))"
    and up: "Suc l < MAX_LEVEL \<longrightarrow> (\<forall>b \<in> set (ch (Suc l)). \<not> marked s b \<longrightarrow> b \<in> set xs)"
  shows "sl_inv_ch (store s a l (z, False)) (ch(l := xs))"
proof -
  let ?s = "store s a l (z, False)"
  have ok: "nodes_ok s" using inv by (simp add: sl_inv_ch_def)
  have sn: "same_nodes s ?s" using store_same_nodes[OF ok a(1-3)] .
  have m: "marked ?s b = marked s b" for b using same_nodes_marked[OF sn] .
  have 1: "nodes_ok ?s" using nodes_ok_store[OF ok a] .
  have 2: "\<forall>lv < MAX_LEVEL. level_chain ?s lv ((ch(l := xs)) lv)"
  proof (intro allI impI)
    fix lv assume lv: "lv < MAX_LEVEL"
    show "level_chain ?s lv ((ch(l := xs)) lv)"
    proof (cases "lv = l")
      case True
      then show ?thesis using new by simp
    next
      case False
      have "\<forall>x \<in> set (sl_head s # ch lv). fst (nx ?s x lv) = fst (nx s x lv)"
        using False by (simp add: nx_store)
      then have "level_chain ?s lv (ch lv) = level_chain s lv (ch lv)"
        using level_chain_cong[OF sn] by blast
      then show ?thesis using inv lv False by (simp add: sl_inv_ch_def)
    qed
  qed
  have 3: "\<forall>lv. Suc lv < MAX_LEVEL \<longrightarrow>
            (\<forall>b \<in> set ((ch(l := xs)) (Suc lv)). \<not> marked ?s b \<longrightarrow> b \<in> set ((ch(l := xs)) lv))"
  proof (intro allI impI ballI)
    fix lv b
    assume lv: "Suc lv < MAX_LEVEL" and b: "b \<in> set ((ch(l := xs)) (Suc lv))"
      and nm: "\<not> marked ?s b"
    have old: "\<forall>b \<in> set (ch (Suc lv)). \<not> marked s b \<longrightarrow> b \<in> set (ch lv)"
      using inv lv by (simp add: sl_inv_ch_def)
    show "b \<in> set ((ch(l := xs)) lv)"
    proof (cases "Suc lv = l")
      case True
      then have "b \<in> set xs" "lv = l - 1" "l \<noteq> 0" "lv \<noteq> l" using b by auto
      then show ?thesis using down nm m by auto
    next
      case False
      then have b': "b \<in> set (ch (Suc lv))" using b by simp
      show ?thesis
      proof (cases "lv = l")
        case True
        then show ?thesis using up lv b' nm m by auto
      next
        case False
        then show ?thesis using old b' nm m by auto
      qed
    qed
  qed
  show ?thesis using 1 2 3 by (simp add: sl_inv_ch_def)
qed

text \<open>Unlinking a deleted node \<open>c\<close> from level \<open>lv\<close>, at its predecessor.\<close>

lemma inv_unlink:
  assumes inv: "sl_inv_ch s ch" and lv: "lv < MAX_LEVEL"
    and ch: "ch lv = A @ c # R" and p: "p = last (sl_head s # A)"
    and pm: "\<not> marked s p" and cm: "marked s c"
  shows "sl_inv_ch (store s p lv (Some (hd (R @ [sl_tail s])), False)) (ch(lv := A @ R))"
proof -
  let ?s = "store s p lv (Some (hd (R @ [sl_tail s])), False)"
  have ok: "nodes_ok s" using inv by (simp add: sl_inv_ch_def)
  have c0: "level_chain s lv (A @ c # R)" using inv_chain[OF inv lv] ch by simp
  have pin: "p \<in> set (sl_head s # A @ c # R)" using p by (cases A rule: rev_cases) auto
  note pn = chain_node[OF ok c0 lv pin]
  have sn: "same_nodes s ?s" using store_same_nodes[OF ok pn(1,2) pm] .
  have d: "distinct (sl_head s # A @ c # R)" using level_chain_distinct[OF c0] .
  have path: "sl_path s lv (sl_head s) (A @ c # R) (sl_tail s)"
    using c0 by (simp add: level_chain_def)
  have pA: "sl_path s lv (sl_head s) A c" using path by (simp add: sl_path_append)
  have pR: "sl_path s lv c R (sl_tail s)" using path by (simp add: sl_path_append)
  have pR': "R \<noteq> [] \<Longrightarrow> sl_path s lv (hd R) (tl R) (sl_tail s)"
    using pR by (cases R) auto
  have pnot: "p \<notin> set R" using d p by (cases A rule: rev_cases) auto
  have dA: "distinct (sl_head s # A)" using d by auto
  have "sl_path ?s lv (sl_head s) (A @ R) (sl_tail s)"
    using sl_path_relink[OF pA dA p pn(4) pnot pR'] by simp
  moreover have "sorted_wrt (<) (map (key_of s) (A @ R))"
    using c0 by (auto simp: level_chain_def sorted_wrt_append)
  ultimately have new: "level_chain ?s lv (A @ R)"
    using c0 by (auto simp: level_chain_def store_fields store_node_fun)
  have down: "\<forall>b \<in> set (A @ R). \<not> marked s b \<longrightarrow> lv = 0 \<or> b \<in> set (ch (lv - 1))"
  proof (intro ballI impI)
    fix b assume b: "b \<in> set (A @ R)" and nm: "\<not> marked s b"
    show "lv = 0 \<or> b \<in> set (ch (lv - 1))"
    proof (cases lv)
      case 0
      then show ?thesis by simp
    next
      case (Suc j)
      have "\<forall>b \<in> set (ch (Suc j)). \<not> marked s b \<longrightarrow> b \<in> set (ch j)"
        using inv lv Suc by (simp add: sl_inv_ch_def)
      then show ?thesis using b nm ch Suc by auto
    qed
  qed
  have up: "Suc lv < MAX_LEVEL \<longrightarrow> (\<forall>b \<in> set (ch (Suc lv)). \<not> marked s b \<longrightarrow> b \<in> set (A @ R))"
  proof (intro ballI impI)
    fix b assume "Suc lv < MAX_LEVEL" and b: "b \<in> set (ch (Suc lv))" and nm: "\<not> marked s b"
    then have "b \<in> set (ch lv)" using inv by (simp add: sl_inv_ch_def)
    then show "b \<in> set (A @ R)" using ch nm cm by auto
  qed
  show ?thesis using inv_store[OF inv pn(1,2) pm pn(3) lv new down up] .
qed

text \<open>Linking a node \<open>n\<close>, whose pointer of level \<open>lv\<close> is already set, into level \<open>lv\<close>.\<close>

lemma inv_link:
  assumes inv: "sl_inv_ch s ch" and lv: "lv < MAX_LEVEL"
    and ch: "ch lv = A @ R" and p: "p = last (sl_head s # A)" and pm: "\<not> marked s p"
    and n: "n < length (heap s)" "n \<noteq> sl_head s" "n \<noteq> sl_tail s" "lv < level_of s n"
      "\<not> marked s n" "n \<notin> set (ch lv)"
    and nn: "fst (nx s n lv) = Some (hd (R @ [sl_tail s]))"
    and keys: "\<forall>a \<in> set A. key_of s a < key_of s n" "\<forall>a \<in> set R. key_of s n < key_of s a"
    and below: "lv = 0 \<or> n \<in> set (ch (lv - 1))"
  shows "sl_inv_ch (store s p lv (Some n, False)) (ch(lv := A @ n # R))"
proof -
  let ?s = "store s p lv (Some n, False)"
  have ok: "nodes_ok s" using inv by (simp add: sl_inv_ch_def)
  have c0: "level_chain s lv (A @ R)" using inv_chain[OF inv lv] ch by simp
  have pin: "p \<in> set (sl_head s # A @ R)" using p by (cases A rule: rev_cases) auto
  note pn = chain_node[OF ok c0 lv pin]
  have sn: "same_nodes s ?s" using store_same_nodes[OF ok pn(1,2) pm] .
  have d: "distinct (sl_head s # A @ R)" using level_chain_distinct[OF c0] .
  have path: "sl_path s lv (sl_head s) (A @ R) (sl_tail s)"
    using c0 by (simp add: level_chain_def)
  have pA: "sl_path s lv (sl_head s) A (hd (R @ [sl_tail s]))"
    using path by (simp add: sl_path_append)
  have pR: "sl_path s lv p R (sl_tail s)" using path p by (simp add: sl_path_append)
  have "sl_path s lv n R (sl_tail s)"
    using pR nn by (cases R) auto
  then have pC: "n # R \<noteq> [] \<Longrightarrow> sl_path s lv (hd (n # R)) (tl (n # R)) (sl_tail s)" by simp
  have pnot: "p \<notin> set (n # R)"
  proof -
    have "p \<notin> set R" using d p by (cases A rule: rev_cases) auto
    moreover have "p \<noteq> n" using pin n(2,6) ch by auto
    ultimately show ?thesis by simp
  qed
  have dA: "distinct (sl_head s # A)" using d by auto
  have "sl_path ?s lv (sl_head s) (A @ n # R) (sl_tail s)"
    using sl_path_relink[OF pA dA p pn(4) pnot pC] by simp
  moreover have "sorted_wrt (<) (map (key_of s) (A @ n # R))"
    using c0 keys by (auto simp: level_chain_def sorted_wrt_append)
  ultimately have new: "level_chain ?s lv (A @ n # R)"
    using c0 n by (auto simp: level_chain_def store_fields store_node_fun)
  have down: "\<forall>b \<in> set (A @ n # R). \<not> marked s b \<longrightarrow> lv = 0 \<or> b \<in> set (ch (lv - 1))"
  proof (intro ballI impI)
    fix b assume b: "b \<in> set (A @ n # R)" and nm: "\<not> marked s b"
    show "lv = 0 \<or> b \<in> set (ch (lv - 1))"
    proof (cases lv)
      case 0
      then show ?thesis by simp
    next
      case (Suc j)
      have "\<forall>b \<in> set (ch (Suc j)). \<not> marked s b \<longrightarrow> b \<in> set (ch j)"
        using inv lv Suc by (simp add: sl_inv_ch_def)
      then show ?thesis using b nm ch Suc below by auto
    qed
  qed
  have up: "Suc lv < MAX_LEVEL \<longrightarrow>
              (\<forall>b \<in> set (ch (Suc lv)). \<not> marked s b \<longrightarrow> b \<in> set (A @ n # R))"
  proof (intro ballI impI)
    fix b assume "Suc lv < MAX_LEVEL" and b: "b \<in> set (ch (Suc lv))" and nm: "\<not> marked s b"
    then have "b \<in> set (ch lv)" using inv by (simp add: sl_inv_ch_def)
    then show "b \<in> set (A @ n # R)" using ch by auto
  qed
  show ?thesis using inv_store[OF inv pn(1,2) pm pn(3) lv new down up] .
qed

text \<open>Setting a pointer of a node that is not linked into that level.\<close>

lemma inv_prepare:
  assumes inv: "sl_inv_ch s ch" and lv: "lv < MAX_LEVEL"
    and n: "n < length (heap s)" "n \<noteq> sl_head s" "n \<noteq> sl_tail s" "lv < level_of s n"
      "\<not> marked s n" "n \<notin> set (ch lv)"
  shows "sl_inv_ch (store s n lv (z, False)) ch"
proof -
  let ?s = "store s n lv (z, False)"
  have ok: "nodes_ok s" using inv by (simp add: sl_inv_ch_def)
  have sn: "same_nodes s ?s" using store_same_nodes[OF ok n(1,4,5)] .
  have c0: "level_chain s lv (ch lv)" using inv lv by (simp add: sl_inv_ch_def)
  have "\<forall>x \<in> set (sl_head s # ch lv). fst (nx ?s x lv) = fst (nx s x lv)"
    using n(2,6) by (auto simp: nx_store)
  then have new: "level_chain ?s lv (ch lv)"
    using level_chain_cong[OF sn] c0 by blast
  have down: "\<forall>b \<in> set (ch lv). \<not> marked s b \<longrightarrow> lv = 0 \<or> b \<in> set (ch (lv - 1))"
  proof (intro ballI impI)
    fix b assume b: "b \<in> set (ch lv)" and nm: "\<not> marked s b"
    show "lv = 0 \<or> b \<in> set (ch (lv - 1))"
    proof (cases lv)
      case 0
      then show ?thesis by simp
    next
      case (Suc j)
      have "\<forall>b \<in> set (ch (Suc j)). \<not> marked s b \<longrightarrow> b \<in> set (ch j)"
        using inv lv Suc by (simp add: sl_inv_ch_def)
      then show ?thesis using b nm Suc by auto
    qed
  qed
  have up: "Suc lv < MAX_LEVEL \<longrightarrow> (\<forall>b \<in> set (ch (Suc lv)). \<not> marked s b \<longrightarrow> b \<in> set (ch lv))"
    using inv by (simp add: sl_inv_ch_def)
  have "sl_inv_ch ?s (ch(lv := ch lv))"
    using inv_store[OF inv n(1,4,5,3) lv new down up] .
  then show ?thesis by simp
qed

text \<open>A step that changes no pointer target and no key, and unmarks nothing.\<close>

lemma inv_same_links:
  assumes inv: "sl_inv_ch s ch"
    and shape: "length (heap s') = length (heap s)" "sl_head s' = sl_head s"
      "sl_tail s' = sl_tail s" "key_of s' = key_of s" "level_of s' = level_of s"
      "\<forall>b. length (sl_next (heap s' ! b)) = length (sl_next (heap s ! b))"
    and links: "\<forall>b l. fst (nx s' b l) = fst (nx s b l)"
    and marks: "\<forall>b. marked s b \<longrightarrow> marked s' b"
    and uniform: "\<forall>b < length (heap s). \<forall>l < level_of s b. is_marked (nx s' b l) = marked s' b"
    and hd: "\<not> marked s' (sl_head s)"
  shows "sl_inv_ch s' ch"
proof -
  have ok: "nodes_ok s" using inv by (rule inv_nodes)
  have 1: "nodes_ok s'"
    using ok shape links uniform hd unfolding nodes_ok_def by simp
  have 2: "\<forall>lv < MAX_LEVEL. level_chain s' lv (ch lv)"
  proof (intro allI impI)
    fix lv assume lv: "lv < MAX_LEVEL"
    have "sl_path s' lv (sl_head s) (ch lv) (sl_tail s) = sl_path s lv (sl_head s) (ch lv) (sl_tail s)"
      using links by (intro sl_path_cong) simp
    then show "level_chain s' lv (ch lv)"
      using inv_chain[OF inv lv] shape by (simp add: level_chain_def)
  qed
  have 3: "\<forall>lv. Suc lv < MAX_LEVEL \<longrightarrow>
            (\<forall>b \<in> set (ch (Suc lv)). \<not> marked s' b \<longrightarrow> b \<in> set (ch lv))"
    using inv_down[OF inv] marks by blast
  show ?thesis using 1 2 3 by (simp add: sl_inv_ch_def)
qed

lemma set_values_fields:
  "length (heap (set_values s a vs)) = length (heap s)"
  "sl_head (set_values s a vs) = sl_head s"
  "sl_tail (set_values s a vs) = sl_tail s"
  "key_of (set_values s a vs) = key_of s"
  "level_of (set_values s a vs) = level_of s"
  "nx (set_values s a vs) = nx s"
  "length (sl_next (heap (set_values s a vs) ! b)) = length (sl_next (heap s ! b))"
  "values_of (set_values s a vs) b = (if a < length (heap s) \<and> b = a then vs else values_of s b)"
  by (simp_all add: set_values_def key_of_def level_of_def nx_def values_of_def fun_eq_iff
      nth_update_same)

lemma marked_set_values: "marked (set_values s a vs) = marked s"
  by (simp add: marked_def fun_eq_iff set_values_fields)

lemma inv_set_values:
  assumes "sl_inv_ch s ch"
  shows "sl_inv_ch (set_values s a vs) ch"
proof (rule inv_same_links[OF assms])
  show "\<forall>b<length (heap s). \<forall>l<level_of s b.
          is_marked (nx (set_values s a vs) b l) = marked (set_values s a vs) b"
    using inv_nodes[OF assms] by (simp add: set_values_fields marked_set_values nodes_ok_def)
  show "\<not> marked (set_values s a vs) (sl_head s)"
    using inv_nodes[OF assms] by (simp add: marked_set_values nodes_ok_def)
qed (simp_all add: set_values_fields marked_set_values)

text \<open>Allocation of a node.\<close>

lemma alloc_old:
  assumes "b < length (heap s)"
  shows "key_of (snd (alloc s n)) b = key_of s b"
    "values_of (snd (alloc s n)) b = values_of s b"
    "level_of (snd (alloc s n)) b = level_of s b"
    "nx (snd (alloc s n)) b l = nx s b l"
    "marked (snd (alloc s n)) b = marked s b"
    "sl_next (heap (snd (alloc s n)) ! b) = sl_next (heap s ! b)"
  using assms
  by (simp_all add: alloc_def key_of_def values_of_def level_of_def nx_def marked_def nth_append)

lemma alloc_new:
  "fst (alloc s n) = length (heap s)"
  "length (heap (snd (alloc s n))) = Suc (length (heap s))"
  "sl_head (snd (alloc s n)) = sl_head s"
  "sl_tail (snd (alloc s n)) = sl_tail s"
  "key_of (snd (alloc s n)) (length (heap s)) = sl_key n"
  "values_of (snd (alloc s n)) (length (heap s)) = sl_values n"
  "level_of (snd (alloc s n)) (length (heap s)) = sl_level n"
  "nx (snd (alloc s n)) (length (heap s)) l = sl_next n ! l"
  "sl_next (heap (snd (alloc s n)) ! length (heap s)) = sl_next n"
  by (simp_all add: alloc_def key_of_def values_of_def level_of_def nx_def)

lemma inv_alloc:
  assumes inv: "sl_inv_ch s ch" and lvl: "0 < lvl" "lvl \<le> MAX_LEVEL"
  shows "sl_inv_ch (snd (alloc s (create_node k vs lvl))) ch"
proof -
  let ?n = "create_node k vs lvl"
  let ?s = "snd (alloc s ?n)"
  have ok: "nodes_ok s" using inv by (rule inv_nodes)
  have h: "sl_head s < length (heap s)" "sl_tail s < length (heap s)"
    using ok by (simp_all add: nodes_ok_def)
  have newm: "\<not> marked ?s (length (heap s))"
    using lvl by (simp add: marked_def alloc_new create_node_def is_marked_def)
  have 1: "nodes_ok ?s"
    unfolding nodes_ok_def
  proof (intro conjI allI impI)
    fix a assume a: "a < length (heap ?s)"
    show "length (sl_next (heap ?s ! a)) = level_of ?s a"
      using a ok by (cases "a < length (heap s)")
        (auto simp: alloc_old alloc_new less_Suc_eq nodes_ok_def create_node_def)
    show "0 < level_of ?s a"
      using a ok lvl by (cases "a < length (heap s)")
        (auto simp: alloc_old alloc_new less_Suc_eq nodes_ok_def create_node_def)
    show "level_of ?s a \<le> MAX_LEVEL"
      using a ok lvl by (cases "a < length (heap s)")
        (auto simp: alloc_old alloc_new less_Suc_eq nodes_ok_def create_node_def)
    fix lv assume lv: "lv < level_of ?s a"
    show "is_marked (nx ?s a lv) = marked ?s a"
    proof (cases "a < length (heap s)")
      case True
      then show ?thesis using ok lv by (simp add: alloc_old nodes_ok_def)
    next
      case False
      then have "a = length (heap s)" using a by (simp add: alloc_new)
      then show ?thesis
        using lv lvl by (simp add: alloc_new marked_def create_node_def is_marked_def)
    qed
  qed (use ok h in \<open>simp_all add: alloc_new alloc_old nodes_ok_def\<close>)
  have 2: "\<forall>lv < MAX_LEVEL. level_chain ?s lv (ch lv)"
  proof (intro allI impI)
    fix lv assume lv: "lv < MAX_LEVEL"
    have c: "level_chain s lv (ch lv)" using inv_chain[OF inv lv] .
    then have in_heap: "\<forall>x \<in> set (sl_head s # ch lv). x < length (heap s)"
      using h by (auto simp: level_chain_def)
    then have "\<forall>x \<in> set (sl_head s # ch lv). fst (nx ?s x lv) = fst (nx s x lv)"
      by (simp add: alloc_old)
    then have "sl_path ?s lv (sl_head s) (ch lv) (sl_tail s)
               = sl_path s lv (sl_head s) (ch lv) (sl_tail s)"
      by (rule sl_path_cong)
    moreover have keq: "map (key_of ?s) (ch lv) = map (key_of s) (ch lv)"
      using in_heap by (simp add: alloc_old)
    have "sorted_wrt (<) (map (key_of ?s) (ch lv))"
      unfolding keq using c by (simp add: level_chain_def)
    ultimately show "level_chain ?s lv (ch lv)"
      using c in_heap by (auto simp: level_chain_def alloc_new alloc_old)
  qed
  have 3: "\<forall>lv. Suc lv < MAX_LEVEL \<longrightarrow>
            (\<forall>b \<in> set (ch (Suc lv)). \<not> marked ?s b \<longrightarrow> b \<in> set (ch lv))"
  proof (intro allI impI ballI)
    fix lv b assume lv: "Suc lv < MAX_LEVEL" and b: "b \<in> set (ch (Suc lv))"
      and nm: "\<not> marked ?s b"
    have "b < length (heap s)" using inv_chain[OF inv lv] b by (simp add: level_chain_def)
    then have "\<not> marked s b" using nm by (simp add: alloc_old)
    then show "b \<in> set (ch lv)" using inv_down[OF inv lv b] by simp
  qed
  show ?thesis using 1 2 3 by (simp add: sl_inv_ch_def)
qed

subsection \<open>The contents of a chain\<close>

lemma content_unlink: "marked s c \<Longrightarrow> content s (A @ c # R) = content s (A @ R)"
  by (auto simp: content_def fun_eq_iff)

lemma content_cong:
  assumes "\<forall>a \<in> set xs. values_of s' a = values_of s a \<and> marked s' a = marked s a
             \<and> key_of s' a = key_of s a"
  shows "content s' xs = content s xs"
  using assms by (auto simp: content_def fun_eq_iff)

lemma content_none:
  "\<forall>a \<in> set xs. key_of s a \<noteq> k \<or> marked s a \<Longrightarrow> content s xs k = {}"
  by (auto simp: content_def)

lemma sorted_keys_inj:
  fixes s :: "('k::linorder, 'v) skiplist"
  assumes "sorted_wrt (<) (map (key_of s) xs)" and "a \<in> set xs" and "b \<in> set xs"
    and "key_of s a = key_of s b"
  shows "a = b"
proof -
  have "distinct (map (key_of s) xs)" using assms(1) by (simp add: strict_sorted_iff)
  then have "inj_on (key_of s) (set xs)" by (simp add: distinct_map)
  then show ?thesis using assms(2-4) by (auto dest: inj_onD)
qed

lemma content_single:
  fixes s :: "('k::linorder, 'v) skiplist"
  assumes "sorted_wrt (<) (map (key_of s) xs)" and "a \<in> set xs" and "\<not> marked s a"
  shows "content s xs (key_of s a) = values_of s a"
proof -
  have "{b \<in> set xs. \<not> marked s b \<and> key_of s b = key_of s a} = {a}"
    using assms sorted_keys_inj[OF assms(1)] by auto
  then show ?thesis by (simp add: content_def)
qed

lemma content_link:
  assumes "\<not> marked s n" and "\<forall>a \<in> set (A @ R). key_of s a \<noteq> key_of s n"
  shows "content s (A @ n # R) = (content s (A @ R))(key_of s n := values_of s n)"
proof
  fix k
  show "content s (A @ n # R) k = ((content s (A @ R))(key_of s n := values_of s n)) k"
  proof (cases "k = key_of s n")
    case True
    have "{a \<in> set (A @ n # R). \<not> marked s a \<and> key_of s a = key_of s n} = {n}"
      using assms by auto
    then show ?thesis using True by (simp add: content_def)
  next
    case False
    have "{a \<in> set (A @ n # R). \<not> marked s a \<and> key_of s a = k}
          = {a \<in> set (A @ R). \<not> marked s a \<and> key_of s a = k}"
      using False by auto
    then show ?thesis using False by (simp add: content_def)
  qed
qed

lemma content_mark:
  fixes s :: "('k::linorder, 'v) skiplist"
  assumes "sorted_wrt (<) (map (key_of s) xs)" and "a \<in> set xs"
    and "\<forall>b. marked s' b = (b = a \<or> marked s b)"
    and "key_of s' = key_of s" and "values_of s' = values_of s"
  shows "content s' xs = (content s xs)(key_of s a := {})"
proof
  fix k
  show "content s' xs k = ((content s xs)(key_of s a := {})) k"
  proof (cases "k = key_of s a")
    case True
    have e: "{b \<in> set xs. \<not> marked s' b \<and> key_of s' b = key_of s a} = {}"
      using assms sorted_keys_inj[OF assms(1)] by auto
    show ?thesis unfolding content_def True e by simp
  next
    case False
    have "{b \<in> set xs. \<not> marked s' b \<and> key_of s' b = k}
          = {b \<in> set xs. \<not> marked s b \<and> key_of s b = k}"
      using False assms(3,4) by auto
    then show ?thesis using False assms(5) by (simp add: content_def)
  qed
qed

lemma content_set_values:
  fixes s :: "('k::linorder, 'v) skiplist"
  assumes "sorted_wrt (<) (map (key_of s) xs)" and "a \<in> set xs" and "\<not> marked s a"
    and "a < length (heap s)"
  shows "content (set_values s a vs) xs = (content s xs)(key_of s a := vs)"
proof
  fix k
  let ?s = "set_values s a vs"
  show "content ?s xs k = ((content s xs)(key_of s a := vs)) k"
  proof (cases "k = key_of s a")
    case True
    have "{b \<in> set xs. \<not> marked s b \<and> key_of s b = key_of s a} = {a}"
      using assms sorted_keys_inj[OF assms(1)] by auto
    then show ?thesis
      using True assms(4) by (simp add: content_def set_values_fields marked_set_values)
  next
    case False
    have "\<forall>b \<in> {b \<in> set xs. \<not> marked s b \<and> key_of s b = k}. values_of ?s b = values_of s b"
      using False by (auto simp: set_values_fields)
    then show ?thesis
      using False by (simp add: content_def set_values_fields marked_set_values)
  qed
qed

subsection \<open>\<^verbatim>\<open>find\<close>\<close>

lemma chain_pred_ptr:
  assumes inv: "sl_inv_ch s ch" and lv: "lv < MAX_LEVEL"
    and ch: "ch lv = A @ R" and p: "p = last (sl_head s # A)" and pm: "\<not> marked s p"
  shows "p < length (heap s)" "lv < level_of s p" "p \<noteq> sl_tail s" "valid s p lv"
    "nx s p lv = (Some (hd (R @ [sl_tail s])), False)"
    "p \<in> set (sl_head s # A)"
proof -
  have ok: "nodes_ok s" using inv by (rule inv_nodes)
  have c0: "level_chain s lv (A @ R)" using inv_chain[OF inv lv] ch by simp
  show pA: "p \<in> set (sl_head s # A)" using p by (cases A rule: rev_cases) auto
  then have pin: "p \<in> set (sl_head s # A @ R)" by auto
  show 1: "p < length (heap s)" and 2: "lv < level_of s p" and "p \<noteq> sl_tail s"
    and "valid s p lv"
    using chain_node[OF ok c0 lv pin] by simp_all
  have "sl_path s lv (sl_head s) (A @ R) (sl_tail s)" using c0 by (simp add: level_chain_def)
  then have "sl_path s lv p R (sl_tail s)" using p by (simp add: sl_path_append)
  then have "fst (nx s p lv) = Some (hd (R @ [sl_tail s]))" by (cases R) auto
  moreover have "snd (nx s p lv) = False"
    using nodes_ok_marks[OF ok 1 2] pm by (simp add: is_marked_def)
  ultimately show "nx s p lv = (Some (hd (R @ [sl_tail s])), False)"
    by (simp add: prod_eq_iff)
qed

lemma chain_succ_ptr:
  assumes inv: "sl_inv_ch s ch" and lv: "lv < MAX_LEVEL" and ch: "ch lv = A @ c # R"
  shows "c < length (heap s)" "lv < level_of s c" "c \<noteq> sl_tail s" "valid s c lv"
    "fst (nx s c lv) = Some (hd (R @ [sl_tail s]))"
    "is_marked (nx s c lv) = marked s c"
    "succ_of s c lv = Some (nx s c lv)"
proof -
  have ok: "nodes_ok s" using inv by (rule inv_nodes)
  have c0: "level_chain s lv (A @ c # R)" using inv_chain[OF inv lv] ch by simp
  have cin: "c \<in> set (sl_head s # A @ c # R)" by simp
  show 1: "c < length (heap s)" and 2: "lv < level_of s c" and 3: "c \<noteq> sl_tail s"
    and 4: "valid s c lv"
    using chain_node[OF ok c0 lv cin] by simp_all
  have "sl_path s lv (sl_head s) (A @ c # R) (sl_tail s)" using c0 by (simp add: level_chain_def)
  then have "sl_path s lv c R (sl_tail s)" by (simp add: sl_path_append)
  then show "fst (nx s c lv) = Some (hd (R @ [sl_tail s]))" by (cases R) auto
  show "is_marked (nx s c lv) = marked s c" using nodes_ok_marks[OF ok 1 2] .
  show "succ_of s c lv = Some (nx s c lv)" using 3 4 by (simp add: succ_of_def load_def)
qed

lemma succ_of_chain:
  assumes inv: "sl_inv_ch s ch" and lv: "lv < MAX_LEVEL" and ch: "ch lv = A @ R"
  shows "\<exists>succ. succ_of s (hd (R @ [sl_tail s])) lv = Some succ"
proof (cases R)
  case Nil
  have "succ_of s (hd ([] @ [sl_tail s])) lv = Some (Some (sl_tail s), False)"
    by (simp add: succ_of_def)
  then show ?thesis using Nil by blast
next
  case (Cons c R')
  then show ?thesis using chain_succ_ptr(7)[OF inv lv, of A c R'] ch by simp
qed

lemma skip_marked_ok:
  assumes "sl_inv_ch s ch" and "lv < MAX_LEVEL" and "ch lv = A @ R"
    and "p = last (sl_head s # A)" and "\<not> marked s p"
    and "succ_of s (hd (R @ [sl_tail s])) lv = Some succ"
  shows "\<exists>s' ch' R' succ'.
           skip_marked s lv p (hd (R @ [sl_tail s])) succ
             = Some (s', Some (hd (R' @ [sl_tail s]), succ'))
         \<and> sl_inv_ch s' ch' \<and> same_nodes s s' \<and> ch' lv = A @ R'
         \<and> (\<forall>j. j \<noteq> lv \<longrightarrow> ch' j = ch j) \<and> length R' \<le> length R
         \<and> (R' \<noteq> [] \<longrightarrow> \<not> marked s (hd R'))
         \<and> succ_of s' (hd (R' @ [sl_tail s])) lv = Some succ' \<and> \<not> is_marked succ'
         \<and> content s' (ch' 0) = content s (ch 0)"
  using assms
proof (induction R arbitrary: s ch succ)
  case Nil
  have "succ = (Some (sl_tail s), False)" using Nil.prems(6) by (simp add: succ_of_def)
  then have nm: "\<not> is_marked succ" by (simp add: is_marked_def)
  then have "skip_marked s lv p (hd ([] @ [sl_tail s])) succ
             = Some (s, Some (hd ([] @ [sl_tail s]), succ))"
    by (subst skip_marked.simps) simp
  then have "skip_marked s lv p (hd ([] @ [sl_tail s])) succ
             = Some (s, Some (hd ([] @ [sl_tail s]), succ))
         \<and> sl_inv_ch s ch \<and> same_nodes s s \<and> ch lv = A @ []
         \<and> (\<forall>j. j \<noteq> lv \<longrightarrow> ch j = ch j) \<and> length ([]::nat list) \<le> length ([]::nat list)
         \<and> (([]::nat list) \<noteq> [] \<longrightarrow> \<not> marked s (hd ([]::nat list)))
         \<and> succ_of s (hd ([] @ [sl_tail s])) lv = Some succ \<and> \<not> is_marked succ
         \<and> content s (ch 0) = content s (ch 0)"
    using Nil.prems nm by (simp add: same_nodes_refl)
  then show ?case by blast
next
  case (Cons c R2)
  note inv = Cons.prems(1) and lv = Cons.prems(2) and ch = Cons.prems(3)
    and p = Cons.prems(4) and pm = Cons.prems(5)
  note cp = chain_succ_ptr[OF inv lv ch]
  note pp = chain_pred_ptr[OF inv lv ch p pm]
  have succ: "succ = nx s c lv" using Cons.prems(6) cp(7) by simp
  show ?case
  proof (cases "is_marked succ")
    case False
    then have "skip_marked s lv p c succ = Some (s, Some (c, succ))"
      by (subst skip_marked.simps) simp
    moreover have "\<not> marked s c" using False succ cp(6) by simp
    ultimately have "skip_marked s lv p (hd ((c # R2) @ [sl_tail s])) succ
             = Some (s, Some (hd ((c # R2) @ [sl_tail s]), succ))
         \<and> sl_inv_ch s ch \<and> same_nodes s s \<and> ch lv = A @ (c # R2)
         \<and> (\<forall>j. j \<noteq> lv \<longrightarrow> ch j = ch j) \<and> length (c # R2) \<le> length (c # R2)
         \<and> ((c # R2) \<noteq> [] \<longrightarrow> \<not> marked s (hd (c # R2)))
         \<and> succ_of s (hd ((c # R2) @ [sl_tail s])) lv = Some succ \<and> \<not> is_marked succ
         \<and> content s (ch 0) = content s (ch 0)"
      using inv ch False Cons.prems(6) by (simp add: same_nodes_refl)
    then show ?thesis by blast
  next
    case True
    then have cm: "marked s c" using succ cp(6) by simp
    define z where "z = hd (R2 @ [sl_tail s])"
    define s1 where "s1 = store s p lv (Some z, False)"
    define ch1 where "ch1 = ch(lv := A @ R2)"
    have unm: "get_unmarked_ref succ = (Some z, False)"
      using succ cp(5) by (simp add: get_unmarked_ref_def z_def)
    have cas: "cas s p lv (Some c, False) (get_unmarked_ref succ) = Some (True, s1)"
      using pp(4,5) unm by (simp add: cas_def load_def s1_def)
    have inv1: "sl_inv_ch s1 ch1"
      using inv_unlink[OF inv lv ch p pm cm] by (simp add: s1_def ch1_def z_def)
    have sn: "same_nodes s s1"
      using store_same_nodes[OF inv_nodes[OF inv] pp(1,2) pm] by (simp add: s1_def)
    have h1: "sl_head s1 = sl_head s" "sl_tail s1 = sl_tail s"
      by (simp_all add: s1_def store_fields)
    have ld: "load s1 p lv = Some (Some z, False)"
      using pp(4) by (simp add: load_def s1_def valid_store nx_store)
    have ch1lv: "ch1 lv = A @ R2" by (simp add: ch1_def)
    obtain succ1 where succ1: "succ_of s1 (hd (R2 @ [sl_tail s1])) lv = Some succ1"
      using succ_of_chain[OF inv1 lv ch1lv] by blast
    have step: "skip_marked s lv p c succ = skip_marked s1 lv p z succ1"
      using True cas ld succ1
      by (subst skip_marked.simps) (simp add: get_unmarked_ref_def h1 z_def)
    have p1: "p = last (sl_head s1 # A)" using p h1 by simp
    have pm1: "\<not> marked s1 p" using pm same_nodes_marked[OF sn] by simp
    obtain s' ch' R' succ' where r:
      "skip_marked s1 lv p (hd (R2 @ [sl_tail s1])) succ1
         = Some (s', Some (hd (R' @ [sl_tail s1]), succ'))"
      "sl_inv_ch s' ch'" "same_nodes s1 s'" "ch' lv = A @ R'"
      "\<forall>j. j \<noteq> lv \<longrightarrow> ch' j = ch1 j" "length R' \<le> length R2"
      "R' \<noteq> [] \<longrightarrow> \<not> marked s1 (hd R')"
      "succ_of s' (hd (R' @ [sl_tail s1])) lv = Some succ'" "\<not> is_marked succ'"
      "content s' (ch' 0) = content s1 (ch1 0)"
      using Cons.IH[OF inv1 lv ch1lv p1 pm1 succ1] by blast
    have c0: "content s1 (ch1 0) = content s (ch 0)"
    proof (cases "lv = 0")
      case True
      then have "content s (ch 0) = content s (A @ R2)"
        using ch content_unlink[OF cm, of A R2] by simp
      then show ?thesis using True same_nodes_content[OF sn] by (simp add: ch1_def)
    next
      case False
      then show ?thesis using same_nodes_content[OF sn] by (simp add: ch1_def)
    qed
    have "skip_marked s lv p (hd ((c # R2) @ [sl_tail s])) succ
             = Some (s', Some (hd (R' @ [sl_tail s]), succ'))
         \<and> sl_inv_ch s' ch' \<and> same_nodes s s' \<and> ch' lv = A @ R'
         \<and> (\<forall>j. j \<noteq> lv \<longrightarrow> ch' j = ch j) \<and> length R' \<le> length (c # R2)
         \<and> (R' \<noteq> [] \<longrightarrow> \<not> marked s (hd R'))
         \<and> succ_of s' (hd (R' @ [sl_tail s])) lv = Some succ' \<and> \<not> is_marked succ'
         \<and> content s' (ch' 0) = content s (ch 0)"
      using r step c0 same_nodes_trans[OF sn r(3)] same_nodes_marked[OF sn]
      by (simp add: h1 z_def ch1_def)
    then show ?thesis by blast
  qed
qed

lemma same_nodes_fields:
  assumes "same_nodes s s'"
  shows "sl_head s' = sl_head s" "sl_tail s' = sl_tail s" "length (heap s') = length (heap s)"
    "key_of s' = key_of s" "level_of s' = level_of s" "values_of s' = values_of s"
    "marked s' = marked s"
  using assms by (simp_all add: same_nodes_def fun_eq_iff marked_def)

lemma walk_level_ok:
  assumes "sl_inv_ch s ch" and "lv < MAX_LEVEL" and "ch lv = A @ R"
    and "p = last (sl_head s # A)" and "\<not> marked s p"
    and "\<forall>a \<in> set A. key_of s a < key"
  shows "\<exists>s' ch' A' R'.
           walk_level s key lv p (hd (R @ [sl_tail s]))
             = Some (s', Some (last (sl_head s # A'), hd (R' @ [sl_tail s])))
         \<and> sl_inv_ch s' ch' \<and> same_nodes s s' \<and> ch' lv = A' @ R'
         \<and> (\<forall>j. j \<noteq> lv \<longrightarrow> ch' j = ch j)
         \<and> \<not> marked s (last (sl_head s # A'))
         \<and> (\<forall>a \<in> set A'. key_of s a < key) \<and> (\<forall>a \<in> set R'. key \<le> key_of s a)
         \<and> (R' \<noteq> [] \<longrightarrow> \<not> marked s (hd R'))
         \<and> content s' (ch' 0) = content s (ch 0)"
  using assms
proof (induction "length R" arbitrary: s ch A R p rule: less_induct)
  case less
  note inv = less.prems(1) and lv = less.prems(2) and ch = less.prems(3)
    and p = less.prems(4) and pm = less.prems(5) and ks = less.prems(6)
  obtain succ where succ: "succ_of s (hd (R @ [sl_tail s])) lv = Some succ"
    using succ_of_chain[OF inv lv ch] by blast
  obtain s1 ch1 R1 succ1 where r:
    "skip_marked s lv p (hd (R @ [sl_tail s])) succ
       = Some (s1, Some (hd (R1 @ [sl_tail s]), succ1))"
    "sl_inv_ch s1 ch1" "same_nodes s s1" "ch1 lv = A @ R1"
    "\<forall>j. j \<noteq> lv \<longrightarrow> ch1 j = ch j" "length R1 \<le> length R"
    "R1 \<noteq> [] \<longrightarrow> \<not> marked s (hd R1)"
    "succ_of s1 (hd (R1 @ [sl_tail s])) lv = Some succ1" "\<not> is_marked succ1"
    "content s1 (ch1 0) = content s (ch 0)"
    using skip_marked_ok[OF inv lv ch p pm succ] by blast
  note f = same_nodes_fields[OF r(3)]
  show ?case
  proof (cases R1)
    case Nil
    have "walk_level s key lv p (hd (R @ [sl_tail s])) = Some (s1, Some (p, sl_tail s))"
      using succ r(1) Nil by (subst walk_level.simps) (simp add: f)
    then have "walk_level s key lv p (hd (R @ [sl_tail s]))
             = Some (s1, Some (last (sl_head s # A), hd ([] @ [sl_tail s])))
         \<and> sl_inv_ch s1 ch1 \<and> same_nodes s s1 \<and> ch1 lv = A @ []
         \<and> (\<forall>j. j \<noteq> lv \<longrightarrow> ch1 j = ch j)
         \<and> \<not> marked s (last (sl_head s # A))
         \<and> (\<forall>a \<in> set A. key_of s a < key) \<and> (\<forall>a \<in> set []. key \<le> key_of s a)
         \<and> (([]::nat list) \<noteq> [] \<longrightarrow> \<not> marked s (hd ([]::nat list)))
         \<and> content s1 (ch1 0) = content s (ch 0)"
      using r(2,3,4,5,10) Nil p pm ks by simp
    then show ?thesis by blast
  next
    case (Cons c R2)
    have ch1: "ch1 lv = A @ c # R2" using r(4) Cons by simp
    note cp = chain_succ_ptr[OF r(2) lv ch1]
    have succ1: "succ1 = nx s1 c lv" using r(8) cp(7) Cons by (simp add: f)
    have cnm: "\<not> marked s c" using r(7) Cons by simp
    show ?thesis
    proof (cases "key_of s c < key")
      case True
      have step: "walk_level s key lv p (hd (R @ [sl_tail s]))
                  = walk_level s1 key lv c (hd (R2 @ [sl_tail s1]))"
        using succ r(1) Cons True cp(3,5) succ1
        by (subst walk_level.simps) (simp add: f get_unmarked_ref_def)
      have len: "length R2 < length R" using r(6) Cons by simp
      have ch1': "ch1 lv = (A @ [c]) @ R2" using ch1 by simp
      have p1: "c = last (sl_head s1 # A @ [c])" by simp
      have pm1: "\<not> marked s1 c" using cnm by (simp add: f)
      have ks1: "\<forall>a \<in> set (A @ [c]). key_of s1 a < key" using ks True by (simp add: f)
      obtain s' ch' A' R' where w:
        "walk_level s1 key lv c (hd (R2 @ [sl_tail s1]))
           = Some (s', Some (last (sl_head s1 # A'), hd (R' @ [sl_tail s1])))"
        "sl_inv_ch s' ch'" "same_nodes s1 s'" "ch' lv = A' @ R'"
        "\<forall>j. j \<noteq> lv \<longrightarrow> ch' j = ch1 j"
        "\<not> marked s1 (last (sl_head s1 # A'))"
        "\<forall>a \<in> set A'. key_of s1 a < key" "\<forall>a \<in> set R'. key \<le> key_of s1 a"
        "R' \<noteq> [] \<longrightarrow> \<not> marked s1 (hd R')"
        "content s' (ch' 0) = content s1 (ch1 0)"
        using less.hyps[OF len r(2) lv ch1' p1 pm1 ks1] by blast
      have "walk_level s key lv p (hd (R @ [sl_tail s]))
             = Some (s', Some (last (sl_head s # A'), hd (R' @ [sl_tail s])))
         \<and> sl_inv_ch s' ch' \<and> same_nodes s s' \<and> ch' lv = A' @ R'
         \<and> (\<forall>j. j \<noteq> lv \<longrightarrow> ch' j = ch j)
         \<and> \<not> marked s (last (sl_head s # A'))
         \<and> (\<forall>a \<in> set A'. key_of s a < key) \<and> (\<forall>a \<in> set R'. key \<le> key_of s a)
         \<and> (R' \<noteq> [] \<longrightarrow> \<not> marked s (hd R'))
         \<and> content s' (ch' 0) = content s (ch 0)"
        using w step r(5,10) same_nodes_trans[OF r(3) w(3)] by (simp add: f)
      then show ?thesis by blast
    next
      case False
      have stop: "walk_level s key lv p (hd (R @ [sl_tail s])) = Some (s1, Some (p, c))"
        using succ r(1) Cons False by (subst walk_level.simps) (simp add: f)
      have "sorted_wrt (<) (map (key_of s1) (A @ c # R2))"
        using inv_chain[OF r(2) lv] ch1 by (simp add: level_chain_def)
      then have "\<forall>a \<in> set R2. key_of s c < key_of s a"
        by (simp add: sorted_wrt_append f)
      then have ge: "\<forall>a \<in> set (c # R2). key \<le> key_of s a" using False by auto
      have "walk_level s key lv p (hd (R @ [sl_tail s]))
             = Some (s1, Some (last (sl_head s # A), hd ((c # R2) @ [sl_tail s])))
         \<and> sl_inv_ch s1 ch1 \<and> same_nodes s s1 \<and> ch1 lv = A @ (c # R2)
         \<and> (\<forall>j. j \<noteq> lv \<longrightarrow> ch1 j = ch j)
         \<and> \<not> marked s (last (sl_head s # A))
         \<and> (\<forall>a \<in> set A. key_of s a < key) \<and> (\<forall>a \<in> set (c # R2). key \<le> key_of s a)
         \<and> ((c # R2) \<noteq> [] \<longrightarrow> \<not> marked s (hd (c # R2)))
         \<and> content s1 (ch1 0) = content s (ch 0)"
        using stop r(2,3,5,10) ch1 p pm ks ge cnm by simp
      then show ?thesis by blast
    qed
  qed
qed

lemma inv_down_all:
  assumes "sl_inv_ch s ch" and "\<not> marked s a"
  shows "lv < MAX_LEVEL \<Longrightarrow> a \<in> set (ch lv) \<Longrightarrow> j \<le> lv \<Longrightarrow> a \<in> set (ch j)"
proof (induction lv)
  case 0
  then show ?case by simp
next
  case (Suc lv)
  show ?case
  proof (cases "j = Suc lv")
    case True
    then show ?thesis using Suc.prems by simp
  next
    case False
    have "a \<in> set (ch lv)" using inv_down[OF assms(1) Suc.prems(1,2) assms(2)] .
    then show ?thesis using Suc.IH Suc.prems False by simp
  qed
qed

lemma chain_split_at:
  fixes s :: "('k::linorder, 'v) skiplist"
  assumes "level_chain s lv xs"
    and "p = sl_head s \<or> (key_of s p < key \<and> p \<in> set xs)"
  shows "\<exists>A R. xs = A @ R \<and> p = last (sl_head s # A) \<and> (\<forall>a \<in> set A. key_of s a < key)"
proof (cases "p \<in> set xs")
  case False
  then have "xs = [] @ xs \<and> p = last (sl_head s # []) \<and> (\<forall>a \<in> set []. key_of s a < key)"
    using assms(2) by simp
  then show ?thesis by blast
next
  case True
  then obtain ys zs where x: "xs = ys @ p # zs" by (auto simp: in_set_conv_decomp)
  have "p \<noteq> sl_head s" using assms(1) True by (auto simp: level_chain_def)
  then have kp: "key_of s p < key" using assms(2) by simp
  have "sorted_wrt (<) (map (key_of s) (ys @ p # zs))"
    using assms(1) x by (simp add: level_chain_def)
  then have "\<forall>a \<in> set ys. key_of s a < key_of s p" by (simp add: sorted_wrt_append)
  then have "\<forall>a \<in> set (ys @ [p]). key_of s a < key" using kp by auto
  then have "xs = (ys @ [p]) @ zs \<and> p = last (sl_head s # (ys @ [p]))
             \<and> (\<forall>a \<in> set (ys @ [p]). key_of s a < key)"
    using x by simp
  then show ?thesis by blast
qed

lemma level_pos_same:
  assumes "same_nodes s s'" and "ch' lv = ch lv" and "level_pos s ch key lv p c"
  shows "level_pos s' ch' key lv p c"
  using assms(2,3) by (simp add: level_pos_def same_nodes_fields[OF assms(1)])

lemma find_levels_ok:
  assumes "sl_inv_ch s ch" and "n \<le> MAX_LEVEL" and "\<not> marked s p"
    and "p = sl_head s \<or> (key_of s p < key \<and> (\<forall>j<n. p \<in> set (ch j)))"
  shows "\<exists>s' ch' ps cs.
           find_levels s key p n = Some (s', Some (ps, cs))
         \<and> sl_inv_ch s' ch' \<and> same_nodes s s' \<and> content s' (ch' 0) = content s (ch 0)
         \<and> length ps = n \<and> length cs = n \<and> (\<forall>j. n \<le> j \<longrightarrow> ch' j = ch j)
         \<and> (\<forall>j<n. level_pos s' ch' key j (ps ! j) (cs ! j))"
  using assms
proof (induction n arbitrary: s ch p)
  case 0
  have "find_levels s key p 0 = Some (s, Some ([], []))
         \<and> sl_inv_ch s ch \<and> same_nodes s s \<and> content s (ch 0) = content s (ch 0)
         \<and> length ([]::nat list) = 0 \<and> length ([]::nat list) = 0 \<and> (\<forall>j. 0 \<le> j \<longrightarrow> ch j = ch j)
         \<and> (\<forall>j<0. level_pos s ch key j (([]::nat list) ! j) (([]::nat list) ! j))"
    using 0 by (simp add: same_nodes_refl)
  then show ?case by blast
next
  case (Suc n)
  note inv = Suc.prems(1) and pm = Suc.prems(3)
  have lv: "n < MAX_LEVEL" using Suc.prems(2) by simp
  have "p = sl_head s \<or> (key_of s p < key \<and> p \<in> set (ch n))" using Suc.prems(4) by auto
  then obtain A R where ar: "ch n = A @ R" "p = last (sl_head s # A)"
    "\<forall>a \<in> set A. key_of s a < key"
    using chain_split_at[OF inv_chain[OF inv lv]] by blast
  note pp = chain_pred_ptr[OF inv lv ar(1,2) pm]
  have ld: "load s p n = Some (Some (hd (R @ [sl_tail s])), False)"
    using pp(4,5) by (simp add: load_def)
  obtain s1 ch1 A' R' where w:
    "walk_level s key n p (hd (R @ [sl_tail s]))
       = Some (s1, Some (last (sl_head s # A'), hd (R' @ [sl_tail s])))"
    "sl_inv_ch s1 ch1" "same_nodes s s1" "ch1 n = A' @ R'"
    "\<forall>j. j \<noteq> n \<longrightarrow> ch1 j = ch j"
    "\<not> marked s (last (sl_head s # A'))"
    "\<forall>a \<in> set A'. key_of s a < key" "\<forall>a \<in> set R'. key \<le> key_of s a"
    "R' \<noteq> [] \<longrightarrow> \<not> marked s (hd R')"
    "content s1 (ch1 0) = content s (ch 0)"
    using walk_level_ok[OF inv lv ar(1,2) pm ar(3)] by blast
  note f = same_nodes_fields[OF w(3)]
  define p1 where "p1 = last (sl_head s # A')"
  define c1 where "c1 = hd (R' @ [sl_tail s])"
  have pm1: "\<not> marked s1 p1" using w(6) by (simp add: f p1_def)
  have pre1: "p1 = sl_head s1 \<or> (key_of s1 p1 < key \<and> (\<forall>j<n. p1 \<in> set (ch1 j)))"
  proof (cases "A' = []")
    case True
    then show ?thesis by (simp add: p1_def f)
  next
    case False
    then have in1: "p1 \<in> set A'" by (simp add: p1_def)
    then have "p1 \<in> set (ch1 n)" using w(4) by simp
    then have "\<forall>j<n. p1 \<in> set (ch1 j)"
      using inv_down_all[OF w(2) pm1 lv] by simp
    then show ?thesis using in1 w(7) by (simp add: f)
  qed
  have n: "n \<le> MAX_LEVEL" using lv by simp
  obtain s2 ch2 ps cs where r:
    "find_levels s1 key p1 n = Some (s2, Some (ps, cs))"
    "sl_inv_ch s2 ch2" "same_nodes s1 s2" "content s2 (ch2 0) = content s1 (ch1 0)"
    "length ps = n" "length cs = n" "\<forall>j. n \<le> j \<longrightarrow> ch2 j = ch1 j"
    "\<forall>j<n. level_pos s2 ch2 key j (ps ! j) (cs ! j)"
    using Suc.IH[OF w(2) n pm1 pre1] by blast
  have res: "find_levels s key p (Suc n) = Some (s2, Some (ps @ [p1], cs @ [c1]))"
    using ld w(1) r(1) by (simp add: get_unmarked_ref_def p1_def c1_def)
  have "level_pos s1 ch1 key n p1 c1"
    unfolding level_pos_def using w(4,6,7,8,9) by (auto simp: f p1_def c1_def)
  then have top: "level_pos s2 ch2 key n p1 c1"
    using level_pos_same[OF r(3)] r(7) by simp
  have pos: "\<forall>j<Suc n. level_pos s2 ch2 key j ((ps @ [p1]) ! j) ((cs @ [c1]) ! j)"
  proof (intro allI impI)
    fix j assume "j < Suc n"
    then show "level_pos s2 ch2 key j ((ps @ [p1]) ! j) ((cs @ [c1]) ! j)"
      using top r(5,6,8) by (cases "j = n") (simp_all add: nth_append)
  qed
  have "find_levels s key p (Suc n) = Some (s2, Some (ps @ [p1], cs @ [c1]))
         \<and> sl_inv_ch s2 ch2 \<and> same_nodes s s2 \<and> content s2 (ch2 0) = content s (ch 0)
         \<and> length (ps @ [p1]) = Suc n \<and> length (cs @ [c1]) = Suc n
         \<and> (\<forall>j. Suc n \<le> j \<longrightarrow> ch2 j = ch j)
         \<and> (\<forall>j<Suc n. level_pos s2 ch2 key j ((ps @ [p1]) ! j) ((cs @ [c1]) ! j))"
    using res r(2,4,5,6,7) w(5,10) same_nodes_trans[OF w(3) r(3)] pos by simp
  then show ?case by blast
qed

lemma sl_find_ok:
  assumes "sl_inv_ch s ch"
  shows "\<exists>s' ch' ps cs.
           sl_find s key = Some (cs ! 0 \<noteq> sl_tail s' \<and> key_of s' (cs ! 0) = key, ps, cs, s')
         \<and> sl_inv_ch s' ch' \<and> same_nodes s s' \<and> content s' (ch' 0) = content s (ch 0)
         \<and> length ps = MAX_LEVEL \<and> length cs = MAX_LEVEL
         \<and> (\<forall>j<MAX_LEVEL. level_pos s' ch' key j (ps ! j) (cs ! j))"
proof -
  have "\<not> marked s (sl_head s)" using inv_nodes[OF assms] by (simp add: nodes_ok_def)
  then obtain s' ch' ps cs where r:
    "find_levels s key (sl_head s) MAX_LEVEL = Some (s', Some (ps, cs))"
    "sl_inv_ch s' ch'" "same_nodes s s'" "content s' (ch' 0) = content s (ch 0)"
    "length ps = MAX_LEVEL" "length cs = MAX_LEVEL"
    "\<forall>j<MAX_LEVEL. level_pos s' ch' key j (ps ! j) (cs ! j)"
    using find_levels_ok[OF assms, of MAX_LEVEL "sl_head s" key] by auto
  have "sl_find s key = Some (cs ! 0 \<noteq> sl_tail s' \<and> key_of s' (cs ! 0) = key, ps, cs, s')"
    using r(1) by (subst sl_find.simps) simp
  then show ?thesis using r(2-7) by blast
qed

subsection \<open>\<^verbatim>\<open>search\<close>\<close>

lemma MAX_LEVEL_pos: "0 < MAX_LEVEL"
  by (simp add: MAX_LEVEL_def)

lemma pos_level0:
  fixes s :: "('k::linorder, 'v) skiplist"
  assumes inv: "sl_inv_ch s ch" and pos: "level_pos s ch key 0 p c"
  shows "content s (ch 0) key = (if c \<noteq> sl_tail s \<and> key_of s c = key then values_of s c else {})"
    and "c \<noteq> sl_tail s \<Longrightarrow> c \<in> set (ch 0) \<and> \<not> marked s c \<and> key \<le> key_of s c"
    and "\<not> (c \<noteq> sl_tail s \<and> key_of s c = key) \<Longrightarrow> \<forall>a \<in> set (ch 0). key_of s a \<noteq> key"
proof -
  obtain A R where ar: "ch 0 = A @ R" "p = last (sl_head s # A)" "c = hd (R @ [sl_tail s])"
    "\<forall>a \<in> set A. key_of s a < key" "\<forall>a \<in> set R. key \<le> key_of s a"
    "R \<noteq> [] \<longrightarrow> \<not> marked s (hd R)"
    using pos unfolding level_pos_def by blast
  have c0: "level_chain s 0 (A @ R)" using inv_chain[OF inv MAX_LEVEL_pos] ar(1) by simp
  then have srt: "sorted_wrt (<) (map (key_of s) (A @ R))" by (simp add: level_chain_def)
  have c_in: "c \<noteq> sl_tail s \<Longrightarrow> R \<noteq> [] \<and> c = hd R" using ar(3) by (cases R) auto
  show 2: "c \<noteq> sl_tail s \<Longrightarrow> c \<in> set (ch 0) \<and> \<not> marked s c \<and> key \<le> key_of s c"
    using c_in ar(1,5,6) by (cases R) auto
  have none: "\<forall>a \<in> set (A @ R). key_of s a \<noteq> key" if "\<not> (c \<noteq> sl_tail s \<and> key_of s c = key)"
  proof (cases R)
    case Nil
    then show ?thesis using ar(4) by auto
  next
    case (Cons c' R2)
    then have c: "c = c'" using ar(3) by simp
    have "c' \<noteq> sl_tail s" using c0 Cons by (auto simp: level_chain_def)
    then have "key < key_of s c'" using that c ar(5) Cons by auto
    moreover have "\<forall>a \<in> set R2. key_of s c' < key_of s a"
      using srt Cons by (simp add: sorted_wrt_append)
    ultimately have "\<forall>a \<in> set R. key < key_of s a" using Cons by auto
    then show ?thesis using ar(4) by auto
  qed
  then show "\<not> (c \<noteq> sl_tail s \<and> key_of s c = key) \<Longrightarrow> \<forall>a \<in> set (ch 0). key_of s a \<noteq> key"
    using ar(1) by simp
  show "content s (ch 0) key = (if c \<noteq> sl_tail s \<and> key_of s c = key then values_of s c else {})"
  proof (cases "c \<noteq> sl_tail s \<and> key_of s c = key")
    case True
    then have "content s (ch 0) (key_of s c) = values_of s c"
      using content_single[of s "ch 0" c] srt ar(1) 2 by simp
    then show ?thesis using True by simp
  next
    case False
    then have "content s (ch 0) key = {}"
      using none ar(1) by (intro content_none) auto
    then show ?thesis using False by auto
  qed
qed

lemma load_chain0:
  assumes inv: "sl_inv_ch s ch" and c: "c \<in> set (ch 0)"
  shows "\<exists>q. load s c 0 = Some q \<and> is_marked q = marked s c"
    and "c < length (heap s)" and "c \<noteq> sl_head s" and "c \<noteq> sl_tail s"
proof -
  have c0: "level_chain s 0 (ch 0)" using inv_chain[OF inv MAX_LEVEL_pos] .
  have "c \<in> set (sl_head s # ch 0)" using c by simp
  note n = chain_node[OF inv_nodes[OF inv] c0 MAX_LEVEL_pos this]
  show "c < length (heap s)" "c \<noteq> sl_tail s" using n by simp_all
  show "c \<noteq> sl_head s" using c0 c by (auto simp: level_chain_def)
  show "\<exists>q. load s c 0 = Some q \<and> is_marked q = marked s c"
    using n(4) by (simp add: load_def marked_def)
qed

lemma sl_search_ok:
  assumes "sl_inv_ch s ch"
  shows "\<exists>s' ch'. sl_search s key = Some (content s (ch 0) key, s')
           \<and> sl_inv_ch s' ch' \<and> content s' (ch' 0) = content s (ch 0)"
proof -
  obtain s' ch' ps cs where f:
    "sl_find s key = Some (cs ! 0 \<noteq> sl_tail s' \<and> key_of s' (cs ! 0) = key, ps, cs, s')"
    "sl_inv_ch s' ch'" "same_nodes s s'" "content s' (ch' 0) = content s (ch 0)"
    "\<forall>j<MAX_LEVEL. level_pos s' ch' key j (ps ! j) (cs ! j)"
    using sl_find_ok[OF assms, of key] by blast
  have pos: "level_pos s' ch' key 0 (ps ! 0) (cs ! 0)" using f(5) MAX_LEVEL_pos by simp
  note p0 = pos_level0[OF f(2) pos]
  have "sl_search s key = Some (content s' (ch' 0) key, s')"
  proof (cases "cs ! 0 \<noteq> sl_tail s' \<and> key_of s' (cs ! 0) = key")
    case True
    then have "cs ! 0 \<in> set (ch' 0)" "\<not> marked s' (cs ! 0)" using p0(2) by simp_all
    then obtain q where "load s' (cs ! 0) 0 = Some q" "\<not> is_marked q"
      using load_chain0(1)[OF f(2)] by blast
    then show ?thesis using f(1) True p0(1) by (simp add: sl_search_def)
  next
    case False
    then have "content s' (ch' 0) key = {}" using p0(1) by auto
    then show ?thesis using f(1) False by (auto simp: sl_search_def)
  qed
  then show ?thesis using f(2,4) by auto
qed

subsection \<open>\<^verbatim>\<open>remove\<close>\<close>

lemma mark_level_ok:
  assumes "valid s a lv"
  shows "mark_level s a lv (nx s a lv) = Some (store s a lv (fst (nx s a lv), True))"
proof (cases "is_marked (nx s a lv)")
  case True
  then have "nx s a lv = (fst (nx s a lv), True)" by (simp add: is_marked_def prod_eq_iff)
  then have "store s a lv (fst (nx s a lv), True) = s"
    by (simp add: store_def nx_def)
  then show ?thesis using True by (subst mark_level.simps) simp
next
  case False
  then show ?thesis
    using assms by (subst mark_level.simps) (simp add: cas_def load_def get_marked_ref_def)
qed

lemma mark_levels_ok:
  assumes "a < length (heap s)" and "n \<le> length (sl_next (heap s ! a))"
  shows "\<exists>s'. mark_levels s a n = Some s'
           \<and> length (heap s') = length (heap s) \<and> sl_head s' = sl_head s \<and> sl_tail s' = sl_tail s
           \<and> key_of s' = key_of s \<and> level_of s' = level_of s \<and> values_of s' = values_of s
           \<and> (\<forall>b. length (sl_next (heap s' ! b)) = length (sl_next (heap s ! b)))
           \<and> (\<forall>b l. nx s' b l = (if b = a \<and> l < n then (fst (nx s a l), True) else nx s b l))"
  using assms
proof (induction n arbitrary: s)
  case 0
  then show ?case by simp
next
  case (Suc n)
  let ?s1 = "store s a n (fst (nx s a n), True)"
  have v: "valid s a n" using Suc.prems by (simp add: valid_def)
  have ld: "load s a n = Some (nx s a n)" using v by (simp add: load_def)
  have m: "mark_level s a n (nx s a n) = Some ?s1" using mark_level_ok[OF v] .
  have "a < length (heap ?s1)" "n \<le> length (sl_next (heap ?s1 ! a))"
    using Suc.prems by (simp_all add: store_fields store_node)
  then obtain s' where r: "mark_levels ?s1 a n = Some s'"
    "length (heap s') = length (heap ?s1)" "sl_head s' = sl_head ?s1" "sl_tail s' = sl_tail ?s1"
    "key_of s' = key_of ?s1" "level_of s' = level_of ?s1" "values_of s' = values_of ?s1"
    "\<forall>b. length (sl_next (heap s' ! b)) = length (sl_next (heap ?s1 ! b))"
    "\<forall>b l. nx s' b l = (if b = a \<and> l < n then (fst (nx ?s1 a l), True) else nx ?s1 b l)"
    using Suc.IH[of ?s1] by blast
  have nxs: "\<forall>b l. nx s' b l = (if b = a \<and> l < Suc n then (fst (nx s a l), True) else nx s b l)"
    using r(9) v by (auto simp: nx_store less_Suc_eq)
  have "mark_levels s a (Suc n) = Some s'" using ld m r(1) by simp
  then show ?case
    using r(2-8) nxs by (simp add: store_fields store_node store_node_fun)
qed

lemma sl_remove_ok:
  assumes "sl_inv_ch s ch"
  shows "\<exists>b s' ch'. sl_remove s key = Some (b, s')
           \<and> sl_inv_ch s' ch' \<and> content s' (ch' 0) = (content s (ch 0))(key := {})"
proof -
  obtain s1 ch1 ps cs where f:
    "sl_find s key = Some (cs ! 0 \<noteq> sl_tail s1 \<and> key_of s1 (cs ! 0) = key, ps, cs, s1)"
    "sl_inv_ch s1 ch1" "same_nodes s s1" "content s1 (ch1 0) = content s (ch 0)"
    "\<forall>j<MAX_LEVEL. level_pos s1 ch1 key j (ps ! j) (cs ! j)"
    using sl_find_ok[OF assms, of key] by blast
  have pos: "level_pos s1 ch1 key 0 (ps ! 0) (cs ! 0)" using f(5) MAX_LEVEL_pos by simp
  note p0 = pos_level0[OF f(2) pos]
  show ?thesis
  proof (cases "cs ! 0 \<noteq> sl_tail s1 \<and> key_of s1 (cs ! 0) = key")
    case False
    then have "sl_remove s key = Some (False, s1)" using f(1) by (simp add: sl_remove_def)
    moreover have "content s1 (ch1 0) key = {}" using p0(1) False by auto
    then have "content s1 (ch1 0) = (content s (ch 0))(key := {})"
      using f(4) by (auto simp: fun_eq_iff)
    ultimately show ?thesis using f(2) by blast
  next
    case True
    define c where "c = cs ! 0"
    have c: "c \<in> set (ch1 0)" "\<not> marked s1 c" "key_of s1 c = key"
      using p0(2) True by (simp_all add: c_def)
    note cn = load_chain0(2-4)[OF f(2) c(1)]
    have ok: "nodes_ok s1" using f(2) by (rule inv_nodes)
    have len: "level_of s1 c \<le> length (sl_next (heap s1 ! c))"
      using ok cn(1) by (simp add: nodes_ok_def)
    obtain s2 where m: "mark_levels s1 c (level_of s1 c) = Some s2"
      "length (heap s2) = length (heap s1)" "sl_head s2 = sl_head s1" "sl_tail s2 = sl_tail s1"
      "key_of s2 = key_of s1" "level_of s2 = level_of s1" "values_of s2 = values_of s1"
      "\<forall>b. length (sl_next (heap s2 ! b)) = length (sl_next (heap s1 ! b))"
      "\<forall>b l. nx s2 b l = (if b = c \<and> l < level_of s1 c then (fst (nx s1 c l), True) else nx s1 b l)"
      using mark_levels_ok[OF cn(1) len] by blast
    have lpos: "0 < level_of s1 c" using ok cn(1) by (simp add: nodes_ok_def)
    have mk: "\<forall>b. marked s2 b = (b = c \<or> marked s1 b)"
      using m(9) lpos by (simp add: marked_def is_marked_def)
    have uni: "\<forall>b < length (heap s1). \<forall>l < level_of s1 b. is_marked (nx s2 b l) = marked s2 b"
    proof (intro allI impI)
      fix b l assume b: "b < length (heap s1)" and l: "l < level_of s1 b"
      show "is_marked (nx s2 b l) = marked s2 b"
      proof (cases "b = c")
        case True
        then show ?thesis using m(9) mk l by (simp add: is_marked_def)
      next
        case False
        then show ?thesis using m(9) mk nodes_ok_marks[OF ok b l] by simp
      qed
    qed
    have hdm: "\<not> marked s2 (sl_head s1)" using mk cn(2) ok by (simp add: nodes_ok_def)
    have links: "\<forall>b l. fst (nx s2 b l) = fst (nx s1 b l)" using m(9) by simp
    have marks: "\<forall>b. marked s1 b \<longrightarrow> marked s2 b" using mk by simp
    have inv2: "sl_inv_ch s2 ch1"
      using inv_same_links[OF f(2) m(2,3,4,5,6,8) links marks uni hdm] .
    have srt: "sorted_wrt (<) (map (key_of s1) (ch1 0))"
      using inv_chain[OF f(2) MAX_LEVEL_pos] by (simp add: level_chain_def)
    have "content s2 (ch1 0) = (content s1 (ch1 0))(key_of s1 c := {})"
      using content_mark[OF srt c(1) mk m(5) m(7)] .
    then have cont: "content s2 (ch1 0) = (content s (ch 0))(key := {})"
      using f(4) c(3) by simp
    have "sl_remove s key = Some (True, s2)"
      using f(1) True m(1) by (simp add: sl_remove_def c_def)
    then show ?thesis using inv2 cont by blast
  qed
qed

lemma sl_remove_true:
  assumes "sl_inv_ch s ch" and "sl_remove s key = Some (b, s')"
  shows "\<exists>ch'. sl_inv_ch s' ch' \<and> content s' (ch' 0) = (content s (ch 0))(key := {})"
  using sl_remove_ok[OF assms(1), of key] assms(2) by auto

subsection \<open>\<^verbatim>\<open>insert\<close>\<close>

declare random_level_loop.simps [simp del] link_levels.simps [simp del]

lemma random_level_loop_bounds:
  "level \<le> MAX_LEVEL \<Longrightarrow>
     level \<le> fst (random_level_loop rng pos level)
     \<and> fst (random_level_loop rng pos level) \<le> MAX_LEVEL"
proof (induction rng pos level rule: random_level_loop.induct)
  case (1 rng pos level)
  show ?case
  proof (cases "rng pos \<and> level < MAX_LEVEL")
    case True
    then have "Suc level \<le> MAX_LEVEL" by simp
    then show ?thesis using 1(1)[OF True] True by (subst (1 2) random_level_loop.simps) simp
  next
    case False
    then show ?thesis using 1(2) by (subst (1 2) random_level_loop.simps) auto
  qed
qed

lemma random_level_bounds:
  "0 < fst (random_level rng pos) \<and> fst (random_level rng pos) \<le> MAX_LEVEL"
  using random_level_loop_bounds[of 1 rng pos] by (simp add: random_level_def MAX_LEVEL_def)

text \<open>
  The place of the new node \<open>n\<close> on level \<open>j\<close>: between the nodes with smaller keys, ending
  in \<open>p\<close>, and the nodes with larger keys, beginning with \<open>c\<close>.
\<close>

lemma link_levels_ok:
  assumes "sl_inv_ch s ch"
    and "n < length (heap s)" "n \<noteq> sl_head s" "n \<noteq> sl_tail s" "\<not> marked s n"
    and "level_of s n = new_level" "new_level \<le> MAX_LEVEL" "0 < level"
    and "\<forall>j<level. n \<in> set (ch j)"
    and "\<forall>j. level \<le> j \<and> j < MAX_LEVEL \<longrightarrow> n \<notin> set (ch j)"
    and "\<forall>j. level \<le> j \<and> j < new_level \<longrightarrow>
           (\<exists>A R. ch j = A @ R \<and> ps ! j = last (sl_head s # A) \<and> cs ! j = hd (R @ [sl_tail s])
              \<and> \<not> marked s (ps ! j)
              \<and> (\<forall>a \<in> set A. key_of s a < key_of s n) \<and> (\<forall>a \<in> set R. key_of s n < key_of s a))"
  shows "\<exists>s' ch'. link_levels s n ps cs level new_level = Some s'
           \<and> sl_inv_ch s' ch' \<and> ch' 0 = ch 0 \<and> same_nodes s s'"
  using assms
proof (induction "new_level - level" arbitrary: s ch level)
  case 0
  then have "link_levels s n ps cs level new_level = Some s"
    by (subst link_levels.simps) simp
  then show ?case using 0(2) same_nodes_refl by blast
next
  case (Suc d)
  note inv = Suc.prems(1) and n = Suc.prems(2-5) and nl = Suc.prems(6,7)
  have lt: "level < new_level" using Suc.hyps(2) by simp
  then have lv: "level < MAX_LEVEL" using nl(2) by simp
  obtain A R where ar: "ch level = A @ R" "ps ! level = last (sl_head s # A)"
    "cs ! level = hd (R @ [sl_tail s])" "\<not> marked s (ps ! level)"
    "\<forall>a \<in> set A. key_of s a < key_of s n" "\<forall>a \<in> set R. key_of s n < key_of s a"
    using Suc.prems(11) lt by blast
  have nnot: "n \<notin> set (ch level)" using Suc.prems(10) lv by simp
  have nlev: "level < level_of s n" using lt nl(1) by simp
  define s1 where "s1 = store s n level (Some (cs ! level), False)"
  have inv1: "sl_inv_ch s1 ch"
    using inv_prepare[OF inv lv n(1,2,3) nlev n(4) nnot] by (simp add: s1_def)
  have sn1: "same_nodes s s1"
    using store_same_nodes[OF inv_nodes[OF inv] n(1) nlev n(4)] by (simp add: s1_def)
  note f1 = same_nodes_fields[OF sn1]
  have vn: "valid s n level" using nodes_ok_valid[OF inv_nodes[OF inv] n(1)] nlev by simp
  have nn1: "fst (nx s1 n level) = Some (hd (R @ [sl_tail s1]))"
    using vn ar(3) by (simp add: s1_def nx_store store_fields)
  have p1: "ps ! level = last (sl_head s1 # A)" using ar(2) by (simp add: f1)
  have pm1: "\<not> marked s1 (ps ! level)" using ar(4) by (simp add: f1)
  note pp = chain_pred_ptr[OF inv1 lv ar(1) p1 pm1]
  define s2 where "s2 = store s1 (ps ! level) level (Some n, False)"
  have cas: "cas s1 (ps ! level) level (Some (cs ! level), False) (Some n, False) = Some (True, s2)"
    using pp(4,5) ar(3) by (simp add: cas_def load_def s2_def f1)
  define ch2 where "ch2 = ch(level := A @ n # R)"
  have below: "level = 0 \<or> n \<in> set (ch (level - 1))" using Suc.prems(8,9) by simp
  have inv2: "sl_inv_ch s2 ch2"
    unfolding s2_def ch2_def
    using inv_link[OF inv1 lv ar(1) p1 pm1, of n] n nlev nnot nn1 ar(5,6) below
    by (simp add: f1)
  have sn2: "same_nodes s1 s2"
    using store_same_nodes[OF inv_nodes[OF inv1] pp(1,2) pm1] by (simp add: s2_def)
  have sn: "same_nodes s s2" using same_nodes_trans[OF sn1 sn2] .
  note f2 = same_nodes_fields[OF sn]
  have step: "link_levels s n ps cs level new_level = link_levels s2 n ps cs (Suc level) new_level"
    using lt cas by (subst link_levels.simps) (simp add: s1_def)
  have d: "d = new_level - Suc level" using Suc.hyps(2) by simp
  have lower: "\<forall>j<Suc level. n \<in> set (ch2 j)"
    using Suc.prems(9) by (auto simp: ch2_def less_Suc_eq)
  have upper: "\<forall>j. Suc level \<le> j \<and> j < MAX_LEVEL \<longrightarrow> n \<notin> set (ch2 j)"
    using Suc.prems(10) by (auto simp: ch2_def)
  have places: "\<forall>j. Suc level \<le> j \<and> j < new_level \<longrightarrow>
           (\<exists>A R. ch2 j = A @ R \<and> ps ! j = last (sl_head s2 # A) \<and> cs ! j = hd (R @ [sl_tail s2])
              \<and> \<not> marked s2 (ps ! j)
              \<and> (\<forall>a \<in> set A. key_of s2 a < key_of s2 n) \<and> (\<forall>a \<in> set R. key_of s2 n < key_of s2 a))"
  proof (intro allI impI)
    fix j assume j: "Suc level \<le> j \<and> j < new_level"
    then have "level \<le> j \<and> j < new_level" by simp
    then have "\<exists>A R. ch j = A @ R \<and> ps ! j = last (sl_head s # A) \<and> cs ! j = hd (R @ [sl_tail s])
              \<and> \<not> marked s (ps ! j)
              \<and> (\<forall>a \<in> set A. key_of s a < key_of s n) \<and> (\<forall>a \<in> set R. key_of s n < key_of s a)"
      using Suc.prems(11) by blast
    moreover have "ch2 j = ch j" using j by (simp add: ch2_def)
    ultimately show "\<exists>A R. ch2 j = A @ R \<and> ps ! j = last (sl_head s2 # A)
              \<and> cs ! j = hd (R @ [sl_tail s2]) \<and> \<not> marked s2 (ps ! j)
              \<and> (\<forall>a \<in> set A. key_of s2 a < key_of s2 n) \<and> (\<forall>a \<in> set R. key_of s2 n < key_of s2 a)"
      by (simp add: f2)
  qed
  have n2: "n < length (heap s2)" "n \<noteq> sl_head s2" "n \<noteq> sl_tail s2" "\<not> marked s2 n"
    "level_of s2 n = new_level"
    using n nl(1) by (simp_all add: f2)
  obtain s' ch' where r: "link_levels s2 n ps cs (Suc level) new_level = Some s'"
    "sl_inv_ch s' ch'" "ch' 0 = ch2 0" "same_nodes s2 s'"
    using Suc.hyps(1)[OF d inv2 n2 nl(2) _ lower upper places] by auto
  have "ch2 0 = ch 0" using Suc.prems(8) by (simp add: ch2_def)
  then show ?case using r step same_nodes_trans[OF sn r(4)] by auto
qed

lemma link_one_ok:
  assumes inv: "sl_inv_ch s ch" and lv: "lv < MAX_LEVEL"
    and n: "n < length (heap s)" "n \<noteq> sl_head s" "n \<noteq> sl_tail s" "\<not> marked s n"
      "lv < level_of s n" "n \<notin> set (ch lv)"
    and ar: "ch lv = A @ R" "p = last (sl_head s # A)" "c = hd (R @ [sl_tail s])"
      "\<not> marked s p"
      "\<forall>a \<in> set A. key_of s a < key_of s n" "\<forall>a \<in> set R. key_of s n < key_of s a"
    and below: "lv = 0 \<or> n \<in> set (ch (lv - 1))"
  shows "\<exists>s'. cas (store s n lv (Some c, False)) p lv (Some c, False) (Some n, False)
                = Some (True, s')
           \<and> sl_inv_ch s' (ch(lv := A @ n # R)) \<and> same_nodes s s'"
proof -
  define s1 where "s1 = store s n lv (Some c, False)"
  have inv1: "sl_inv_ch s1 ch"
    using inv_prepare[OF inv lv n(1,2,3,5,4,6)] by (simp add: s1_def)
  have sn1: "same_nodes s s1"
    using store_same_nodes[OF inv_nodes[OF inv] n(1,5,4)] by (simp add: s1_def)
  note f1 = same_nodes_fields[OF sn1]
  have vn: "valid s n lv" using nodes_ok_valid[OF inv_nodes[OF inv] n(1)] n(5) by simp
  have nn1: "fst (nx s1 n lv) = Some (hd (R @ [sl_tail s1]))"
    using vn ar(3) by (simp add: s1_def nx_store store_fields)
  have p1: "p = last (sl_head s1 # A)" using ar(2) by (simp add: f1)
  have pm1: "\<not> marked s1 p" using ar(4) by (simp add: f1)
  note pp = chain_pred_ptr[OF inv1 lv ar(1) p1 pm1]
  define s2 where "s2 = store s1 p lv (Some n, False)"
  have cas: "cas s1 p lv (Some c, False) (Some n, False) = Some (True, s2)"
    using pp(4,5) ar(3) by (simp add: cas_def load_def s2_def f1)
  have inv2: "sl_inv_ch s2 (ch(lv := A @ n # R))"
    unfolding s2_def
    using inv_link[OF inv1 lv ar(1) p1 pm1, of n] n nn1 ar(5,6) below
    by (simp add: f1)
  have sn2: "same_nodes s1 s2"
    using store_same_nodes[OF inv_nodes[OF inv1] pp(1,2) pm1] by (simp add: s2_def)
  show ?thesis using cas inv2 same_nodes_trans[OF sn1 sn2] by (auto simp: s1_def)
qed

lemma absent_all_levels:
  fixes s :: "('k::linorder, 'v) skiplist"
  assumes inv: "sl_inv_ch s ch"
    and pos: "\<forall>j<MAX_LEVEL. level_pos s ch key j (ps ! j) (cs ! j)"
    and nf: "\<not> (cs ! 0 \<noteq> sl_tail s \<and> key_of s (cs ! 0) = key)"
    and j: "j < MAX_LEVEL"
  shows "\<exists>A R. ch j = A @ R \<and> ps ! j = last (sl_head s # A) \<and> cs ! j = hd (R @ [sl_tail s])
           \<and> \<not> marked s (ps ! j)
           \<and> (\<forall>a \<in> set A. key_of s a < key) \<and> (\<forall>a \<in> set R. key < key_of s a)"
proof -
  have pos0: "level_pos s ch key 0 (ps ! 0) (cs ! 0)" using pos MAX_LEVEL_pos by simp
  have none0: "\<forall>a \<in> set (ch 0). key_of s a \<noteq> key" using pos_level0(3)[OF inv pos0 nf] .
  obtain A R where ar: "ch j = A @ R" "ps ! j = last (sl_head s # A)"
    "cs ! j = hd (R @ [sl_tail s])" "\<not> marked s (ps ! j)"
    "\<forall>a \<in> set A. key_of s a < key" "\<forall>a \<in> set R. key \<le> key_of s a"
    "R \<noteq> [] \<longrightarrow> \<not> marked s (hd R)"
    using pos j unfolding level_pos_def by blast
  have "\<forall>a \<in> set R. key < key_of s a"
  proof (cases R)
    case Nil
    then show ?thesis by simp
  next
    case (Cons c R2)
    have "\<not> marked s c" using ar(7) Cons by simp
    moreover have "c \<in> set (ch j)" using ar(1) Cons by simp
    ultimately have "c \<in> set (ch 0)" using inv_down_all[OF inv _ j, of c 0] by simp
    then have "key_of s c \<noteq> key" using none0 by simp
    then have "key < key_of s c" using ar(6) Cons by auto
    moreover have "sorted_wrt (<) (map (key_of s) (A @ c # R2))"
      using inv_chain[OF inv j] ar(1) Cons by (simp add: level_chain_def)
    then have "\<forall>a \<in> set R2. key_of s c < key_of s a" by (simp add: sorted_wrt_append)
    ultimately show ?thesis using Cons by auto
  qed
  then show ?thesis using ar(1-5) by blast
qed

lemma insert_loop_ok:
  assumes "sl_inv_ch s ch"
  shows "\<exists>s' ch'. insert_loop s rng pos key val = Some (val \<notin> content s (ch 0) key, s')
           \<and> sl_inv_ch s' ch'
           \<and> content s' (ch' 0) = (content s (ch 0))(key := insert val (content s (ch 0) key))"
proof -
  obtain s1 ch1 ps cs where f:
    "sl_find s key = Some (cs ! 0 \<noteq> sl_tail s1 \<and> key_of s1 (cs ! 0) = key, ps, cs, s1)"
    "sl_inv_ch s1 ch1" "same_nodes s s1" "content s1 (ch1 0) = content s (ch 0)"
    "\<forall>j<MAX_LEVEL. level_pos s1 ch1 key j (ps ! j) (cs ! j)"
    using sl_find_ok[OF assms, of key] by blast
  have pos: "level_pos s1 ch1 key 0 (ps ! 0) (cs ! 0)" using f(5) MAX_LEVEL_pos by simp
  note p0 = pos_level0[OF f(2) pos]
  have srt: "sorted_wrt (<) (map (key_of s1) (ch1 0))"
    using inv_chain[OF f(2) MAX_LEVEL_pos] by (simp add: level_chain_def)
  show ?thesis
  proof (cases "cs ! 0 \<noteq> sl_tail s1 \<and> key_of s1 (cs ! 0) = key")
    case True
    define c where "c = cs ! 0"
    have c: "c \<in> set (ch1 0)" "\<not> marked s1 c" "key_of s1 c = key"
      using p0(2) True by (simp_all add: c_def)
    note cn = load_chain0(2-4)[OF f(2) c(1)]
    obtain q where q: "load s1 c 0 = Some q" "\<not> is_marked q"
      using load_chain0(1)[OF f(2) c(1)] c(2) by blast
    have cont: "content s1 (ch1 0) key = values_of s1 c" using p0(1) True by (simp add: c_def)
    define s2 where "s2 = set_values s1 c (insert val (values_of s1 c))"
    have res: "insert_loop s rng pos key val = Some (val \<notin> values_of s1 c, s2)"
      using f(1) True q by (subst insert_loop.simps) (simp add: c_def s2_def)
    have inv2: "sl_inv_ch s2 ch1" unfolding s2_def using f(2) by (rule inv_set_values)
    have "content s2 (ch1 0) = (content s1 (ch1 0))(key_of s1 c := insert val (values_of s1 c))"
      unfolding s2_def using content_set_values[OF srt c(1,2) cn(1)] .
    then have "content s2 (ch1 0) = (content s (ch 0))(key := insert val (content s (ch 0) key))"
      using cont c(3) f(4) by simp
    then show ?thesis using res inv2 cont f(4) by auto
  next
    case False
    have empty: "content s (ch 0) key = {}" using p0(1) False f(4) by auto
    obtain new_level pos1 where rl: "random_level rng pos = (new_level, pos1)"
      by (cases "random_level rng pos")
    have nl: "0 < new_level" "new_level \<le> MAX_LEVEL"
      using random_level_bounds[of rng pos] rl by simp_all
    define node :: "('a, 'b) sl_node" where "node = create_node key {val} new_level"
    define n where "n = length (heap s1)"
    define s2 where "s2 = snd (alloc s1 node)"
    have al: "alloc s1 node = (n, s2)" by (simp add: n_def s2_def alloc_def)
    have inv2: "sl_inv_ch s2 ch1"
      unfolding s2_def node_def using inv_alloc[OF f(2) nl] .
    have ok1: "nodes_ok s1" using f(2) by (rule inv_nodes)
    have old: "\<forall>j<MAX_LEVEL. \<forall>a \<in> set (sl_head s1 # ch1 j). a < n"
    proof (intro allI impI)
      fix j assume j: "j < MAX_LEVEL"
      show "\<forall>a \<in> set (sl_head s1 # ch1 j). a < n"
        using chain_node(1)[OF ok1 inv_chain[OF f(2) j] j] by (auto simp: n_def)
    qed
    have n2: "n < length (heap s2)" "n \<noteq> sl_head s2" "n \<noteq> sl_tail s2" "\<not> marked s2 n"
      "level_of s2 n = new_level" "key_of s2 n = key" "values_of s2 n = {val}"
      using ok1 nl(1)
      by (auto simp: n_def s2_def node_def alloc_new create_node_def nodes_ok_def marked_def
          is_marked_def)
    have h2: "sl_head s2 = sl_head s1" "sl_tail s2 = sl_tail s1"
      by (simp_all add: s2_def alloc_new)
    have old2: "\<And>a. a < n \<Longrightarrow> key_of s2 a = key_of s1 a \<and> marked s2 a = marked s1 a
                         \<and> values_of s2 a = values_of s1 a"
      by (simp add: s2_def n_def alloc_old)
    have notin: "\<forall>j<MAX_LEVEL. n \<notin> set (ch1 j)" using old by auto
    have places: "\<forall>j<MAX_LEVEL. \<exists>A R. ch1 j = A @ R \<and> ps ! j = last (sl_head s2 # A)
           \<and> cs ! j = hd (R @ [sl_tail s2]) \<and> \<not> marked s2 (ps ! j)
           \<and> (\<forall>a \<in> set A. key_of s2 a < key_of s2 n) \<and> (\<forall>a \<in> set R. key_of s2 n < key_of s2 a)"
    proof (intro allI impI)
      fix j assume j: "j < MAX_LEVEL"
      obtain A R where ar: "ch1 j = A @ R" "ps ! j = last (sl_head s1 # A)"
        "cs ! j = hd (R @ [sl_tail s1])" "\<not> marked s1 (ps ! j)"
        "\<forall>a \<in> set A. key_of s1 a < key" "\<forall>a \<in> set R. key < key_of s1 a"
        using absent_all_levels[OF f(2,5) False j] by blast
      have lt: "\<forall>a \<in> set (sl_head s1 # A @ R). a < n" using old j ar(1) by simp
      have "ps ! j \<in> set (sl_head s1 # A)" using ar(2) by (cases A rule: rev_cases) auto
      then have "ps ! j < n" using lt by auto
      then have "\<not> marked s2 (ps ! j)" using ar(4) old2 by simp
      moreover have "\<forall>a \<in> set A. key_of s2 a < key_of s2 n" using ar(5) lt old2 n2(6) by simp
      moreover have "\<forall>a \<in> set R. key_of s2 n < key_of s2 a" using ar(6) lt old2 n2(6) by simp
      ultimately show "\<exists>A R. ch1 j = A @ R \<and> ps ! j = last (sl_head s2 # A)
           \<and> cs ! j = hd (R @ [sl_tail s2]) \<and> \<not> marked s2 (ps ! j)
           \<and> (\<forall>a \<in> set A. key_of s2 a < key_of s2 n) \<and> (\<forall>a \<in> set R. key_of s2 n < key_of s2 a)"
        using ar(1,2,3) h2 by auto
    qed
    obtain A0 R0 where ar0: "ch1 0 = A0 @ R0" "ps ! 0 = last (sl_head s2 # A0)"
      "cs ! 0 = hd (R0 @ [sl_tail s2])" "\<not> marked s2 (ps ! 0)"
      "\<forall>a \<in> set A0. key_of s2 a < key_of s2 n" "\<forall>a \<in> set R0. key_of s2 n < key_of s2 a"
      using places MAX_LEVEL_pos by blast
    have nlev0: "0 < level_of s2 n" using n2(5) nl(1) by simp
    have notin0: "n \<notin> set (ch1 0)" using notin MAX_LEVEL_pos by simp
    define ch4 where "ch4 = ch1(0 := A0 @ n # R0)"
    obtain s4 where l0:
      "cas (store s2 n 0 (Some (cs ! 0), False)) (ps ! 0) 0 (Some (cs ! 0), False) (Some n, False)
         = Some (True, s4)"
      "sl_inv_ch s4 ch4" "same_nodes s2 s4"
      using link_one_ok[OF inv2 MAX_LEVEL_pos n2(1-4) nlev0 notin0 ar0] by (auto simp: ch4_def)
    note f4 = same_nodes_fields[OF l0(3)]
    have n4: "n < length (heap s4)" "n \<noteq> sl_head s4" "n \<noteq> sl_tail s4" "\<not> marked s4 n"
      "level_of s4 n = new_level"
      using n2 by (simp_all add: f4)
    have lower: "\<forall>j<Suc 0. n \<in> set (ch4 j)" by (simp add: ch4_def)
    have upper: "\<forall>j. Suc 0 \<le> j \<and> j < MAX_LEVEL \<longrightarrow> n \<notin> set (ch4 j)"
      using notin by (auto simp: ch4_def)
    have places4: "\<forall>j. Suc 0 \<le> j \<and> j < new_level \<longrightarrow>
           (\<exists>A R. ch4 j = A @ R \<and> ps ! j = last (sl_head s4 # A) \<and> cs ! j = hd (R @ [sl_tail s4])
              \<and> \<not> marked s4 (ps ! j)
              \<and> (\<forall>a \<in> set A. key_of s4 a < key_of s4 n) \<and> (\<forall>a \<in> set R. key_of s4 n < key_of s4 a))"
    proof (intro allI impI)
      fix j assume j: "Suc 0 \<le> j \<and> j < new_level"
      then have "j < MAX_LEVEL" using nl(2) by simp
      then have "\<exists>A R. ch1 j = A @ R \<and> ps ! j = last (sl_head s2 # A)
           \<and> cs ! j = hd (R @ [sl_tail s2]) \<and> \<not> marked s2 (ps ! j)
           \<and> (\<forall>a \<in> set A. key_of s2 a < key_of s2 n) \<and> (\<forall>a \<in> set R. key_of s2 n < key_of s2 a)"
        using places by blast
      moreover have "ch4 j = ch1 j" using j by (simp add: ch4_def)
      ultimately show "\<exists>A R. ch4 j = A @ R \<and> ps ! j = last (sl_head s4 # A)
              \<and> cs ! j = hd (R @ [sl_tail s4]) \<and> \<not> marked s4 (ps ! j)
              \<and> (\<forall>a \<in> set A. key_of s4 a < key_of s4 n) \<and> (\<forall>a \<in> set R. key_of s4 n < key_of s4 a)"
        by (simp add: f4)
    qed
    have one: "0 < Suc 0" by simp
    obtain s5 ch5 where l5: "link_levels s4 n ps cs (Suc 0) new_level = Some s5"
      "sl_inv_ch s5 ch5" "ch5 0 = ch4 0" "same_nodes s4 s5"
      using link_levels_ok[OF l0(2) n4 nl(2) one lower upper places4] by blast
    have res: "insert_loop s rng pos key val = Some (True, s5)"
      using f(1) False rl al l0(1) l5(1)
      by (subst insert_loop.simps) (simp add: node_def)
    have sn25: "same_nodes s2 s5" using same_nodes_trans[OF l0(3) l5(4)] .
    have "content s5 (ch5 0) = content s2 (A0 @ n # R0)"
      using same_nodes_content[OF sn25] l5(3) by (simp add: ch4_def)
    also have "\<dots> = (content s2 (A0 @ R0))(key_of s2 n := values_of s2 n)"
    proof -
      have "\<forall>a \<in> set (A0 @ R0). key_of s2 a \<noteq> key_of s2 n" using ar0(5,6) by auto
      then show ?thesis by (rule content_link[OF n2(4)])
    qed
    also have "content s2 (A0 @ R0) = content s1 (ch1 0)"
    proof -
      have "\<forall>a \<in> set (ch1 0). a < n" using old MAX_LEVEL_pos by auto
      then have "\<forall>a \<in> set (ch1 0). values_of s2 a = values_of s1 a
                   \<and> marked s2 a = marked s1 a \<and> key_of s2 a = key_of s1 a"
        using old2 by simp
      then have "content s2 (ch1 0) = content s1 (ch1 0)" by (rule content_cong)
      then show ?thesis using ar0(1) by simp
    qed
    finally have "content s5 (ch5 0) = (content s (ch 0))(key := {val})"
      using f(4) n2(6,7) by (simp add: fun_eq_iff)
    then show ?thesis using res l5(2) empty by auto
  qed
qed

lemma sl_insert_ok:
  assumes "sl_inv_ch s ch"
  shows "\<exists>s' ch'. sl_insert s rng key val = Some (val \<notin> content s (ch 0) key, s')
           \<and> sl_inv_ch s' ch'
           \<and> content s' (ch' 0) = (content s (ch 0))(key := insert val (content s (ch 0) key))"
  unfolding sl_insert_def using insert_loop_ok[OF assms] .

subsection \<open>Reachable skip lists\<close>

lemma sl_inv_init: "sl_inv_ch (sl_init k0) (\<lambda>lv. [])"
proof -
  let ?s = "sl_init k0 :: ('a, 'b) skiplist"
  have h: "heap ?s = [(create_node k0 {} MAX_LEVEL)\<lparr> sl_next := replicate MAX_LEVEL (Some 1, False) \<rparr>,
                      create_node k0 {} MAX_LEVEL]"
    "sl_head ?s = 0" "sl_tail ?s = 1"
    by (simp_all add: sl_init_def)
  have nx0: "\<And>lv. lv < MAX_LEVEL \<Longrightarrow> nx ?s 0 lv = (Some 1, False)"
    by (simp add: nx_def h create_node_def)
  have nx1: "\<And>lv. lv < MAX_LEVEL \<Longrightarrow> nx ?s 1 lv = (None, False)"
    by (simp add: nx_def h create_node_def)
  have lvl: "level_of ?s 0 = MAX_LEVEL" "level_of ?s 1 = MAX_LEVEL"
    by (simp_all add: level_of_def h create_node_def)
  have len: "length (sl_next (heap ?s ! 0)) = MAX_LEVEL" "length (sl_next (heap ?s ! 1)) = MAX_LEVEL"
    by (simp_all add: h create_node_def)
  have m: "\<not> marked ?s 0" "\<not> marked ?s 1"
    using nx0[OF MAX_LEVEL_pos] nx1[OF MAX_LEVEL_pos] by (simp_all add: marked_def is_marked_def)
  have two: "\<And>a. a < length (heap ?s) \<longleftrightarrow> a = 0 \<or> a = 1" by (auto simp: h)
  have "nodes_ok ?s"
    unfolding nodes_ok_def two
    using nx0 nx1 lvl len m MAX_LEVEL_pos by (auto simp: h(2,3) is_marked_def)
  moreover have "\<forall>lv<MAX_LEVEL. level_chain ?s lv []"
    using nx0 by (simp add: level_chain_def h(2,3))
  ultimately show ?thesis by (simp add: sl_inv_ch_def)
qed

lemma sl_reachable_inv: "sl_reachable k0 s \<Longrightarrow> sl_inv s"
proof (induction rule: sl_reachable.induct)
  case sl_start
  show ?case unfolding sl_inv_def using sl_inv_init by blast
next
  case (sl_step_insert s rng key val b s')
  then obtain ch where "sl_inv_ch s ch" by (auto simp: sl_inv_def)
  then show ?case
    using sl_insert_ok[of s ch rng key val] sl_step_insert.hyps(2) by (auto simp: sl_inv_def)
next
  case (sl_step_remove s key b s')
  then obtain ch where "sl_inv_ch s ch" by (auto simp: sl_inv_def)
  then show ?case
    using sl_remove_ok[of s ch key] sl_step_remove.hyps(2) by (auto simp: sl_inv_def)
next
  case (sl_step_search s key vs s')
  then obtain ch where "sl_inv_ch s ch" by (auto simp: sl_inv_def)
  then show ?case
    using sl_search_ok[of s ch key] sl_step_search.hyps(2) by (auto simp: sl_inv_def)
qed

lemma level_nodes_path:
  assumes "sl_path s lv a xs (sl_tail s)" and "sl_tail s \<notin> set xs"
    and "\<forall>x \<in> set (a # xs). valid s x lv"
  shows "level_nodes s lv a = Some xs"
  using assms
proof (induction xs arbitrary: a)
  case Nil
  then show ?case by (subst level_nodes.simps) (simp add: load_def get_unmarked_ref_def)
next
  case (Cons x xs)
  have "level_nodes s lv x = Some xs" using Cons.IH[of x] Cons.prems by simp
  then show ?case
    using Cons.prems by (subst level_nodes.simps) (simp add: load_def get_unmarked_ref_def)
qed

lemma level_nodes_chain:
  assumes "sl_inv_ch s ch" and "lv < MAX_LEVEL"
  shows "level_nodes s lv (sl_head s) = Some (ch lv)"
proof -
  have c: "level_chain s lv (ch lv)" using inv_chain[OF assms] .
  have "\<forall>x \<in> set (sl_head s # ch lv). valid s x lv"
    using chain_node(4)[OF inv_nodes[OF assms(1)] c assms(2)] by blast
  then show ?thesis
    using c by (intro level_nodes_path) (auto simp: level_chain_def)
qed

lemma absent_preserved:
  assumes "no_insert_of key s s'"
    and "\<exists>ch. sl_inv_ch s ch \<and> content s (ch 0) key = {}"
  shows "\<exists>ch. sl_inv_ch s' ch \<and> content s' (ch 0) key = {}"
  using assms
proof (induction rule: no_insert_of.induct)
  case run_none
  then show ?case by simp
next
  case (run_insert s1 k rng val b s2)
  then obtain ch where ch: "sl_inv_ch s1 ch" "content s1 (ch 0) key = {}" by auto
  obtain s' ch' where r: "sl_insert s1 rng k val = Some (val \<notin> content s1 (ch 0) k, s')"
    "sl_inv_ch s' ch'"
    "content s' (ch' 0) = (content s1 (ch 0))(k := insert val (content s1 (ch 0) k))"
    using sl_insert_ok[OF ch(1), of rng k val] by blast
  have e: "s' = s2" using r(1) run_insert.hyps(3) by simp
  have "content s' (ch' 0) key = {}" using r(3) ch(2) run_insert.hyps(2) by simp
  then show ?case using r(2) e by blast
next
  case (run_remove s1 k b s2)
  then obtain ch where ch: "sl_inv_ch s1 ch" "content s1 (ch 0) key = {}" by auto
  obtain ch' where r: "sl_inv_ch s2 ch'" "content s2 (ch' 0) = (content s1 (ch 0))(k := {})"
    using sl_remove_true[OF ch(1) run_remove.hyps(2)] by blast
  have "content s2 (ch' 0) key = {}" using r(2) ch(2) by simp
  then show ?case using r(1) by blast
next
  case (run_search s1 k vs s2)
  then obtain ch where ch: "sl_inv_ch s1 ch" "content s1 (ch 0) key = {}" by auto
  obtain s' ch' where r: "sl_search s1 k = Some (content s1 (ch 0) k, s')"
    "sl_inv_ch s' ch'" "content s' (ch' 0) = content s1 (ch 0)"
    using sl_search_ok[OF ch(1), of k] by blast
  have e: "s' = s2" using r(1) run_search.hyps(2) by simp
  have "content s' (ch' 0) key = {}" using r(3) ch(2) by simp
  then show ?case using r(2) e by blast
qed

subsection \<open>The example lists\<close>

lemmas sl_eval =
  walk_level.simps skip_marked.simps succ_of_def is_marked_def load_def valid_def nx_def
  create_node_def MAX_LEVEL_def get_unmarked_ref_def get_marked_ref_def key_of_def values_of_def
  level_of_def eval_nat_numeral random_level_def random_level_loop.simps alloc_def cas_def
  store_def link_levels.simps mark_level.simps sl_one_def sl_two_def

lemma sl_one_built:
  "sl_insert (sl_init '''') (\<lambda>n. False) ''a'' ''v'' = Some (True, sl_one)"
  unfolding sl_insert_def
  by (subst insert_loop.simps, subst sl_find.simps) (simp add: sl_eval sl_init_def)

lemma sl_two_built:
  "sl_insert sl_one (\<lambda>n. n = 0) ''b'' ''w''
     = Some (True, sl_two [(Some 2, False), (Some 3, False)] (Some 3, False))"
  unfolding sl_insert_def
  by (subst insert_loop.simps, subst sl_find.simps) (simp add: sl_eval)

lemma sl_two_remove:
  "sl_remove (sl_two [(Some 2, False), (Some 3, False)] (Some 3, False)) ''a''
     = Some (True, sl_two [(Some 2, False), (Some 3, False)] (Some 3, True))"
  unfolding sl_remove_def
  by (subst sl_find.simps) (simp add: sl_eval)

lemma sl_two_search_a:
  "sl_search (sl_two [(Some 2, False), (Some 3, False)] (Some 3, True)) ''a''
     = Some ({}, sl_two [(Some 3, False), (Some 3, False)] (Some 3, True))"
  unfolding sl_search_def
  by (subst sl_find.simps) (simp add: sl_eval)

lemma sl_two_search_b:
  "sl_search (sl_two [(Some 2, False), (Some 3, False)] (Some 3, True)) ''b''
     = Some ({''w''}, sl_two [(Some 3, False), (Some 3, False)] (Some 3, True))"
  "sl_search (sl_two [(Some 3, False), (Some 3, False)] (Some 3, True)) ''b''
     = Some ({''w''}, sl_two [(Some 3, False), (Some 3, False)] (Some 3, True))"
  unfolding sl_search_def
  by (subst sl_find.simps, simp add: sl_eval)+

lemma sl_two_reachable:
  "sl_reachable '''' (sl_two [(Some 2, False), (Some 3, False)] (Some 3, False))"
  "sl_reachable '''' (sl_two [(Some 2, False), (Some 3, False)] (Some 3, True))"
proof -
  have "sl_reachable '''' sl_one" using sl_step_insert[OF sl_start sl_one_built] .
  then show 1: "sl_reachable '''' (sl_two [(Some 2, False), (Some 3, False)] (Some 3, False))"
    using sl_step_insert[OF _ sl_two_built] by simp
  show "sl_reachable '''' (sl_two [(Some 2, False), (Some 3, False)] (Some 3, True))"
    using sl_step_remove[OF 1 sl_two_remove] .
qed

lemma sl_two_level0:
  "level_nodes (sl_two [(Some 2, False), (Some 3, False)] (Some 3, True)) 0 0 = Some [2, 3]"
  by (subst level_nodes.simps, subst level_nodes.simps, subst level_nodes.simps)
     (simp add: sl_eval)

subsection \<open>Lists built by operations that run one after the other\<close>

text \<open>
  Operations that run one after the other: let \<open>s\<close> be a skip list built by a sequence of
  whole operations. Once \<open>remove key\<close> has returned true, every later \<open>search key\<close> returns
  the empty set, whatever whole operations run in between, as long as none of them is an
  \<open>insert\<close> of \<open>key\<close>.
\<close>

lemma sl_sequential_search_after_remove:
  assumes "sl_reachable k0 s" and "sl_remove s key = Some (True, s1)"
    and "no_insert_of key s1 s2"
  shows "\<exists>s3. sl_search s2 key = Some ({}, s3)"
proof -
  obtain ch where ch: "sl_inv_ch s ch"
    using sl_reachable_inv[OF assms(1)] by (auto simp: sl_inv_def)
  obtain ch1 where ch1: "sl_inv_ch s1 ch1" "content s1 (ch1 0) = (content s (ch 0))(key := {})"
    using sl_remove_true[OF ch assms(2)] by blast
  have "content s1 (ch1 0) key = {}" using ch1(2) by simp
  then have "\<exists>ch. sl_inv_ch s1 ch \<and> content s1 (ch 0) key = {}" using ch1(1) by blast
  then obtain ch2 where ch2: "sl_inv_ch s2 ch2" "content s2 (ch2 0) key = {}"
    using absent_preserved[OF assms(3)] by blast
  show ?thesis using sl_search_ok[OF ch2(1), of key] ch2(2) by auto
qed

lemma sl_sequential_search_after_remove_example:
  "sl_reachable '''' (sl_two [(Some 2, False), (Some 3, False)] (Some 3, False))
   \<and> sl_remove (sl_two [(Some 2, False), (Some 3, False)] (Some 3, False)) ''a''
       = Some (True, sl_two [(Some 2, False), (Some 3, False)] (Some 3, True))
   \<and> no_insert_of ''a'' (sl_two [(Some 2, False), (Some 3, False)] (Some 3, True))
        (sl_two [(Some 3, False), (Some 3, False)] (Some 3, True))
   \<and> map_option fst (sl_search (sl_two [(Some 3, False), (Some 3, False)] (Some 3, True)) ''a'')
       = Some {}"
proof -
  have run: "no_insert_of ''a'' (sl_two [(Some 2, False), (Some 3, False)] (Some 3, True))
               (sl_two [(Some 3, False), (Some 3, False)] (Some 3, True))"
    using run_search[OF run_none sl_two_search_b(1)] .
  show ?thesis
    using sl_sequential_search_after_remove[OF sl_two_reachable(1) sl_two_remove run]
      sl_two_reachable(1) sl_two_remove run
    by auto
qed

text \<open>
  Claim C6: in a skip list built by any sequence of \<open>insert\<close>, \<open>remove\<close> and \<open>search\<close>
  operations, the traversal of level 0 from the head arrives at the tail, and the keys of
  the nodes it meets that are not logically deleted increase strictly; so no two of these
  nodes hold the same key.
\<close>

theorem sl_level0_keys_increasing:
  assumes "sl_reachable k0 s"
  shows "\<exists>xs. level_nodes s 0 (sl_head s) = Some xs
           \<and> sorted_wrt (<) (live_keys s xs) \<and> distinct (live_keys s xs)"
proof -
  obtain ch where ch: "sl_inv_ch s ch"
    using sl_reachable_inv[OF assms] by (auto simp: sl_inv_def)
  have n: "level_nodes s 0 (sl_head s) = Some (ch 0)"
    using level_nodes_chain[OF ch MAX_LEVEL_pos] .
  have "sorted_wrt (<) (map (key_of s) (ch 0))"
    using inv_chain[OF ch MAX_LEVEL_pos] by (simp add: level_chain_def)
  then have "sorted_wrt (\<lambda>a b. key_of s a < key_of s b) (ch 0)" by (simp add: sorted_wrt_map)
  then have "sorted_wrt (\<lambda>a b. key_of s a < key_of s b) (filter (\<lambda>a. \<not> marked s a) (ch 0))"
    by (rule sorted_wrt_filter)
  then have srt: "sorted_wrt (<) (live_keys s (ch 0))"
    by (simp add: live_keys_def sorted_wrt_map)
  then have "distinct (live_keys s (ch 0))" by (simp add: strict_sorted_iff)
  then show ?thesis using n srt by blast
qed

theorem sl_level0_keys_increasing_witness:
  "sl_reachable '''' (sl_two [(Some 2, False), (Some 3, False)] (Some 3, True))
   \<and> level_nodes (sl_two [(Some 2, False), (Some 3, False)] (Some 3, True)) 0 0 = Some [2, 3]
   \<and> live_keys (sl_two [(Some 2, False), (Some 3, False)] (Some 3, True)) [2, 3] = [''b'']
   \<and> sorted_wrt (<) (live_keys (sl_two [(Some 2, False), (Some 3, False)] (Some 3, True)) [2, 3])"
proof -
  have h: "sl_head (sl_two [(Some 2, False), (Some 3, False)] (Some 3, True)) = 0"
    by (simp add: sl_two_def)
  have l: "live_keys (sl_two [(Some 2, False), (Some 3, False)] (Some 3, True)) [2, 3] = [''b'']"
    by (simp add: live_keys_def marked_def sl_eval)
  show ?thesis
    using sl_level0_keys_increasing[OF sl_two_reachable(2)] sl_two_reachable(2) sl_two_level0 l
    unfolding h by auto
qed

text \<open>
  On a list built by operations that run one after the other, every \<^verbatim>\<open>search\<close> returns, and
  the list it leaves gives every \<^verbatim>\<open>search\<close> the value set that the given list gives it.
\<close>

lemma sl_sequential_search_returns:
  assumes "sl_reachable k0 s"
  shows "\<exists>vs s'. sl_search s key = Some (vs, s')
           \<and> (\<forall>k. \<exists>ws t t'. sl_search s k = Some (ws, t) \<and> sl_search s' k = Some (ws, t'))"
proof -
  obtain ch where ch: "sl_inv_ch s ch"
    using sl_reachable_inv[OF assms] by (auto simp: sl_inv_def)
  obtain s' ch' where r: "sl_search s key = Some (content s (ch 0) key, s')"
    "sl_inv_ch s' ch'" "content s' (ch' 0) = content s (ch 0)"
    using sl_search_ok[OF ch, of key] by blast
  have "\<exists>ws t t'. sl_search s k = Some (ws, t) \<and> sl_search s' k = Some (ws, t')" for k
    using sl_search_ok[OF ch, of k] sl_search_ok[OF r(2), of k] r(3) by auto
  then show ?thesis using r(1) by blast
qed

subsection \<open>An insert overtaken by a remove\<close>

lemmas sl_eval_bd = sl_eval sl_only_d_def sl_bd_def

lemma sl_only_d_built:
  "sl_insert (sl_init '''') (\<lambda>n. False) ''d'' ''y'' = Some (True, sl_only_d)"
  unfolding sl_insert_def
  by (subst insert_loop.simps, subst sl_find.simps) (simp add: sl_eval_bd sl_init_def)

lemma sl_bd_find_b:
  "sl_find sl_only_d ''b'' = Some (False, replicate 16 0, 2 # replicate 15 1, sl_only_d)"
  by (subst sl_find.simps) (simp add: sl_eval_bd)

lemma sl_bd_level0:
  "random_level (\<lambda>n. n = 0) 0 = (2, 2)"
  "alloc sl_only_d (create_node ''b'' {''x''} 2)
     = (3, sl_bd [(Some 2, False), (Some 1, False)] [(None, False), (None, False)] (Some 1, False))"
  "cas (store (sl_bd [(Some 2, False), (Some 1, False)] [(None, False), (None, False)]
                 (Some 1, False)) 3 0 (Some 2, False))
       0 0 (Some 2, False) (Some 3, False)
     = Some (True, sl_bd [(Some 3, False), (Some 1, False)] [(Some 2, False), (None, False)]
                     (Some 1, False))"
  by (simp_all add: sl_eval_bd)

lemma sl_bd_remove_b:
  "sl_remove (sl_bd [(Some 3, False), (Some 1, False)] [(Some 2, False), (None, False)]
                (Some 1, False)) ''b''
     = Some (True, sl_bd [(Some 3, False), (Some 1, False)] [(Some 2, True), (None, True)]
                     (Some 1, False))"
  unfolding sl_remove_def
  by (subst sl_find.simps) (simp add: sl_eval_bd)

lemma sl_bd_link_level1:
  "link_levels (sl_bd [(Some 3, False), (Some 1, False)] [(Some 2, True), (None, True)]
                  (Some 1, False)) 3 (replicate 16 0) (2 # replicate 15 1) 1 2
     = Some (sl_bd [(Some 3, False), (Some 3, False)] [(Some 2, True), (Some 1, False)]
               (Some 1, False))"
  by (simp add: sl_eval_bd)

lemma sl_bd_remove_d:
  "sl_remove (sl_bd [(Some 3, False), (Some 3, False)] [(Some 2, True), (Some 1, False)]
                (Some 1, False)) ''d''
     = Some (True, sl_bd [(Some 3, False), (Some 3, False)] [(Some 2, True), (Some 1, False)]
                     (Some 1, True))"
  unfolding sl_remove_def
  by (subst sl_find.simps) (simp add: sl_eval_bd)

lemma sl_bd_restart:
  "find_levels (sl_bd [(Some 3, False), (Some 3, False)] [(Some 2, True), (Some 1, False)]
                  (Some 1, True)) ''d'' 0 MAX_LEVEL
     = Some (sl_bd [(Some 3, False), (Some 3, False)] [(Some 2, True), (Some 1, False)]
               (Some 1, True), None)"
  by (simp add: sl_eval_bd)

lemma sl_bd_find_diverges:
  "sl_find (sl_bd [(Some 3, False), (Some 3, False)] [(Some 2, True), (Some 1, False)]
              (Some 1, True)) ''d'' = None"
proof -
  let ?s = "sl_bd [(Some 3, False), (Some 3, False)] [(Some 2, True), (Some 1, False)]
              (Some 1, True)"
  have h: "sl_head ?s = 0" by (simp add: sl_bd_def)
  have "\<not> (s = ?s \<and> key = ''d'')" if a: "sl_find s key = Some y" for s key y
  proof (rule sl_find.raw_induct[where P = "\<lambda>s key y. \<not> (s = ?s \<and> key = ''d'')", OF _ a],
      goal_cases)
    case (1 f s key y)
    show ?case
    proof
      assume e: "s = ?s \<and> key = ''d''"
      have r: "find_levels s key (sl_head s) MAX_LEVEL = Some (?s, None)"
        using e sl_bd_restart by (simp only: h)
      have "f ?s ''d'' = Some y" using 1(2) e unfolding r by (simp only: option.case prod.case)
      then show False using 1(1) by blast
    qed
  qed
  then have "\<And>y. sl_find ?s ''d'' \<noteq> Some y" by blast
  then show ?thesis by (cases "sl_find ?s ''d''") blast+
qed

text \<open>
  Claim C5 fails when operations overlap. On the list that holds \<open>''d''\<close>, an \<^verbatim>\<open>insert\<close> of
  \<open>(''b'', ''x'')\<close> with level 2 finds its place, creates its node at address 3 and links it
  on level 0. Before it goes on, a \<^verbatim>\<open>remove\<close> of \<open>''b''\<close> runs and marks both pointers of the
  node. The \<^verbatim>\<open>insert\<close> then continues with its loop over the upper levels: it stores the
  unmarked successor in the pointer of level 1 and links the node there, so the node is
  deleted on level 0 and alive on level 1. On that list \<^verbatim>\<open>remove\<close> of \<open>''d''\<close> returns true,
  and the \<^verbatim>\<open>search\<close> of \<open>''d''\<close> that follows never returns: the pass over the levels ends in
  a restart and leaves the list as it is, again and again.
\<close>

theorem sl_search_after_remove_diverges:
  "sl_reachable '''' sl_only_d
   \<and> sl_find sl_only_d ''b'' = Some (False, replicate 16 0, 2 # replicate 15 1, sl_only_d)
   \<and> random_level (\<lambda>n. n = 0) 0 = (2, 2)
   \<and> alloc sl_only_d (create_node ''b'' {''x''} 2)
       = (3, sl_bd [(Some 2, False), (Some 1, False)] [(None, False), (None, False)]
               (Some 1, False))
   \<and> cas (store (sl_bd [(Some 2, False), (Some 1, False)] [(None, False), (None, False)]
                   (Some 1, False)) 3 0 (Some 2, False))
         0 0 (Some 2, False) (Some 3, False)
       = Some (True, sl_bd [(Some 3, False), (Some 1, False)] [(Some 2, False), (None, False)]
                       (Some 1, False))
   \<and> sl_remove (sl_bd [(Some 3, False), (Some 1, False)] [(Some 2, False), (None, False)]
                  (Some 1, False)) ''b''
       = Some (True, sl_bd [(Some 3, False), (Some 1, False)] [(Some 2, True), (None, True)]
                       (Some 1, False))
   \<and> link_levels (sl_bd [(Some 3, False), (Some 1, False)] [(Some 2, True), (None, True)]
                    (Some 1, False)) 3 (replicate 16 0) (2 # replicate 15 1) 1 2
       = Some (sl_bd [(Some 3, False), (Some 3, False)] [(Some 2, True), (Some 1, False)]
                 (Some 1, False))
   \<and> sl_remove (sl_bd [(Some 3, False), (Some 3, False)] [(Some 2, True), (Some 1, False)]
                  (Some 1, False)) ''d''
       = Some (True, sl_bd [(Some 3, False), (Some 3, False)] [(Some 2, True), (Some 1, False)]
                       (Some 1, True))
   \<and> find_levels (sl_bd [(Some 3, False), (Some 3, False)] [(Some 2, True), (Some 1, False)]
                    (Some 1, True)) ''d'' 0 MAX_LEVEL
       = Some (sl_bd [(Some 3, False), (Some 3, False)] [(Some 2, True), (Some 1, False)]
                 (Some 1, True), None)
   \<and> sl_search (sl_bd [(Some 3, False), (Some 3, False)] [(Some 2, True), (Some 1, False)]
                  (Some 1, True)) ''d'' = None"
proof -
  have r: "sl_reachable '''' sl_only_d" using sl_step_insert[OF sl_start sl_only_d_built] .
  have d: "sl_search (sl_bd [(Some 3, False), (Some 3, False)] [(Some 2, True), (Some 1, False)]
                  (Some 1, True)) ''d'' = None"
    unfolding sl_search_def sl_bd_find_diverges by (simp only: option.case)
  show ?thesis
    using r sl_bd_find_b sl_bd_level0 sl_bd_remove_b sl_bd_link_level1 sl_bd_remove_d
      sl_bd_restart d
    by (simp only: simp_thms)
qed

section \<open>\<^verbatim>\<open>search\<close> on arbitrary lists\<close>

text \<open>
  Nothing in this section assumes anything about the list: the heap may be any list of
  nodes, as overlapping operations may have left it.
\<close>

subsection \<open>Induction rules for the loops\<close>

lemma skip_marked_induct [consumes 1, case_names stop fail step]:
  assumes run: "skip_marked t l pred cur succ = Some res"
    and stop: "\<And>t l pred cur succ. \<not> is_marked succ \<Longrightarrow> P t l pred cur succ (t, Some (cur, succ))"
    and fail: "\<And>t l pred cur succ t'. is_marked succ
        \<Longrightarrow> cas t pred l (Some cur, False) (get_unmarked_ref succ) = Some (False, t')
        \<Longrightarrow> P t l pred cur succ (t', None)"
    and step: "\<And>t l pred cur succ t' q cur1 succ1 res. is_marked succ
        \<Longrightarrow> cas t pred l (Some cur, False) (get_unmarked_ref succ) = Some (True, t')
        \<Longrightarrow> load t' pred l = Some q \<Longrightarrow> fst (get_unmarked_ref q) = Some cur1
        \<Longrightarrow> succ_of t' cur1 l = Some succ1
        \<Longrightarrow> skip_marked t' l pred cur1 succ1 = Some res
        \<Longrightarrow> P t' l pred cur1 succ1 res
        \<Longrightarrow> P t l pred cur succ res"
  shows "P t l pred cur succ res"
proof -
  have "skip_marked t l pred cur succ = Some res \<and> P t l pred cur succ res"
  proof (rule skip_marked.raw_induct[where
        P = "\<lambda>t l pred cur succ res. skip_marked t l pred cur succ = Some res
                                      \<and> P t l pred cur succ res", OF _ run], goal_cases)
    case (1 f t l pred cur succ res)
    show ?case
    proof (cases "is_marked succ")
      case False
      then have r: "res = (t, Some (cur, succ))" using 1(2) by simp
      have "skip_marked t l pred cur succ = Some (t, Some (cur, succ))"
        using False by (subst skip_marked.simps) simp
      then show ?thesis using r stop[OF False] by simp
    next
      case True
      then obtain ok t' where c: "cas t pred l (Some cur, False) (get_unmarked_ref succ) = Some (ok, t')"
        using 1(2) by (cases "cas t pred l (Some cur, False) (get_unmarked_ref succ)") auto
      show ?thesis
      proof (cases ok)
        case False
        then have r: "res = (t', None)" using 1(2) True c by simp
        have "skip_marked t l pred cur succ = Some (t', None)"
          using True c False by (subst skip_marked.simps) simp
        then show ?thesis using r fail[OF True] c False by simp
      next
        case ok: True
        obtain q where q: "load t' pred l = Some q"
          using 1(2) True c ok by (cases "load t' pred l") auto
        obtain cur1 where cur1: "fst (get_unmarked_ref q) = Some cur1"
          using 1(2) True c ok q by (cases "fst (get_unmarked_ref q)") auto
        obtain succ1 where succ1: "succ_of t' cur1 l = Some succ1"
          using 1(2) True c ok q cur1 by (cases "succ_of t' cur1 l") auto
        have f: "f t' l pred cur1 succ1 = Some res" using 1(2) True c ok q cur1 succ1 by simp
        note ih = 1(1)[OF f]
        have "skip_marked t l pred cur succ = skip_marked t' l pred cur1 succ1"
          using True c ok q cur1 succ1 by (subst skip_marked.simps) simp
        then show ?thesis
          using ih step[OF True _ q cur1 succ1] c ok by simp
      qed
    qed
  qed
  then show ?thesis by simp
qed

lemma walk_level_induct [consumes 1, case_names restart stop move]:
  assumes run: "walk_level t key l pred cur = Some res"
    and restart: "\<And>t key l pred cur succ t'. succ_of t cur l = Some succ
        \<Longrightarrow> skip_marked t l pred cur succ = Some (t', None)
        \<Longrightarrow> P t key l pred cur (t', None)"
    and stop: "\<And>t key l pred cur succ t' cur1 succ1. succ_of t cur l = Some succ
        \<Longrightarrow> skip_marked t l pred cur succ = Some (t', Some (cur1, succ1))
        \<Longrightarrow> \<not> (cur1 \<noteq> sl_tail t' \<and> key_of t' cur1 < key)
        \<Longrightarrow> P t key l pred cur (t', Some (pred, cur1))"
    and move: "\<And>t key l pred cur succ t' cur1 succ1 cur2 res. succ_of t cur l = Some succ
        \<Longrightarrow> skip_marked t l pred cur succ = Some (t', Some (cur1, succ1))
        \<Longrightarrow> cur1 \<noteq> sl_tail t' \<and> key_of t' cur1 < key
        \<Longrightarrow> fst (get_unmarked_ref succ1) = Some cur2
        \<Longrightarrow> walk_level t' key l cur1 cur2 = Some res
        \<Longrightarrow> P t' key l cur1 cur2 res
        \<Longrightarrow> P t key l pred cur res"
  shows "P t key l pred cur res"
proof -
  have "walk_level t key l pred cur = Some res \<and> P t key l pred cur res"
  proof (rule walk_level.raw_induct[where
        P = "\<lambda>t key l pred cur res. walk_level t key l pred cur = Some res
                                    \<and> P t key l pred cur res", OF _ run], goal_cases)
    case (1 f t key l pred cur res)
    obtain succ where succ: "succ_of t cur l = Some succ"
      using 1(2) by (cases "succ_of t cur l") auto
    obtain t' r where sk: "skip_marked t l pred cur succ = Some (t', r)"
      using 1(2) succ by (cases "skip_marked t l pred cur succ") auto
    show ?case
    proof (cases r)
      case None
      then have r: "res = (t', None)" using 1(2) succ sk by simp
      have "walk_level t key l pred cur = Some (t', None)"
        using succ sk None by (subst walk_level.simps) simp
      then show ?thesis using r restart[OF succ] sk None by simp
    next
      case (Some a)
      obtain cur1 succ1 where a: "a = (cur1, succ1)" by (cases a)
      note sk' = sk[unfolded Some a]
      show ?thesis
      proof (cases "cur1 \<noteq> sl_tail t' \<and> key_of t' cur1 < key")
        case False
        then have r: "res = (t', Some (pred, cur1))" using 1(2) succ sk' by auto
        have "walk_level t key l pred cur = Some (t', Some (pred, cur1))"
          using succ sk' False by (subst walk_level.simps) auto
        then show ?thesis using r stop[OF succ sk' False] by simp
      next
        case True
        obtain cur2 where cur2: "fst (get_unmarked_ref succ1) = Some cur2"
          using 1(2) succ sk' True by (cases "fst (get_unmarked_ref succ1)") auto
        have f: "f t' key l cur1 cur2 = Some res" using 1(2) succ sk' True cur2 by simp
        note ih = 1(1)[OF f]
        have "walk_level t key l pred cur = walk_level t' key l cur1 cur2"
          using succ sk' True cur2 by (subst walk_level.simps) simp
        then show ?thesis using ih move[OF succ sk' True cur2] by simp
      qed
    qed
  qed
  then show ?thesis by simp
qed

lemma sl_find_induct [consumes 1, case_names finish restart]:
  assumes run: "sl_find t key = Some res"
    and finish: "\<And>t key t' preds succs.
        find_levels t key (sl_head t) MAX_LEVEL = Some (t', Some (preds, succs))
        \<Longrightarrow> P t key (succs ! 0 \<noteq> sl_tail t' \<and> key_of t' (succs ! 0) = key, preds, succs, t')"
    and restart: "\<And>t key t' res.
        find_levels t key (sl_head t) MAX_LEVEL = Some (t', None)
        \<Longrightarrow> sl_find t' key = Some res \<Longrightarrow> P t' key res \<Longrightarrow> P t key res"
  shows "P t key res"
proof -
  have "sl_find t key = Some res \<and> P t key res"
  proof (rule sl_find.raw_induct[where
        P = "\<lambda>t key res. sl_find t key = Some res \<and> P t key res", OF _ run], goal_cases)
    case (1 f t key res)
    obtain t' r where fl: "find_levels t key (sl_head t) MAX_LEVEL = Some (t', r)"
      using 1(2) by (cases "find_levels t key (sl_head t) MAX_LEVEL") auto
    show ?case
    proof (cases r)
      case None
      then have f: "f t' key = Some res" using 1(2) fl by simp
      note ih = 1(1)[OF f]
      have "sl_find t key = sl_find t' key" using fl None by (subst sl_find.simps) simp
      then show ?thesis using ih restart[OF fl[unfolded None]] by simp
    next
      case (Some a)
      obtain preds succs where a: "a = (preds, succs)" by (cases a)
      note fl' = fl[unfolded Some a]
      have r: "res = (succs ! 0 \<noteq> sl_tail t' \<and> key_of t' (succs ! 0) = key, preds, succs, t')"
        using 1(2) fl' by simp
      have "sl_find t key = Some res" using fl' r by (subst sl_find.simps) simp
      then show ?thesis using r finish[OF fl'] by simp
    qed
  qed
  then show ?thesis by simp
qed

subsection \<open>What an unlinking step leaves as it is\<close>

lemma unlink_step_fields:
  assumes "unlink_step t p lv c z t1"
  shows "sl_head t1 = sl_head t" "sl_tail t1 = sl_tail t" "key_of t1 = key_of t"
    "values_of t1 = values_of t" "level_of t1 = level_of t" "valid t1 = valid t"
    "nx t1 a l = (if a = p \<and> l = lv then (Some z, False) else nx t a l)"
    "is_marked (nx t1 a l) = is_marked (nx t a l)"
    "p \<noteq> c" "nx t1 c lv = (Some z, True)"
proof -
  have t1: "t1 = store t p lv (Some z, False)" and v: "valid t p lv"
    and np: "nx t p lv = (Some c, False)" and nc: "nx t c lv = (Some z, True)"
    using assms by (simp_all add: unlink_step_def)
  show "sl_head t1 = sl_head t" "sl_tail t1 = sl_tail t" "key_of t1 = key_of t"
    "values_of t1 = values_of t" "level_of t1 = level_of t"
    by (simp_all add: t1 store_fields store_node_fun)
  show "valid t1 = valid t" by (simp add: t1 fun_eq_iff valid_store)
  show n: "nx t1 a l = (if a = p \<and> l = lv then (Some z, False) else nx t a l)"
    using v by (simp add: t1 nx_store)
  show "is_marked (nx t1 a l) = is_marked (nx t a l)"
    using v np by (auto simp: t1 nx_store is_marked_def)
  show pc: "p \<noteq> c" using np nc by auto
  show "nx t1 c lv = (Some z, True)" using v pc nc by (simp add: t1 nx_store)
qed

lemma store_commute:
  assumes "a \<noteq> b \<or> l \<noteq> m"
  shows "store (store s a l x) b m y = store (store s b m y) a l x"
proof (cases "a = b")
  case False
  have "(heap s)[a := u, b := w] = (heap s)[b := w, a := u]" for u w
    using False by (simp add: list_update_swap)
  then show ?thesis using False by (simp add: store_def nth_update_any)
next
  case True
  then have lm: "l \<noteq> m" using assms by simp
  show ?thesis
  proof (cases "a < length (heap s)")
    case False
    then show ?thesis using True by (simp add: store_def list_update_beyond not_less)
  next
    case less: True
    have "(sl_next (heap s ! b))[l := x, m := y] = (sl_next (heap s ! b))[m := y, l := x]"
      using lm by (simp add: list_update_swap)
    then show ?thesis using True less by (simp add: store_def)
  qed
qed

subsection \<open>The loops in terms of unlinking steps\<close>

lemma cas_True:
  "cas t a l e d = Some (True, t') \<longleftrightarrow> valid t a l \<and> nx t a l = e \<and> t' = store t a l d"
  by (auto simp: cas_def load_def)

lemma cas_False:
  "cas t a l e d = Some (False, t') \<longleftrightarrow> valid t a l \<and> nx t a l \<noteq> e \<and> t' = t"
  by (auto simp: cas_def load_def)

lemma load_Some: "load t a l = Some q \<longleftrightarrow> valid t a l \<and> q = nx t a l"
  by (auto simp: load_def)

lemma succ_of_Some:
  "succ_of t cur l = Some succ \<longleftrightarrow>
     (cur = sl_tail t \<and> succ = (Some (sl_tail t), False))
     \<or> (cur \<noteq> sl_tail t \<and> valid t cur l \<and> succ = nx t cur l)"
  by (auto simp: succ_of_def load_def)

lemma skip_unfold:
  assumes "is_marked succ"
    and "cas t pred l (Some cur, False) (get_unmarked_ref succ) = Some (True, t')"
  shows "skip_marked t l pred cur succ = skip_from t' l pred"
  using assms by (subst skip_marked.simps) (simp add: skip_from_def)

lemma skip_from_conv:
  assumes "valid t pred l" and "fst (nx t pred l) = Some cur" and "succ_of t cur l = Some succ"
  shows "skip_from t l pred = skip_marked t l pred cur succ"
  using assms by (simp add: skip_from_def load_def get_unmarked_ref_def)

lemma skip_step_unlink:
  assumes m: "is_marked succ"
    and c: "cas t pred l (Some cur, False) (get_unmarked_ref succ) = Some (True, t')"
    and s: "succ_of t cur l = Some succ"
    and q: "load t' pred l = Some q" "fst (get_unmarked_ref q) = Some cur1"
  shows "unlink_step t pred l cur cur1 t'"
proof -
  have c': "valid t pred l" "nx t pred l = (Some cur, False)"
    "t' = store t pred l (get_unmarked_ref succ)"
    using c by (simp_all add: cas_True)
  have nt: "cur \<noteq> sl_tail t" "valid t cur l" "succ = nx t cur l"
    using s m by (auto simp: succ_of_Some is_marked_def)
  have "q = get_unmarked_ref succ" using q(1) c'(1) by (simp add: load_Some c'(3) nx_store)
  then have "fst succ = Some cur1" using q(2) by (simp add: get_unmarked_ref_def)
  then have succ: "succ = (Some cur1, True)" using m by (simp add: is_marked_def prod_eq_iff)
  have nc: "nx t cur l = (Some cur1, True)" using succ nt(3) by simp
  have t': "t' = store t pred l (Some cur1, False)"
    using c'(3) by (simp add: succ get_unmarked_ref_def)
  show ?thesis
    unfolding unlink_step_def using c'(1,2) nt(1,2) nc t' by simp
qed

lemma skip_marked_post:
  assumes "skip_marked t l pred cur succ = Some res" and "succ_of t cur l = Some succ"
  shows "rtranclp unlinked t (fst res)
         \<and> (\<forall>x. snd res = Some x
               \<longrightarrow> succ_of (fst res) (fst x) l = Some (snd x) \<and> \<not> is_marked (snd x))"
  using assms
proof (induction rule: skip_marked_induct)
  case (stop t l pred cur succ)
  then show ?case by simp
next
  case (fail t l pred cur succ t')
  then have "t' = t" by (simp add: cas_False)
  then show ?case by simp
next
  case (step t l pred cur succ t' q cur1 succ1 res)
  have "unlink_step t pred l cur cur1 t'"
    using skip_step_unlink[OF step(1,2) step.prems step(3,4)] .
  then have "unlinked t t'" unfolding unlinked_def by blast
  then show ?case using step.IH[OF step(5)] by (auto intro: converse_rtranclp_into_rtranclp)
qed

lemma skip_from_post:
  assumes "skip_from t l pred = Some (t', r)"
  shows "rtranclp unlinked t t'"
    and "r = Some (cur', succ') \<Longrightarrow> succ_of t' cur' l = Some succ' \<and> \<not> is_marked succ'"
proof -
  obtain q cur succ where c: "load t pred l = Some q" "fst (get_unmarked_ref q) = Some cur"
    "succ_of t cur l = Some succ" "skip_marked t l pred cur succ = Some (t', r)"
    using assms by (auto simp: skip_from_def split: option.splits)
  note p = skip_marked_post[OF c(4,3)]
  show "rtranclp unlinked t t'" using p by simp
  show "r = Some (cur', succ') \<Longrightarrow> succ_of t' cur' l = Some succ' \<and> \<not> is_marked succ'"
    using p by simp
qed

lemma skip_from_unlinked:
  assumes "unlink_step t p lv c z t1"
  shows "skip_from t lv p = skip_from t1 lv p"
proof -
  have u: "valid t p lv" "nx t p lv = (Some c, False)" "c \<noteq> sl_tail t" "valid t c lv"
    "nx t c lv = (Some z, True)" "t1 = store t p lv (Some z, False)"
    using assms by (simp_all add: unlink_step_def)
  have s: "succ_of t c lv = Some (Some z, True)" using u by (simp add: succ_of_Some)
  have "skip_from t lv p = skip_marked t lv p c (Some z, True)"
    using skip_from_conv[OF u(1) _ s] u(2) by simp
  also have "\<dots> = skip_from t1 lv p"
    using u by (intro skip_unfold) (simp_all add: is_marked_def cas_True get_unmarked_ref_def)
  finally show ?thesis .
qed

lemma walk_from_unfold:
  "walk_from t key l pred =
     (case skip_from t l pred of
        None \<Rightarrow> None
      | Some (t', r) \<Rightarrow>
          (case r of
             None \<Rightarrow> Some (t', None)
           | Some (cur1, succ1) \<Rightarrow>
               if cur1 \<noteq> sl_tail t' \<and> key_of t' cur1 < key then walk_from t' key l cur1
               else Some (t', Some (pred, cur1))))"
proof (cases "skip_from t l pred")
  case None
  then show ?thesis
    by (auto simp: walk_from_def skip_from_def walk_level.simps[of t key l pred]
        split: option.splits)
next
  case (Some a)
  obtain t' r where a: "a = (t', r)" by (cases a)
  obtain q cur succ where c: "load t pred l = Some q" "fst (get_unmarked_ref q) = Some cur"
    "succ_of t cur l = Some succ" "skip_marked t l pred cur succ = Some (t', r)"
    using Some a by (auto simp: skip_from_def split: option.splits)
  have w: "walk_from t key l pred = walk_level t key l pred cur"
    using c by (simp add: walk_from_def)
  show ?thesis
  proof (cases r)
    case None
    then show ?thesis
      using Some a c w by (simp add: walk_level.simps[of t key l pred cur])
  next
    case r: (Some b)
    obtain cur1 succ1 where b: "b = (cur1, succ1)" by (cases b)
    have post: "succ_of t' cur1 l = Some succ1"
      using skip_from_post(2)[OF Some[unfolded a], of cur1 succ1] r b by simp
    show ?thesis
    proof (cases "cur1 \<noteq> sl_tail t' \<and> key_of t' cur1 < key")
      case False
      then show ?thesis
        using Some a c w r b by (auto simp: walk_level.simps[of t key l pred cur])
    next
      case True
      then have "load t' cur1 l = Some succ1" using post by (auto simp: succ_of_Some load_Some)
      then have "walk_from t' key l cur1
                 = (case fst (get_unmarked_ref succ1) of None \<Rightarrow> None
                    | Some cur2 \<Rightarrow> walk_level t' key l cur1 cur2)"
        by (simp add: walk_from_def)
      then show ?thesis
        using Some a c w r b True by (simp add: walk_level.simps[of t key l pred cur])
    qed
  qed
qed

subsection \<open>A run on a list and on the list one unlinking step later\<close>

lemma unlink_step_store:
  assumes d: "unlink_step t p lv c z t1" and ne: "pred \<noteq> p \<or> l \<noteq> lv"
    and v: "valid t pred l" and n: "nx t pred l = (Some cur, False)"
  shows "unlink_step (store t pred l x) p lv c z (store t1 pred l x)"
proof -
  have u: "valid t p lv" "nx t p lv = (Some c, False)" "c \<noteq> sl_tail t" "valid t c lv"
    "nx t c lv = (Some z, True)" "t1 = store t p lv (Some z, False)"
    using d by (simp_all add: unlink_step_def)
  have ne2: "pred \<noteq> c \<or> l \<noteq> lv" using n u(5) by auto
  have "store t1 pred l x = store (store t pred l x) p lv (Some z, False)"
    unfolding u(6) using ne by (intro store_commute) auto
  then show ?thesis
    unfolding unlink_step_def using u ne ne2 v
    by (auto simp: valid_store nx_store store_fields)
qed

lemma skip_other_slot:
  assumes d: "unlink_step t p lv c z t1" and ne: "pred \<noteq> p \<or> l \<noteq> lv"
    and v: "valid t pred l" and c: "fst (nx t pred l) = Some cur"
    and s: "succ_of t cur l = Some succ"
  shows "\<exists>succ1. skip_from t1 l pred = skip_marked t1 l pred cur succ1
           \<and> succ_of t1 cur l = Some succ1
           \<and> is_marked succ1 = is_marked succ \<and> (is_marked succ \<longrightarrow> succ1 = succ)"
proof -
  note f = unlink_step_fields[OF d]
  have v1: "valid t1 pred l" using v by (simp add: f)
  have c1: "fst (nx t1 pred l) = Some cur" using c ne by (auto simp: f)
  define succ1 where
    "succ1 = (if cur = sl_tail t1 then (Some (sl_tail t1), False) else nx t1 cur l)"
  have "cur \<noteq> sl_tail t \<longrightarrow> valid t cur l" using s by (auto simp: succ_of_Some)
  then have s1: "succ_of t1 cur l = Some succ1"
    by (simp add: succ_of_def load_def succ1_def f(2,6))
  have m: "is_marked succ1 = is_marked succ"
    using s s1 f(8)[of cur l] by (auto simp: succ_of_Some f(2,6))
  have e: "is_marked succ \<longrightarrow> succ1 = succ"
  proof
    assume "is_marked succ"
    then have "cur \<noteq> sl_tail t" "succ = nx t cur l" "\<not> (cur = p \<and> l = lv)"
      using s d by (auto simp: succ_of_Some is_marked_def unlink_step_def)
    then show "succ1 = succ" using s1 by (auto simp: succ_of_Some f)
  qed
  show ?thesis using skip_from_conv[OF v1 c1 s1] s1 m e by blast
qed

lemma skip_sim_fwd_aux:
  assumes "skip_marked t l pred cur succ = Some res" and "pred \<noteq> p \<or> l \<noteq> lv"
  shows "\<forall>t1. unlink_step t p lv c z t1 \<longrightarrow> valid t pred l \<longrightarrow> fst (nx t pred l) = Some cur
           \<longrightarrow> succ_of t cur l = Some succ
           \<longrightarrow> (\<exists>t1' r1. skip_from t1 l pred = Some (t1', r1)
                  \<and> map_option fst r1 = map_option fst (snd res)
                  \<and> sl_near p lv c z (fst res) t1')"
  using assms
proof (induction rule: skip_marked_induct)
  case (stop t l pred cur succ)
  show ?case
  proof (intro allI impI)
    fix t1
    assume d: "unlink_step t p lv c z t1" and v: "valid t pred l"
      and c: "fst (nx t pred l) = Some cur" and s: "succ_of t cur l = Some succ"
    obtain succ1 where o: "skip_from t1 l pred = skip_marked t1 l pred cur succ1"
      "is_marked succ1 = is_marked succ"
      using skip_other_slot[OF d stop.prems v c s] by blast
    have "skip_marked t1 l pred cur succ1 = Some (t1, Some (cur, succ1))"
      using o(2) stop.hyps by (subst skip_marked.simps) simp
    then show "\<exists>t1' r1. skip_from t1 l pred = Some (t1', r1)
                  \<and> map_option fst r1 = map_option fst (snd (t, Some (cur, succ)))
                  \<and> sl_near p lv c z (fst (t, Some (cur, succ))) t1'"
      using o(1) d by (simp add: sl_near_def)
  qed
next
  case (fail t l pred cur succ t')
  show ?case
  proof (intro allI impI)
    fix t1
    assume d: "unlink_step t p lv c z t1" and v: "valid t pred l"
      and c: "fst (nx t pred l) = Some cur" and s: "succ_of t cur l = Some succ"
    note f = unlink_step_fields[OF d]
    obtain succ1 where o: "skip_from t1 l pred = skip_marked t1 l pred cur succ1"
      "is_marked succ \<longrightarrow> succ1 = succ"
      using skip_other_slot[OF d fail.prems v c s] by blast
    have s1: "succ1 = succ" using o(2) fail.hyps(1) by simp
    have cf: "nx t pred l \<noteq> (Some cur, False)" "t' = t" using fail.hyps(2) by (simp_all add: cas_False)
    have "cas t1 pred l (Some cur, False) (get_unmarked_ref succ) = Some (False, t1)"
      using cf(1) v fail.prems by (auto simp: cas_False f)
    then have "skip_marked t1 l pred cur succ = Some (t1, None)"
      using fail.hyps(1) by (subst skip_marked.simps) simp
    then show "\<exists>t1' r1. skip_from t1 l pred = Some (t1', r1)
                  \<and> map_option fst r1 = map_option fst (snd (t', None))
                  \<and> sl_near p lv c z (fst (t', None)) t1'"
      using o(1) s1 d cf(2) by (simp add: sl_near_def)
  qed
next
  case (step t l pred cur succ t' q cur1 succ1 res)
  show ?case
  proof (intro allI impI)
    fix t1
    assume d: "unlink_step t p lv c z t1" and v: "valid t pred l"
      and c: "fst (nx t pred l) = Some cur" and s: "succ_of t cur l = Some succ"
    note f = unlink_step_fields[OF d]
    obtain succ' where o: "skip_from t1 l pred = skip_marked t1 l pred cur succ'"
      "is_marked succ \<longrightarrow> succ' = succ"
      using skip_other_slot[OF d step.prems v c s] by blast
    have s1: "succ' = succ" using o(2) step.hyps(1) by simp
    have ct: "nx t pred l = (Some cur, False)" "t' = store t pred l (get_unmarked_ref succ)"
      using step.hyps(2) by (simp_all add: cas_True)
    define t1' where "t1' = store t1 pred l (get_unmarked_ref succ)"
    have cas1: "cas t1 pred l (Some cur, False) (get_unmarked_ref succ) = Some (True, t1')"
      using ct(1) v step.prems by (auto simp: cas_True f t1'_def)
    have d': "unlink_step t' p lv c z t1'"
      unfolding ct(2) t1'_def using unlink_step_store[OF d step.prems v ct(1)] .
    have conv: "valid t' pred l" "fst (nx t' pred l) = Some cur1"
      using step.hyps(3,4) by (simp_all add: load_Some get_unmarked_ref_def)
    have "\<exists>t1'' r1. skip_from t1' l pred = Some (t1'', r1)
                  \<and> map_option fst r1 = map_option fst (snd res)
                  \<and> sl_near p lv c z (fst res) t1''"
      using step.IH[OF step.prems] d' conv step.hyps(5) by blast
    moreover have "skip_from t1 l pred = skip_from t1' l pred"
      using o(1) s1 skip_unfold[OF step.hyps(1) cas1] by simp
    ultimately show "\<exists>t1' r1. skip_from t1 l pred = Some (t1', r1)
                  \<and> map_option fst r1 = map_option fst (snd res)
                  \<and> sl_near p lv c z (fst res) t1'"
      by simp
  qed
qed

lemma skip_sim_fwd:
  assumes d: "unlink_step t p lv c z t1" and run: "skip_from t l pred = Some (t', r)"
  shows "\<exists>t1' r1. skip_from t1 l pred = Some (t1', r1)
           \<and> map_option fst r1 = map_option fst r \<and> sl_near p lv c z t' t1'"
proof (cases "pred = p \<and> l = lv")
  case True
  then have "skip_from t1 l pred = Some (t', r)" using skip_from_unlinked[OF d] run by simp
  then show ?thesis by (simp add: sl_near_def)
next
  case False
  obtain q cur succ where c: "load t pred l = Some q" "fst (get_unmarked_ref q) = Some cur"
    "succ_of t cur l = Some succ" "skip_marked t l pred cur succ = Some (t', r)"
    using run by (auto simp: skip_from_def split: option.splits)
  have v: "valid t pred l" "fst (nx t pred l) = Some cur"
    using c(1,2) by (simp_all add: load_Some get_unmarked_ref_def)
  show ?thesis
    using skip_sim_fwd_aux[OF c(4), of p lv c z] False d v c(3) by auto
qed

lemma skip_other_slot_back:
  assumes d: "unlink_step t p lv c z t1" and ne: "pred \<noteq> p \<or> l \<noteq> lv"
    and v: "valid t1 pred l" and c: "fst (nx t1 pred l) = Some cur"
    and s: "succ_of t1 cur l = Some succ1"
  shows "\<exists>succ. skip_from t l pred = skip_marked t l pred cur succ
           \<and> succ_of t cur l = Some succ
           \<and> is_marked succ = is_marked succ1 \<and> (is_marked succ1 \<longrightarrow> succ = succ1)"
proof -
  note f = unlink_step_fields[OF d]
  have v0: "valid t pred l" using v by (simp add: f)
  have c0: "fst (nx t pred l) = Some cur" using c ne by (auto simp: f)
  define succ where
    "succ = (if cur = sl_tail t then (Some (sl_tail t), False) else nx t cur l)"
  have "cur \<noteq> sl_tail t1 \<longrightarrow> valid t1 cur l" using s by (auto simp: succ_of_Some)
  then have s0: "succ_of t cur l = Some succ"
    by (simp add: succ_of_def load_def succ_def f(2,6))
  have m: "is_marked succ = is_marked succ1"
    using s s0 f(8)[of cur l] by (auto simp: succ_of_Some f(2,6))
  have e: "is_marked succ1 \<longrightarrow> succ = succ1"
  proof
    assume "is_marked succ1"
    then have "cur \<noteq> sl_tail t1" "succ1 = nx t1 cur l" "\<not> (cur = p \<and> l = lv)"
      using s f(7)[of cur l] by (auto simp: succ_of_Some is_marked_def)
    then show "succ = succ1" using s0 by (auto simp: succ_of_Some f)
  qed
  show ?thesis using skip_from_conv[OF v0 c0 s0] s0 m e by blast
qed

lemma skip_sim_bwd_aux:
  assumes "skip_marked t1 l pred cur succ1 = Some res1" and "pred \<noteq> p \<or> l \<noteq> lv"
  shows "\<forall>t. unlink_step t p lv c z t1 \<longrightarrow> valid t1 pred l \<longrightarrow> fst (nx t1 pred l) = Some cur
           \<longrightarrow> succ_of t1 cur l = Some succ1
           \<longrightarrow> (\<exists>t' r. skip_from t l pred = Some (t', r)
                  \<and> map_option fst r = map_option fst (snd res1)
                  \<and> sl_near p lv c z t' (fst res1))"
  using assms
proof (induction rule: skip_marked_induct)
  case (stop t1 l pred cur succ1)
  show ?case
  proof (intro allI impI)
    fix t
    assume d: "unlink_step t p lv c z t1" and v: "valid t1 pred l"
      and c: "fst (nx t1 pred l) = Some cur" and s: "succ_of t1 cur l = Some succ1"
    obtain succ where o: "skip_from t l pred = skip_marked t l pred cur succ"
      "is_marked succ = is_marked succ1"
      using skip_other_slot_back[OF d stop.prems v c s] by blast
    have "skip_marked t l pred cur succ = Some (t, Some (cur, succ))"
      using o(2) stop.hyps by (subst skip_marked.simps) simp
    then show "\<exists>t' r. skip_from t l pred = Some (t', r)
                  \<and> map_option fst r = map_option fst (snd (t1, Some (cur, succ1)))
                  \<and> sl_near p lv c z t' (fst (t1, Some (cur, succ1)))"
      using o(1) d by (simp add: sl_near_def)
  qed
next
  case (fail t1 l pred cur succ1 t1')
  show ?case
  proof (intro allI impI)
    fix t
    assume d: "unlink_step t p lv c z t1" and v: "valid t1 pred l"
      and c: "fst (nx t1 pred l) = Some cur" and s: "succ_of t1 cur l = Some succ1"
    note f = unlink_step_fields[OF d]
    obtain succ where o: "skip_from t l pred = skip_marked t l pred cur succ"
      "is_marked succ1 \<longrightarrow> succ = succ1"
      using skip_other_slot_back[OF d fail.prems v c s] by blast
    have s1: "succ = succ1" using o(2) fail.hyps(1) by simp
    have cf: "nx t1 pred l \<noteq> (Some cur, False)" "t1' = t1"
      using fail.hyps(2) by (simp_all add: cas_False)
    have "cas t pred l (Some cur, False) (get_unmarked_ref succ1) = Some (False, t)"
      using cf(1) v fail.prems f(7)[of pred l] by (auto simp: cas_False f(6))
    then have "skip_marked t l pred cur succ1 = Some (t, None)"
      using fail.hyps(1) by (subst skip_marked.simps) simp
    then show "\<exists>t' r. skip_from t l pred = Some (t', r)
                  \<and> map_option fst r = map_option fst (snd (t1', None))
                  \<and> sl_near p lv c z t' (fst (t1', None))"
      using o(1) s1 d cf(2) by (simp add: sl_near_def)
  qed
next
  case (step t1 l pred cur succ1 t1' q cur1 succ2 res1)
  show ?case
  proof (intro allI impI)
    fix t
    assume d: "unlink_step t p lv c z t1" and v: "valid t1 pred l"
      and c: "fst (nx t1 pred l) = Some cur" and s: "succ_of t1 cur l = Some succ1"
    note f = unlink_step_fields[OF d]
    obtain succ where o: "skip_from t l pred = skip_marked t l pred cur succ"
      "is_marked succ1 \<longrightarrow> succ = succ1"
      using skip_other_slot_back[OF d step.prems v c s] by blast
    have s1: "succ = succ1" using o(2) step.hyps(1) by simp
    have ct: "nx t1 pred l = (Some cur, False)" "t1' = store t1 pred l (get_unmarked_ref succ1)"
      using step.hyps(2) by (simp_all add: cas_True)
    have v0: "valid t pred l" using v by (simp add: f)
    have n0: "nx t pred l = (Some cur, False)"
      using ct(1) step.prems f(7)[of pred l] by auto
    define t' where "t' = store t pred l (get_unmarked_ref succ1)"
    have cas0: "cas t pred l (Some cur, False) (get_unmarked_ref succ1) = Some (True, t')"
      using n0 v0 by (simp add: cas_True t'_def)
    have d': "unlink_step t' p lv c z t1'"
      unfolding ct(2) t'_def using unlink_step_store[OF d step.prems v0 n0] .
    have conv: "valid t1' pred l" "fst (nx t1' pred l) = Some cur1"
      using step.hyps(3,4) by (simp_all add: load_Some get_unmarked_ref_def)
    have "\<exists>t'' r. skip_from t' l pred = Some (t'', r)
                  \<and> map_option fst r = map_option fst (snd res1)
                  \<and> sl_near p lv c z t'' (fst res1)"
      using step.IH[OF step.prems] d' conv step.hyps(5) by blast
    moreover have "skip_from t l pred = skip_from t' l pred"
      using o(1) s1 skip_unfold[OF step.hyps(1) cas0] by simp
    ultimately show "\<exists>t' r. skip_from t l pred = Some (t', r)
                  \<and> map_option fst r = map_option fst (snd res1)
                  \<and> sl_near p lv c z t' (fst res1)"
      by simp
  qed
qed

lemma skip_sim_bwd:
  assumes d: "unlink_step t p lv c z t1" and run: "skip_from t1 l pred = Some (t1', r1)"
  shows "\<exists>t' r. skip_from t l pred = Some (t', r)
           \<and> map_option fst r = map_option fst r1 \<and> sl_near p lv c z t' t1'"
proof (cases "pred = p \<and> l = lv")
  case True
  then have "skip_from t l pred = Some (t1', r1)" using skip_from_unlinked[OF d] run by simp
  then show ?thesis by (simp add: sl_near_def)
next
  case False
  obtain q cur succ where c: "load t1 pred l = Some q" "fst (get_unmarked_ref q) = Some cur"
    "succ_of t1 cur l = Some succ" "skip_marked t1 l pred cur succ = Some (t1', r1)"
    using run by (auto simp: skip_from_def split: option.splits)
  have v: "valid t1 pred l" "fst (nx t1 pred l) = Some cur"
    using c(1,2) by (simp_all add: load_Some get_unmarked_ref_def)
  show ?thesis
    using skip_sim_bwd_aux[OF c(4), of p lv c z] False d v c(3) by auto
qed

lemma walk_from_induct [consumes 1, case_names restart stop move]:
  assumes run: "walk_from t key l pred = Some res"
    and restart: "\<And>t key l pred t'. skip_from t l pred = Some (t', None)
        \<Longrightarrow> P t key l pred (t', None)"
    and stop: "\<And>t key l pred t' cur1 succ1. skip_from t l pred = Some (t', Some (cur1, succ1))
        \<Longrightarrow> \<not> (cur1 \<noteq> sl_tail t' \<and> key_of t' cur1 < key)
        \<Longrightarrow> P t key l pred (t', Some (pred, cur1))"
    and move: "\<And>t key l pred t' cur1 succ1 res.
        skip_from t l pred = Some (t', Some (cur1, succ1))
        \<Longrightarrow> cur1 \<noteq> sl_tail t' \<and> key_of t' cur1 < key
        \<Longrightarrow> walk_from t' key l cur1 = Some res
        \<Longrightarrow> P t' key l cur1 res
        \<Longrightarrow> P t key l pred res"
  shows "P t key l pred res"
proof -
  obtain q cur where c: "load t pred l = Some q" "fst (get_unmarked_ref q) = Some cur"
    "walk_level t key l pred cur = Some res"
    using run by (auto simp: walk_from_def split: option.splits)
  have v: "valid t pred l" "fst (nx t pred l) = Some cur"
    using c(1,2) by (simp_all add: load_Some get_unmarked_ref_def)
  have "valid t pred l \<longrightarrow> fst (nx t pred l) = Some cur \<longrightarrow> P t key l pred res"
    using c(3)
  proof (induction rule: walk_level_induct)
    case (restart t key l pred cur succ t')
    show ?case
    proof (intro impI)
      assume "valid t pred l" "fst (nx t pred l) = Some cur"
      then have "skip_from t l pred = Some (t', None)"
        using skip_from_conv[OF _ _ restart(1)] restart(2) by simp
      then show "P t key l pred (t', None)" by (rule assms(2))
    qed
  next
    case (stop t key l pred cur succ t' cur1 succ1)
    show ?case
    proof (intro impI)
      assume "valid t pred l" "fst (nx t pred l) = Some cur"
      then have "skip_from t l pred = Some (t', Some (cur1, succ1))"
        using skip_from_conv[OF _ _ stop(1)] stop(2) by simp
      then show "P t key l pred (t', Some (pred, cur1))" using stop(3) by (rule assms(3))
    qed
  next
    case (move t key l pred cur succ t' cur1 succ1 cur2 res)
    show ?case
    proof (intro impI)
      assume "valid t pred l" "fst (nx t pred l) = Some cur"
      then have sk: "skip_from t l pred = Some (t', Some (cur1, succ1))"
        using skip_from_conv[OF _ _ move(1)] move(2) by simp
      have "succ_of t' cur1 l = Some succ1"
        using skip_from_post(2)[OF sk, of cur1 succ1] by simp
      then have conv: "valid t' cur1 l" "succ1 = nx t' cur1 l"
        using move(3) by (auto simp: succ_of_Some)
      then have c2: "fst (nx t' cur1 l) = Some cur2"
        using move(4) by (simp add: get_unmarked_ref_def)
      have "walk_from t' key l cur1 = Some res"
        using conv c2 move(5) by (simp add: walk_from_def load_def get_unmarked_ref_def)
      moreover have "P t' key l cur1 res" using move.IH conv(1) c2 by simp
      ultimately show "P t key l pred res" using assms(4)[OF sk move(3)] by simp
    qed
  qed
  then show ?thesis using v by simp
qed

lemma sl_near_fields:
  assumes "sl_near p lv c z t t1"
  shows "sl_head t1 = sl_head t" "sl_tail t1 = sl_tail t" "key_of t1 = key_of t"
    "values_of t1 = values_of t" "valid t1 = valid t"
    "is_marked (nx t1 a l) = is_marked (nx t a l)"
  using assms unlink_step_fields[of t p lv c z t1] by (auto simp: sl_near_def)

lemma walk_sim_fwd:
  assumes d: "unlink_step t p lv c z t1" and run: "walk_from t key l pred = Some (t', r)"
  shows "\<exists>t1'. walk_from t1 key l pred = Some (t1', r) \<and> sl_near p lv c z t' t1'"
proof -
  have "\<forall>t1. unlink_step t p lv c z t1
          \<longrightarrow> (\<exists>t1'. walk_from t1 key l pred = Some (t1', snd res)
                       \<and> sl_near p lv c z (fst res) t1')"
    if "walk_from t key l pred = Some res" for res
    using that
  proof (induction rule: walk_from_induct)
    case (restart t key l pred t')
    show ?case
    proof (intro allI impI)
      fix t1 assume d: "unlink_step t p lv c z t1"
      obtain t1' r1 where s: "skip_from t1 l pred = Some (t1', r1)"
        "map_option fst r1 = map_option fst (None :: (nat \<times> ptr) option)"
        "sl_near p lv c z t' t1'"
        using skip_sim_fwd[OF d restart] by blast
      then have "r1 = None" by simp
      then have "walk_from t1 key l pred = Some (t1', None)"
        using s(1) by (subst walk_from_unfold) simp
      then show "\<exists>t1'. walk_from t1 key l pred = Some (t1', snd (t', None))
                       \<and> sl_near p lv c z (fst (t', None)) t1'"
        using s(3) by simp
    qed
  next
    case (stop t key l pred t' cur1 succ1)
    show ?case
    proof (intro allI impI)
      fix t1 assume d: "unlink_step t p lv c z t1"
      obtain t1' r1 where s: "skip_from t1 l pred = Some (t1', r1)"
        "map_option fst r1 = map_option fst (Some (cur1, succ1))"
        "sl_near p lv c z t' t1'"
        using skip_sim_fwd[OF d stop(1)] by blast
      then obtain succ1' where r1: "r1 = Some (cur1, succ1')" by (cases r1) auto
      note f = sl_near_fields[OF s(3)]
      have "\<not> (cur1 \<noteq> sl_tail t1' \<and> key_of t1' cur1 < key)"
        using stop(2) by (simp add: f(2,3))
      then have "walk_from t1 key l pred = Some (t1', Some (pred, cur1))"
        using s(1) r1 by (subst walk_from_unfold) (simp del: de_Morgan_conj)
      then show "\<exists>t1'. walk_from t1 key l pred = Some (t1', snd (t', Some (pred, cur1)))
                       \<and> sl_near p lv c z (fst (t', Some (pred, cur1))) t1'"
        using s(3) by simp
    qed
  next
    case (move t key l pred t' cur1 succ1 res)
    show ?case
    proof (intro allI impI)
      fix t1 assume d: "unlink_step t p lv c z t1"
      obtain t1' r1 where s: "skip_from t1 l pred = Some (t1', r1)"
        "map_option fst r1 = map_option fst (Some (cur1, succ1))"
        "sl_near p lv c z t' t1'"
        using skip_sim_fwd[OF d move(1)] by blast
      then obtain succ1' where r1: "r1 = Some (cur1, succ1')" by (cases r1) auto
      note f = sl_near_fields[OF s(3)]
      have "cur1 \<noteq> sl_tail t1' \<and> key_of t1' cur1 < key"
        using move(2) by (simp add: f(2,3))
      then have w: "walk_from t1 key l pred = walk_from t1' key l cur1"
        using s(1) r1 by (subst walk_from_unfold) simp
      show "\<exists>t1'. walk_from t1 key l pred = Some (t1', snd res)
                       \<and> sl_near p lv c z (fst res) t1'"
      proof (cases "t1' = t'")
        case True
        then have "walk_from t1 key l pred = Some (fst res, snd res)" using w move(3) by simp
        moreover have "sl_near p lv c z (fst res) (fst res)" by (simp add: sl_near_def)
        ultimately show ?thesis by blast
      next
        case False
        then have "unlink_step t' p lv c z t1'" using s(3) by (simp add: sl_near_def)
        then show ?thesis using move.IH w by simp
      qed
    qed
  qed
  then show ?thesis using run d by fastforce
qed

lemma walk_sim_bwd:
  assumes d: "unlink_step t p lv c z t1" and run: "walk_from t1 key l pred = Some (t1', r)"
  shows "\<exists>t'. walk_from t key l pred = Some (t', r) \<and> sl_near p lv c z t' t1'"
proof -
  have "\<forall>t. unlink_step t p lv c z t1
          \<longrightarrow> (\<exists>t'. walk_from t key l pred = Some (t', snd res)
                       \<and> sl_near p lv c z t' (fst res))"
    if "walk_from t1 key l pred = Some res" for res
    using that
  proof (induction rule: walk_from_induct)
    case (restart t1 key l pred t1')
    show ?case
    proof (intro allI impI)
      fix t assume d: "unlink_step t p lv c z t1"
      obtain t' r where s: "skip_from t l pred = Some (t', r)"
        "map_option fst r = map_option fst (None :: (nat \<times> ptr) option)"
        "sl_near p lv c z t' t1'"
        using skip_sim_bwd[OF d restart] by blast
      then have "r = None" by simp
      then have "walk_from t key l pred = Some (t', None)"
        using s(1) by (subst walk_from_unfold) simp
      then show "\<exists>t'. walk_from t key l pred = Some (t', snd (t1', None))
                       \<and> sl_near p lv c z t' (fst (t1', None))"
        using s(3) by simp
    qed
  next
    case (stop t1 key l pred t1' cur1 succ1)
    show ?case
    proof (intro allI impI)
      fix t assume d: "unlink_step t p lv c z t1"
      obtain t' r where s: "skip_from t l pred = Some (t', r)"
        "map_option fst r = map_option fst (Some (cur1, succ1))"
        "sl_near p lv c z t' t1'"
        using skip_sim_bwd[OF d stop(1)] by blast
      then obtain succ1' where r: "r = Some (cur1, succ1')" by (cases r) auto
      note f = sl_near_fields[OF s(3)]
      have "\<not> (cur1 \<noteq> sl_tail t' \<and> key_of t' cur1 < key)"
        using stop(2) by (simp add: f(2,3))
      then have "walk_from t key l pred = Some (t', Some (pred, cur1))"
        using s(1) r by (subst walk_from_unfold) (simp del: de_Morgan_conj)
      then show "\<exists>t'. walk_from t key l pred = Some (t', snd (t1', Some (pred, cur1)))
                       \<and> sl_near p lv c z t' (fst (t1', Some (pred, cur1)))"
        using s(3) by simp
    qed
  next
    case (move t1 key l pred t1' cur1 succ1 res)
    show ?case
    proof (intro allI impI)
      fix t assume d: "unlink_step t p lv c z t1"
      obtain t' r where s: "skip_from t l pred = Some (t', r)"
        "map_option fst r = map_option fst (Some (cur1, succ1))"
        "sl_near p lv c z t' t1'"
        using skip_sim_bwd[OF d move(1)] by blast
      then obtain succ1' where r: "r = Some (cur1, succ1')" by (cases r) auto
      note f = sl_near_fields[OF s(3)]
      have "cur1 \<noteq> sl_tail t' \<and> key_of t' cur1 < key"
        using move(2) by (simp add: f(2,3))
      then have w: "walk_from t key l pred = walk_from t' key l cur1"
        using s(1) r by (subst walk_from_unfold) simp
      show "\<exists>t'. walk_from t key l pred = Some (t', snd res)
                       \<and> sl_near p lv c z t' (fst res)"
      proof (cases "t1' = t'")
        case True
        then have "walk_from t key l pred = Some (fst res, snd res)" using w move(3) by simp
        moreover have "sl_near p lv c z (fst res) (fst res)" by (simp add: sl_near_def)
        ultimately show ?thesis by blast
      next
        case False
        then have "unlink_step t' p lv c z t1'" using s(3) by (simp add: sl_near_def)
        then show ?thesis using move.IH w by simp
      qed
    qed
  qed
  then show ?thesis using run d by fastforce
qed

subsection \<open>One unlinking more or less does not change what \<^verbatim>\<open>find\<close> returns\<close>

lemma sl_near_refl: "sl_near p lv c z t t"
  by (simp add: sl_near_def)

lemma walk_near_fwd:
  assumes "sl_near p lv c z t t1" and "walk_from t key l pred = Some (t', r)"
  shows "\<exists>t1'. walk_from t1 key l pred = Some (t1', r) \<and> sl_near p lv c z t' t1'"
proof (cases "t1 = t")
  case True
  then show ?thesis using assms(2) sl_near_refl by blast
next
  case False
  then have "unlink_step t p lv c z t1" using assms(1) by (simp add: sl_near_def)
  then show ?thesis using assms(2) by (rule walk_sim_fwd)
qed

lemma walk_near_bwd:
  assumes "sl_near p lv c z t t1" and "walk_from t1 key l pred = Some (t1', r)"
  shows "\<exists>t'. walk_from t key l pred = Some (t', r) \<and> sl_near p lv c z t' t1'"
proof (cases "t1 = t")
  case True
  then show ?thesis using assms(2) sl_near_refl by blast
next
  case False
  then have "unlink_step t p lv c z t1" using assms(1) by (simp add: sl_near_def)
  then show ?thesis using assms(2) by (rule walk_sim_bwd)
qed

lemma find_levels_unfold:
  "find_levels s key pred (Suc level) =
     (case walk_from s key level pred of
        None \<Rightarrow> None
      | Some (s1, r) \<Rightarrow>
          (case r of
             None \<Rightarrow> Some (s1, None)
           | Some (pred1, cur1) \<Rightarrow>
               (case find_levels s1 key pred1 level of
                  None \<Rightarrow> None
                | Some (s2, r2) \<Rightarrow>
                    (case r2 of
                       None \<Rightarrow> Some (s2, None)
                     | Some (preds, succs) \<Rightarrow>
                         Some (s2, Some (preds @ [pred1], succs @ [cur1]))))))"
  by (simp add: walk_from_def split: option.splits)

lemma find_levels_Suc_cases:
  assumes "find_levels s key pred (Suc level) = Some (s', r)"
  obtains (restart) "walk_from s key level pred = Some (s', None)" "r = None"
  | (below) s1 pred1 cur1 r2 where "walk_from s key level pred = Some (s1, Some (pred1, cur1))"
      "find_levels s1 key pred1 level = Some (s', r2)"
      "r = map_option (\<lambda>x. (fst x @ [pred1], snd x @ [cur1])) r2"
  using assms unfolding find_levels_unfold
  by (auto split: option.splits)

lemma find_levels_SucI:
  assumes "walk_from s key level pred = Some (s1, Some (pred1, cur1))"
    and "find_levels s1 key pred1 level = Some (s', r2)"
  shows "find_levels s key pred (Suc level)
           = Some (s', map_option (\<lambda>x. (fst x @ [pred1], snd x @ [cur1])) r2)"
  using assms unfolding find_levels_unfold
  by (auto split: option.splits)

lemma levels_near_fwd:
  assumes "sl_near p lv c z t t1" and "find_levels t key pred n = Some (t', r)"
  shows "\<exists>t1'. find_levels t1 key pred n = Some (t1', r) \<and> sl_near p lv c z t' t1'"
  using assms
proof (induction n arbitrary: t t1 pred t' r)
  case 0
  then show ?case by simp
next
  case (Suc n)
  from Suc.prems(2) show ?case
  proof (cases rule: find_levels_Suc_cases)
    case restart
    obtain t1' where w: "walk_from t1 key n pred = Some (t1', None)" "sl_near p lv c z t' t1'"
      using walk_near_fwd[OF Suc.prems(1) restart(1)] by blast
    have "find_levels t1 key pred (Suc n) = Some (t1', None)"
      using w(1) unfolding find_levels_unfold by simp
    then show ?thesis using w(2) restart(2) by simp
  next
    case (below s1 pred1 cur1 r2)
    obtain u1 where w: "walk_from t1 key n pred = Some (u1, Some (pred1, cur1))"
      "sl_near p lv c z s1 u1"
      using walk_near_fwd[OF Suc.prems(1) below(1)] by blast
    obtain t1' where f: "find_levels u1 key pred1 n = Some (t1', r2)" "sl_near p lv c z t' t1'"
      using Suc.IH[OF w(2) below(2)] by blast
    show ?thesis using find_levels_SucI[OF w(1) f(1)] f(2) below(3) by simp
  qed
qed

lemma levels_near_bwd:
  assumes "sl_near p lv c z t t1" and "find_levels t1 key pred n = Some (t1', r)"
  shows "\<exists>t'. find_levels t key pred n = Some (t', r) \<and> sl_near p lv c z t' t1'"
  using assms
proof (induction n arbitrary: t t1 pred t1' r)
  case 0
  then show ?case by simp
next
  case (Suc n)
  from Suc.prems(2) show ?case
  proof (cases rule: find_levels_Suc_cases)
    case restart
    obtain t' where w: "walk_from t key n pred = Some (t', None)" "sl_near p lv c z t' t1'"
      using walk_near_bwd[OF Suc.prems(1) restart(1)] by blast
    have "find_levels t key pred (Suc n) = Some (t', None)"
      using w(1) unfolding find_levels_unfold by simp
    then show ?thesis using w(2) restart(2) by simp
  next
    case (below s1 pred1 cur1 r2)
    obtain u where w: "walk_from t key n pred = Some (u, Some (pred1, cur1))"
      "sl_near p lv c z u s1"
      using walk_near_bwd[OF Suc.prems(1) below(1)] by blast
    obtain t' where f: "find_levels u key pred1 n = Some (t', r2)" "sl_near p lv c z t' t1'"
      using Suc.IH[OF w(2) below(2)] by blast
    show ?thesis using find_levels_SucI[OF w(1) f(1)] f(2) below(3) by simp
  qed
qed

lemma sl_find_finish:
  assumes "find_levels t key (sl_head t) MAX_LEVEL = Some (t', Some (preds, succs))"
  shows "sl_find t key
           = Some (succs ! 0 \<noteq> sl_tail t' \<and> key_of t' (succs ! 0) = key, preds, succs, t')"
  using assms by (subst sl_find.simps) simp

lemma sl_find_restart:
  assumes "find_levels t key (sl_head t) MAX_LEVEL = Some (t', None)"
  shows "sl_find t key = sl_find t' key"
  using assms by (subst sl_find.simps) simp

lemma find_near_fwd:
  assumes "sl_near p lv c z t t1" and "sl_find t key = Some (fst res, fst (snd res), fst (snd (snd res)), t')"
  shows "\<exists>t1'. sl_find t1 key = Some (fst res, fst (snd res), fst (snd (snd res)), t1')
               \<and> sl_near p lv c z t' t1'"
proof -
  have "\<forall>t1. sl_near p lv c z t t1
          \<longrightarrow> (\<exists>t1'. sl_find t1 key
                         = Some (fst r, fst (snd r), fst (snd (snd r)), t1')
                       \<and> sl_near p lv c z (snd (snd (snd r))) t1')"
    if "sl_find t key = Some r" for r
    using that
  proof (induction rule: sl_find_induct)
    case (finish t key t' preds succs)
    show ?case
    proof (intro allI impI)
      fix t1 assume n: "sl_near p lv c z t t1"
      have h: "sl_head t1 = sl_head t" using sl_near_fields(1)[OF n] .
      obtain t1' where f: "find_levels t1 key (sl_head t1) MAX_LEVEL = Some (t1', Some (preds, succs))"
        "sl_near p lv c z t' t1'"
        using levels_near_fwd[OF n finish] h by auto
      note e = sl_near_fields(2,3)[OF f(2)]
      show "\<exists>t1'. sl_find t1 key
              = Some (fst (succs ! 0 \<noteq> sl_tail t' \<and> key_of t' (succs ! 0) = key, preds, succs, t'),
                      fst (snd (succs ! 0 \<noteq> sl_tail t' \<and> key_of t' (succs ! 0) = key, preds, succs, t')),
                      fst (snd (snd (succs ! 0 \<noteq> sl_tail t' \<and> key_of t' (succs ! 0) = key, preds, succs, t'))),
                      t1')
            \<and> sl_near p lv c z
                (snd (snd (snd (succs ! 0 \<noteq> sl_tail t' \<and> key_of t' (succs ! 0) = key, preds, succs, t')))) t1'"
        using sl_find_finish[OF f(1)] f(2) by (simp add: e)
    qed
  next
    case (restart t key t' res)
    show ?case
    proof (intro allI impI)
      fix t1 assume n: "sl_near p lv c z t t1"
      have h: "sl_head t1 = sl_head t" using sl_near_fields(1)[OF n] .
      obtain t1' where f: "find_levels t1 key (sl_head t1) MAX_LEVEL = Some (t1', None)"
        "sl_near p lv c z t' t1'"
        using levels_near_fwd[OF n restart(1)] h by auto
      show "\<exists>t1'a. sl_find t1 key = Some (fst res, fst (snd res), fst (snd (snd res)), t1'a)
              \<and> sl_near p lv c z (snd (snd (snd res))) t1'a"
        using restart.IH f(2) sl_find_restart[OF f(1)] by simp
    qed
  qed
  from this[OF assms(2)] assms(1) show ?thesis by simp
qed

lemma find_near_bwd:
  assumes "sl_near p lv c z t t1" and "sl_find t1 key = Some (fst res, fst (snd res), fst (snd (snd res)), t1')"
  shows "\<exists>t'. sl_find t key = Some (fst res, fst (snd res), fst (snd (snd res)), t')
               \<and> sl_near p lv c z t' t1'"
proof -
  have "\<forall>t. sl_near p lv c z t t1
          \<longrightarrow> (\<exists>t'. sl_find t key
                         = Some (fst r, fst (snd r), fst (snd (snd r)), t')
                       \<and> sl_near p lv c z t' (snd (snd (snd r))))"
    if "sl_find t1 key = Some r" for r
    using that
  proof (induction rule: sl_find_induct)
    case (finish t1 key t1' preds succs)
    show ?case
    proof (intro allI impI)
      fix t assume n: "sl_near p lv c z t t1"
      have h: "sl_head t1 = sl_head t" using sl_near_fields(1)[OF n] .
      obtain t' where f: "find_levels t key (sl_head t) MAX_LEVEL = Some (t', Some (preds, succs))"
        "sl_near p lv c z t' t1'"
        using levels_near_bwd[OF n finish[unfolded h]] by blast
      note e = sl_near_fields(2,3)[OF f(2)]
      show "\<exists>t'. sl_find t key
              = Some (fst (succs ! 0 \<noteq> sl_tail t1' \<and> key_of t1' (succs ! 0) = key, preds, succs, t1'),
                      fst (snd (succs ! 0 \<noteq> sl_tail t1' \<and> key_of t1' (succs ! 0) = key, preds, succs, t1')),
                      fst (snd (snd (succs ! 0 \<noteq> sl_tail t1' \<and> key_of t1' (succs ! 0) = key, preds, succs, t1'))),
                      t')
            \<and> sl_near p lv c z t'
                (snd (snd (snd (succs ! 0 \<noteq> sl_tail t1' \<and> key_of t1' (succs ! 0) = key, preds, succs, t1'))))"
        using sl_find_finish[OF f(1)] f(2) by (simp add: e)
    qed
  next
    case (restart t1 key t1' res)
    show ?case
    proof (intro allI impI)
      fix t assume n: "sl_near p lv c z t t1"
      have h: "sl_head t1 = sl_head t" using sl_near_fields(1)[OF n] .
      obtain t' where f: "find_levels t key (sl_head t) MAX_LEVEL = Some (t', None)"
        "sl_near p lv c z t' t1'"
        using levels_near_bwd[OF n restart(1)[unfolded h]] by blast
      show "\<exists>t'a. sl_find t key = Some (fst res, fst (snd res), fst (snd (snd res)), t'a)
              \<and> sl_near p lv c z t'a (snd (snd (snd res)))"
        using restart.IH f(2) sl_find_restart[OF f(1)] by simp
    qed
  qed
  from this[OF assms(2)] assms(1) show ?thesis by simp
qed

subsection \<open>The value set that \<^verbatim>\<open>search\<close> returns\<close>

lemma sl_search_of_find:
  "sl_search s key =
     (case sl_find s key of
        None \<Rightarrow> None
      | Some (found, preds, succs, s1) \<Rightarrow>
          if found \<and> \<not> valid s1 (succs ! 0) 0 then None
          else Some (if found \<and> \<not> is_marked (nx s1 (succs ! 0) 0)
                     then values_of s1 (succs ! 0) else {}, s1))"
  by (auto simp: sl_search_def load_def split: option.splits)

lemma search_near_fwd:
  assumes n: "sl_near p lv c z t t1" and run: "sl_search t key = Some (vs, t')"
  shows "\<exists>t1'. sl_search t1 key = Some (vs, t1') \<and> sl_near p lv c z t' t1'"
proof -
  obtain found preds succs u where f: "sl_find t key = Some (found, preds, succs, u)"
    using run by (cases "sl_find t key") (auto simp: sl_search_of_find)
  obtain u1 where f1: "sl_find t1 key = Some (found, preds, succs, u1)"
    and n1: "sl_near p lv c z u u1"
    using find_near_fwd[OF n, of key "(found, preds, succs, u)" u] f by auto
  note e = sl_near_fields(4,5,6)[OF n1]
  have u: "t' = u" using run f by (auto simp: sl_search_of_find split: if_splits)
  have "sl_search t1 key = Some (vs, u1)"
    using run f f1 by (auto simp: sl_search_of_find e split: if_splits)
  then show ?thesis using n1 u by simp
qed

lemma search_near_bwd:
  assumes n: "sl_near p lv c z t t1" and run: "sl_search t1 key = Some (vs, t1')"
  shows "\<exists>t'. sl_search t key = Some (vs, t') \<and> sl_near p lv c z t' t1'"
proof -
  obtain found preds succs u1 where f1: "sl_find t1 key = Some (found, preds, succs, u1)"
    using run by (cases "sl_find t1 key") (auto simp: sl_search_of_find)
  obtain u where f: "sl_find t key = Some (found, preds, succs, u)"
    and n1: "sl_near p lv c z u u1"
    using find_near_bwd[OF n, of key "(found, preds, succs, u1)" u1] f1 by auto
  note e = sl_near_fields(4,5,6)[OF n1]
  have u: "t1' = u1" using run f1 by (auto simp: sl_search_of_find split: if_splits)
  have "sl_search t key = Some (vs, u)"
    using run f f1 by (auto simp: sl_search_of_find e split: if_splits)
  then show ?thesis using n1 u by simp
qed

lemma unlink_search_eq:
  assumes "unlinked t t1"
  shows "map_option fst (sl_search t k) = map_option fst (sl_search t1 k)"
proof -
  obtain p lv c z where "unlink_step t p lv c z t1"
    using assms by (auto simp: unlinked_def)
  then have n: "sl_near p lv c z t t1" by (simp add: sl_near_def)
  show ?thesis
  proof (cases "sl_search t k")
    case None
    have "sl_search t1 k = None"
    proof (cases "sl_search t1 k")
      case (Some a)
      then show ?thesis using search_near_bwd[OF n, of k "fst a" "snd a"] None by simp
    qed simp
    then show ?thesis using None by simp
  next
    case (Some a)
    then show ?thesis using search_near_fwd[OF n, of k "fst a" "snd a"] by auto
  qed
qed

lemma unlinks_search_eq:
  assumes "rtranclp unlinked t t1"
  shows "map_option fst (sl_search t k) = map_option fst (sl_search t1 k)"
  using assms
proof (induction rule: rtranclp_induct)
  case base
  show ?case by simp
next
  case (step y z)
  then show ?case using unlink_search_eq[of y z k] by simp
qed

subsection \<open>\<^verbatim>\<open>search\<close> writes nothing but unlinkings\<close>

lemma walk_from_unlinks:
  assumes "walk_from t key l pred = Some res"
  shows "rtranclp unlinked t (fst res)"
  using assms
proof (induction rule: walk_from_induct)
  case (restart t key l pred t')
  then show ?case using skip_from_post(1) by fastforce
next
  case (stop t key l pred t' cur1 succ1)
  then show ?case using skip_from_post(1) by fastforce
next
  case (move t key l pred t' cur1 succ1 res)
  have "rtranclp unlinked t t'" using skip_from_post(1)[OF move(1)] .
  then show ?case using move.IH by simp
qed

lemma find_levels_unlinks:
  assumes "find_levels t key pred n = Some (t', r)"
  shows "rtranclp unlinked t t'"
  using assms
proof (induction n arbitrary: t pred t' r)
  case 0
  then show ?case by simp
next
  case (Suc n)
  from Suc.prems show ?case
  proof (cases rule: find_levels_Suc_cases)
    case restart
    then show ?thesis using walk_from_unlinks[OF restart(1)] by simp
  next
    case (below s1 pred1 cur1 r2)
    have "rtranclp unlinked t s1" using walk_from_unlinks[OF below(1)] by simp
    moreover have "rtranclp unlinked s1 t'" using Suc.IH[OF below(2)] .
    ultimately show ?thesis by simp
  qed
qed

lemma sl_find_unlinks:
  assumes "sl_find t key = Some res"
  shows "rtranclp unlinked t (snd (snd (snd res)))"
  using assms
proof (induction rule: sl_find_induct)
  case (finish t key t' preds succs)
  then show ?case using find_levels_unlinks by fastforce
next
  case (restart t key t' res)
  have "rtranclp unlinked t t'" using find_levels_unlinks[OF restart(1)] .
  then show ?case using restart.IH by simp
qed

lemma sl_search_unlinks:
  assumes "sl_search t key = Some (vs, t')"
  shows "rtranclp unlinked t t'"
proof -
  obtain found preds succs u where f: "sl_find t key = Some (found, preds, succs, u)"
    using assms by (cases "sl_find t key") (auto simp: sl_search_of_find)
  have "t' = u" using assms f by (auto simp: sl_search_of_find split: if_splits)
  then show ?thesis using sl_find_unlinks[OF f] by simp
qed

subsection \<open>A \<^verbatim>\<open>search\<close> on the list left by an overtaken insert\<close>

lemma sl_bd_search_a:
  "sl_search (sl_bd [(Some 3, False), (Some 3, False)] [(Some 2, True), (Some 1, False)]
                (Some 1, False)) ''a''
     = Some ({}, sl_bd [(Some 2, False), (Some 3, False)] [(Some 2, True), (Some 1, False)]
                   (Some 1, False))"
  unfolding sl_search_def
  by (subst sl_find.simps) (simp add: sl_eval_bd)

lemma sl_bd_search_d:
  "map_option fst
     (sl_search (sl_bd [(Some 2, False), (Some 3, False)] [(Some 2, True), (Some 1, False)]
                   (Some 1, False)) ''d'')
     = map_option fst
         (sl_search (sl_bd [(Some 3, False), (Some 3, False)] [(Some 2, True), (Some 1, False)]
                       (Some 1, False)) ''d'')"
  using unlinks_search_eq[OF sl_search_unlinks[OF sl_bd_search_a], of "''d''"] by simp

subsection \<open>The frame of \<^verbatim>\<open>search\<close>\<close>

lemma sl_two_unlinked:
  "unlinked (sl_two [(Some 2, False), (Some 3, False)] (Some 3, True))
     (sl_two [(Some 3, False), (Some 3, False)] (Some 3, True))"
proof -
  have "unlink_step (sl_two [(Some 2, False), (Some 3, False)] (Some 3, True)) 0 0 2 3
          (sl_two [(Some 3, False), (Some 3, False)] (Some 3, True))"
    by (simp add: unlink_step_def sl_eval)
  then show ?thesis unfolding unlinked_def by blast
qed

text \<open>
  Claim C10: \<^verbatim>\<open>search\<close> may change the list, but not what a \<^verbatim>\<open>search\<close> returns. This holds
  for every list, whatever the operations that built it and however they overlapped. If
  \<open>search key\<close> returns on a list \<open>s\<close> and leaves the list \<open>s'\<close>, then \<open>s'\<close> comes from \<open>s\<close> by
  unlinking steps only (the pointer to a node whose own pointer is marked is replaced by
  that pointer, unmarked), and for every key \<open>k\<close> the \<^verbatim>\<open>search\<close> of \<open>k\<close> behaves on \<open>s'\<close> as on
  \<open>s\<close>: it returns the same value set, or it returns on neither. The same is true of
  every single unlinking step, on whatever list it is made. On the lists of lemma
  \<open>sl_sequential_search_returns\<close> every \<^verbatim>\<open>search\<close> returns.
\<close>

theorem sl_search_keeps_contents:
  "(sl_search s key = Some (vs, s')
      \<longrightarrow> rtranclp unlinked s s'
          \<and> map_option fst (sl_search s' k) = map_option fst (sl_search s k))
   \<and> (unlinked t t1 \<longrightarrow> map_option fst (sl_search t1 k) = map_option fst (sl_search t k))"
proof (intro conjI impI)
  assume r: "sl_search s key = Some (vs, s')"
  show "rtranclp unlinked s s'" using sl_search_unlinks[OF r] .
  show "map_option fst (sl_search s' k) = map_option fst (sl_search s k)"
    using unlinks_search_eq[OF sl_search_unlinks[OF r], of k] by simp
next
  assume "unlinked t t1"
  then show "map_option fst (sl_search t1 k) = map_option fst (sl_search t k)"
    using unlink_search_eq[of t t1 k] by simp
qed

theorem sl_search_keeps_contents_witness:
  "sl_search (sl_two [(Some 2, False), (Some 3, False)] (Some 3, True)) ''a''
       = Some ({}, sl_two [(Some 3, False), (Some 3, False)] (Some 3, True))
   \<and> sl_two [(Some 3, False), (Some 3, False)] (Some 3, True)
       \<noteq> sl_two [(Some 2, False), (Some 3, False)] (Some 3, True)
   \<and> unlinked (sl_two [(Some 2, False), (Some 3, False)] (Some 3, True))
       (sl_two [(Some 3, False), (Some 3, False)] (Some 3, True))
   \<and> rtranclp unlinked (sl_two [(Some 2, False), (Some 3, False)] (Some 3, True))
       (sl_two [(Some 3, False), (Some 3, False)] (Some 3, True))
   \<and> map_option fst (sl_search (sl_two [(Some 3, False), (Some 3, False)] (Some 3, True)) ''b'')
       = map_option fst
           (sl_search (sl_two [(Some 2, False), (Some 3, False)] (Some 3, True)) ''b'')
   \<and> map_option fst (sl_search (sl_two [(Some 2, False), (Some 3, False)] (Some 3, True)) ''b'')
       = Some {''w''}"
proof -
  have ne: "sl_two [(Some 3, False), (Some 3, False)] (Some 3, True)
              \<noteq> sl_two [(Some 2, False), (Some 3, False)] (Some 3, True)"
    by (simp add: sl_two_def)
  note t = sl_search_keeps_contents[of "sl_two [(Some 2, False), (Some 3, False)] (Some 3, True)"
      "''a''" "{}" "sl_two [(Some 3, False), (Some 3, False)] (Some 3, True)" "''b''"
      "sl_two [(Some 2, False), (Some 3, False)] (Some 3, True)"
      "sl_two [(Some 3, False), (Some 3, False)] (Some 3, True)"]
  have u: "rtranclp unlinked (sl_two [(Some 2, False), (Some 3, False)] (Some 3, True))
       (sl_two [(Some 3, False), (Some 3, False)] (Some 3, True))"
    and e: "map_option fst (sl_search (sl_two [(Some 3, False), (Some 3, False)] (Some 3, True)) ''b'')
       = map_option fst
           (sl_search (sl_two [(Some 2, False), (Some 3, False)] (Some 3, True)) ''b'')"
    using t sl_two_search_a sl_two_unlinked by blast+
  show ?thesis
    using sl_two_search_a sl_two_unlinked ne u e sl_two_search_b(1) by simp
qed

end
